(* ===== verification/Redis_Prelude.thy ===== *)
theory Redis_Prelude
  imports Main "HOL-Library.Word" "HOL-Library.Monad_Syntax"
begin

text \<open>
  Shared material of the development: the names of the C integer types and their ranges, a byte
  memory with checked reads and writes, little-endian encodings of two's complement integers, and
  the list facts the component theories rest on.

  Conventions. A C function becomes a HOL function of the same name; a leading underscore, which
  Isabelle does not allow in a name, is written as the suffix \<open>_u\<close> (\<open>_intsetGet\<close> is
  \<open>intsetGet_u\<close>). A read or a write outside the object it addresses, a failed \<open>assert\<close> and a
  loop that never ends are the value \<open>None\<close> of the option monad, so that "returns \<open>Some\<close>" is
  the statement that the C function is memory safe, asserts nothing false, and terminates.
\<close>

unbundle bit_operations_syntax

named_theorems mem_simps \<open>evaluation of checked memory accesses\<close>
named_theorems le_simps \<open>little-endian encodings\<close>

section \<open>C integer types\<close>

type_synonym byte = "8 word"
type_synonym u16 = "16 word"
type_synonym u32 = "32 word"
type_synonym u64 = "64 word"

definition int_range :: "nat \<Rightarrow> int \<Rightarrow> bool" where
  "int_range w v \<longleftrightarrow> - (2 ^ (w - 1)) \<le> v \<and> v < 2 ^ (w - 1)"

abbreviation int16 :: "int \<Rightarrow> bool" where "int16 \<equiv> int_range 16"
abbreviation int32 :: "int \<Rightarrow> bool" where "int32 \<equiv> int_range 32"
abbreviation int64 :: "int \<Rightarrow> bool" where "int64 \<equiv> int_range 64"

text \<open>Conversion of a mathematical integer to a signed 32-bit C \<open>int\<close> (two's complement).\<close>

definition to_int32 :: "int \<Rightarrow> int" where
  "to_int32 v = signed_take_bit 31 v"

lemma to_int32_id [simp]: "int32 v \<Longrightarrow> to_int32 v = v"
  by (simp add: to_int32_def int_range_def signed_take_bit_int_eq_self_iff)

section \<open>Checked byte memory\<close>

definition mload :: "byte list \<Rightarrow> int \<Rightarrow> nat \<Rightarrow> byte list option" where
  "mload m off n =
     (if 0 \<le> off \<and> nat off + n \<le> length m then Some (take n (drop (nat off) m)) else None)"

definition mstore :: "byte list \<Rightarrow> int \<Rightarrow> byte list \<Rightarrow> byte list option" where
  "mstore m off xs =
     (if 0 \<le> off \<and> nat off + length xs \<le> length m
      then Some (take (nat off) m @ xs @ drop (nat off + length xs) m) else None)"

text \<open>
  \<open>zrealloc\<close>: the first bytes are kept and the bytes past the old size are indeterminate; the
  parameter \<open>junk\<close> gives the indeterminate byte at each position, and every theorem holds for
  all of its values.
\<close>

definition mrealloc :: "(nat \<Rightarrow> byte) \<Rightarrow> nat \<Rightarrow> byte list \<Rightarrow> byte list" where
  "mrealloc junk n m = take n m @ map junk [length m..<n]"

lemma length_mrealloc [simp]: "length (mrealloc junk n m) = n"
  by (simp add: mrealloc_def)

lemma mrealloc_shrink: "n \<le> length m \<Longrightarrow> mrealloc junk n m = take n m"
  by (simp add: mrealloc_def)

lemma take_mrealloc: "k \<le> n \<Longrightarrow> k \<le> length m \<Longrightarrow> take k (mrealloc junk n m) = take k m"
  by (simp add: mrealloc_def min_def)

lemma mload_Some [mem_simps]:
  "nat off + n \<le> length m \<Longrightarrow> 0 \<le> off \<Longrightarrow> mload m off n = Some (take n (drop (nat off) m))"
  by (simp add: mload_def)

lemma mstore_Some [mem_simps]:
  "nat off + length xs \<le> length m \<Longrightarrow> 0 \<le> off \<Longrightarrow>
   mstore m off xs = Some (take (nat off) m @ xs @ drop (nat off + length xs) m)"
  by (simp add: mstore_def)

lemma length_mstore: "mstore m off xs = Some m' \<Longrightarrow> length m' = length m"
  by (auto simp: mstore_def split: if_splits)

section \<open>Little-endian two's complement\<close>

primrec le_bytes :: "nat \<Rightarrow> int \<Rightarrow> byte list" where
  "le_bytes 0 v = []"
| "le_bytes (Suc n) v = word_of_int v # le_bytes n (v div 256)"

primrec le_val :: "byte list \<Rightarrow> int" where
  "le_val [] = 0"
| "le_val (b # bs) = uint b + 256 * le_val bs"

definition le_sval :: "byte list \<Rightarrow> int" where
  "le_sval bs =
     (let v = le_val bs; n = length bs
      in if v < 2 ^ (8 * n - 1) then v else v - 2 ^ (8 * n))"

lemma length_le_bytes [simp, le_simps]: "length (le_bytes n v) = n"
  by (induction n arbitrary: v) auto

lemma le_val_bounds: "0 \<le> le_val bs \<and> le_val bs < 256 ^ length bs"
proof (induction bs)
  case (Cons b bs)
  have "uint b < 256" using uint_lt2p [of b] by simp
  with Cons show ?case by (auto intro: add_nonneg_nonneg) 
qed simp

lemma pow256: "(256::int) ^ n = 2 ^ (8 * n)"
  by (simp add: power_mult)

lemma le_val_le_bytes [le_simps]: "le_val (le_bytes n v) = v mod 256 ^ n"
proof (induction n arbitrary: v)
  case (Suc n)
  have "uint (word_of_int v :: byte) = v mod 256"
    by (simp add: uint_word_of_int)
  then have "le_val (le_bytes (Suc n) v) = v mod 256 + 256 * (v div 256 mod 256 ^ n)"
    using Suc by simp
  also have "\<dots> = v mod (256 * 256 ^ n)"
    by (simp add: mod_mult2_eq' zmod_zmult2_eq)
  finally show ?case by simp
qed simp

lemma le_sval_le_bytes [le_simps]:
  assumes "0 < n" "int_range (8 * n) v"
  shows "le_sval (le_bytes n v) = v"
proof -
  have p: "(2::int) ^ (8 * n) = 2 * 2 ^ (8 * n - 1)"
    using assms(1) by (metis Suc_diff_1 mult_pos_pos power_Suc zero_less_numeral)
  show ?thesis
  proof (cases "0 \<le> v")
    case True
    then have "v mod 256 ^ n = v"
      using assms p by (simp add: pow256 int_range_def)
    then show ?thesis
      using assms True by (simp add: le_sval_def le_val_le_bytes int_range_def)
  next
    case False
    have "v mod 2 ^ (8 * n) = (v + 2 ^ (8 * n)) mod 2 ^ (8 * n)" by simp
    also have "\<dots> = v + 2 ^ (8 * n)"
      using False assms p by (intro mod_pos_pos_trivial) (auto simp: int_range_def)
    finally show ?thesis
      using False assms p by (simp add: le_sval_def le_val_le_bytes pow256 int_range_def)
  qed
qed

lemma le_sval_range:
  assumes "bs \<noteq> []"
  shows "int_range (8 * length bs) (le_sval bs)"
proof -
  have p: "(2::int) ^ (8 * length bs) = 2 * 2 ^ (8 * length bs - 1)"
    using assms by (metis Suc_diff_1 length_greater_0_conv mult_pos_pos power_Suc zero_less_numeral)
  show ?thesis
    using le_val_bounds [of bs] p by (auto simp: le_sval_def int_range_def pow256 Let_def)
qed

lemma byte_256 [simp]: "(256 :: byte) = 0"
  by simp

lemma le_bytes_le_val [le_simps]: "le_bytes (length bs) (le_val bs) = bs"
proof (induction bs)
  case (Cons b bs)
  have b: "0 \<le> uint b" "uint b < 256" using uint_lt2p [of b] by auto
  then have "(uint b + 256 * le_val bs) div 256 = le_val bs" by simp
  moreover have "(word_of_int (uint b + 256 * le_val bs) :: byte) = b" by simp
  ultimately show ?case using Cons by simp
qed simp

lemma le_bytes_mod [le_simps]: "le_bytes n (v + k * 256 ^ n) = le_bytes n v"
proof (induction n arbitrary: v)
  case (Suc n)
  have "(v + k * 256 ^ Suc n) div 256 = v div 256 + k * 256 ^ n"
  proof -
    have "v + k * 256 ^ Suc n = v + (k * 256 ^ n) * 256" by simp
    then show ?thesis by (simp only: div_mult_self1)
  qed
  moreover have "(word_of_int (v + k * 256 ^ Suc n) :: byte) = word_of_int v" by simp
  ultimately show ?case using Suc by simp
qed simp

lemma le_bytes_le_sval [le_simps]: "length bs = n \<Longrightarrow> le_bytes n (le_sval bs) = bs"
  using le_bytes_mod [of n "le_val bs" "-1"] le_bytes_le_val [of bs]
  by (auto simp: le_sval_def Let_def pow256)

section \<open>Concatenations of equally long pieces\<close>

lemma length_concat_uniform:
  "\<forall>x\<in>set xs. length (f x) = e \<Longrightarrow> length (concat (map f xs)) = length xs * e"
  by (induction xs) auto

lemma take_concat_uniform:
  assumes "\<forall>x\<in>set xs. length (f x) = e"
  shows "take (i * e) (concat (map f xs)) = concat (map f (take i xs))"
  using assms
proof (induction xs arbitrary: i)
  case (Cons x xs)
  then show ?case by (cases i) auto
qed simp

lemma drop_concat_uniform:
  assumes "\<forall>x\<in>set xs. length (f x) = e"
  shows "drop (i * e) (concat (map f xs)) = concat (map f (drop i xs))"
  using assms
proof (induction xs arbitrary: i)
  case (Cons x xs)
  then show ?case by (cases i) auto
qed simp

lemma chunk_concat_uniform:
  assumes "\<forall>x\<in>set xs. length (f x) = e" "i < length xs"
  shows "take e (drop (i * e) (concat (map f xs) @ ys)) = f (xs ! i)"
proof -
  have "drop i xs = xs ! i # drop (Suc i) xs"
    using assms(2) by (simp add: Cons_nth_drop_Suc)
  moreover have "i * e + e \<le> length (concat (map f xs))"
  proof -
    have "Suc i * e \<le> length xs * e" using assms(2) by (intro mult_le_mono1) simp
    then show ?thesis by (simp only: length_concat_uniform [OF assms(1)] mult_Suc add.commute)
  qed
  ultimately show ?thesis
    using assms by (simp add: drop_concat_uniform del: length_concat)
qed

end
