(* ===== verification/Set_Interface.thy ===== *)
theory Set_Interface
  imports Redis_Prelude
begin

text \<open>
  What the callers of a set representation rely on, as a locale: the operations return (no failed
  assertion, no access outside an object), keep the representation invariant, act on the abstract
  set as insertion, removal and membership, and report whether the set changed. The integer sets
  of \<open>intset.c\<close>, the hash tables of \<open>dict.c\<close> and the set objects of \<open>t_set.c\<close>, which switch
  from one to the other, are instances. \<open>admissible\<close> are the values the representation can hold
  and \<open>room s n\<close> says that \<open>n\<close> more insertions stay inside its capacity.
\<close>

section \<open>The loop over the arguments of a command\<close>

text \<open>The loop of \<open>SADD\<close> over its arguments, which counts the new elements.\<close>

fun add_loop :: "('s \<Rightarrow> 'a \<Rightarrow> ('s \<times> bool) option) \<Rightarrow> 's \<Rightarrow> 'a list \<Rightarrow> nat \<Rightarrow> ('s \<times> nat) option" where
  "add_loop add s [] added = Some (s, added)"
| "add_loop add s (x # xs) added = do {
     (s', b) \<leftarrow> add s x;
     add_loop add s' xs (if b then added + 1 else added) }"

section \<open>The contract\<close>

locale set_impl =
  fixes invar :: "'s \<Rightarrow> bool"
    and elems :: "'s \<Rightarrow> 'a set"
    and admissible :: "'a \<Rightarrow> bool"
    and room :: "'s \<Rightarrow> nat \<Rightarrow> bool"
    and add :: "'s \<Rightarrow> 'a \<Rightarrow> ('s \<times> bool) option"
    and remove :: "'s \<Rightarrow> 'a \<Rightarrow> ('s \<times> bool) option"
    and member :: "'s \<Rightarrow> 'a \<Rightarrow> ('s \<times> bool) option"
    and size :: "'s \<Rightarrow> nat"
  assumes finite_elems: "invar s \<Longrightarrow> finite (elems s)"
    and size_elems: "invar s \<Longrightarrow> size s = card (elems s)"
    and add_spec: "invar s \<Longrightarrow> admissible x \<Longrightarrow> room s (Suc n) \<Longrightarrow>
      \<exists>s'. add s x = Some (s', x \<notin> elems s) \<and> invar s' \<and> elems s' = insert x (elems s) \<and> room s' n"
    and remove_spec: "invar s \<Longrightarrow> admissible x \<Longrightarrow>
      \<exists>s'. remove s x = Some (s', x \<in> elems s) \<and> invar s' \<and> elems s' = elems s - {x}"
    and member_spec: "invar s \<Longrightarrow> admissible x \<Longrightarrow>
      \<exists>s'. member s x = Some (s', x \<in> elems s) \<and> invar s' \<and> elems s' = elems s"
begin

lemma add_loop_spec:
  assumes "invar s" "\<forall>x\<in>set xs. admissible x" "room s (length xs)"
  shows "\<exists>s'. add_loop add s xs n = Some (s', n + card (set xs - elems s)) \<and>
    invar s' \<and> elems s' = elems s \<union> set xs"
  using assms
proof (induction xs arbitrary: s n)
  case (Cons x xs)
  obtain s1 where s1: "add s x = Some (s1, x \<notin> elems s)" "invar s1"
    "elems s1 = insert x (elems s)" "room s1 (length xs)"
    using add_spec [of s x "length xs"] Cons.prems by auto
  let ?n = "if x \<notin> elems s then n + 1 else n"
  obtain s2 where s2: "add_loop add s1 xs ?n = Some (s2, ?n + card (set xs - elems s1))"
    "invar s2" "elems s2 = elems s1 \<union> set xs"
    using Cons.IH [of s1 ?n] s1 Cons.prems by auto
  have "card (set (x # xs) - elems s) = (if x \<notin> elems s then 1 else 0) + card (set xs - elems s1)"
  proof (cases "x \<in> elems s")
    case True
    then show ?thesis by (simp add: s1 insert_absorb Diff_insert0 insert_Diff_if)
  next
    case False
    then have "set (x # xs) - elems s = insert x (set xs - elems s1)" by (auto simp: s1)
    then show ?thesis using False by (simp add: s1)
  qed
  then show ?case using s1 s2 by (auto simp: insert_commute)
qed simp

end

end
