(* ===== verification/Intset.thy ===== *)
theory Intset
  imports Set_Interface
begin

text \<open>
  Integer sets (\<open>intset.c\<close>): a sorted array of distinct integers, stored little-endian with 2, 4
  or 8 bytes per element. The flexible array member is a byte list whose length is the allocated
  size, so the in-place upgrade of the element width and the overlapping moves are modelled byte
  by byte. Positions are C \<open>int\<close>s, counters are \<open>uint32_t\<close> values with their wrap-around
  written out. The stored bytes are the same on hosts of either byte order (\<open>memrev64ifbe\<close> and
  its relatives turn the host's order into little-endian), which is what \<open>le_bytes\<close> says.
\<close>

section \<open>The data structure\<close>

record intset =
  is_encoding :: nat
  is_length :: nat
  is_contents :: "byte list"

definition INTSET_ENC_INT16 :: nat where "INTSET_ENC_INT16 = 2"
definition INTSET_ENC_INT32 :: nat where "INTSET_ENC_INT32 = 4"
definition INTSET_ENC_INT64 :: nat where "INTSET_ENC_INT64 = 8"

lemmas intset_encs = INTSET_ENC_INT16_def INTSET_ENC_INT32_def INTSET_ENC_INT64_def

definition intsetValueEncoding_u :: "int \<Rightarrow> nat" where
  "intsetValueEncoding_u v =
     (if v < - (2 ^ 31) \<or> v > 2 ^ 31 - 1 then INTSET_ENC_INT64
      else if v < - (2 ^ 15) \<or> v > 2 ^ 15 - 1 then INTSET_ENC_INT32
      else INTSET_ENC_INT16)"

definition intsetGetEncoded_u :: "intset \<Rightarrow> int \<Rightarrow> nat \<Rightarrow> int option" where
  "intsetGetEncoded_u s pos enc =
     (if enc = INTSET_ENC_INT64 then map_option le_sval (mload (is_contents s) (pos * 8) 8)
      else if enc = INTSET_ENC_INT32 then map_option le_sval (mload (is_contents s) (pos * 4) 4)
      else map_option le_sval (mload (is_contents s) (pos * 2) 2))"

definition intsetGet_u :: "intset \<Rightarrow> int \<Rightarrow> int option" where
  "intsetGet_u s pos = intsetGetEncoded_u s pos (is_encoding s)"

definition intsetSet_u :: "intset \<Rightarrow> int \<Rightarrow> int \<Rightarrow> intset option" where
  "intsetSet_u s pos value =
     (let encoding = is_encoding s in
      if encoding = INTSET_ENC_INT64 then do {
        c \<leftarrow> mstore (is_contents s) (pos * 8) (le_bytes 8 value);
        Some (s\<lparr>is_contents := c\<rparr>) }
      else if encoding = INTSET_ENC_INT32 then do {
        c \<leftarrow> mstore (is_contents s) (pos * 4) (le_bytes 4 value);
        Some (s\<lparr>is_contents := c\<rparr>) }
      else do {
        c \<leftarrow> mstore (is_contents s) (pos * 2) (le_bytes 2 value);
        Some (s\<lparr>is_contents := c\<rparr>) })"

definition intsetNew :: intset where
  "intsetNew = \<lparr>is_encoding = INTSET_ENC_INT16, is_length = 0, is_contents = []\<rparr>"

text \<open>\<open>sizeof(intset)\<close> is 8 and \<open>SIZE_MAX\<close> is \<open>2 ^ 64 - 1\<close>.\<close>

definition intsetResize :: "(nat \<Rightarrow> byte) \<Rightarrow> intset \<Rightarrow> nat \<Rightarrow> intset option" where
  "intsetResize junk s len =
     (let size = len * is_encoding s mod 2 ^ 64 in
      if size \<le> 2 ^ 64 - 1 - 8
      then Some (s\<lparr>is_contents := mrealloc junk size (is_contents s)\<rparr>)
      else None)"

section \<open>Search\<close>

partial_function (option) intsetSearch_loop ::
  "intset \<Rightarrow> int \<Rightarrow> int \<Rightarrow> int \<Rightarrow> int \<Rightarrow> int \<Rightarrow> (int \<times> int \<times> int) option" where
  [code]: "intsetSearch_loop s value mn mx mid cur =
     (if mx \<ge> mn then
        (let mid = ((mn mod 2 ^ 32 + mx mod 2 ^ 32) mod 2 ^ 32) div 2 in
         intsetGet_u s mid \<bind> (\<lambda>cur.
           if value > cur then intsetSearch_loop s value (mid + 1) mx mid cur
           else if value < cur then intsetSearch_loop s value mn (mid - 1) mid cur
           else Some (mn, mid, cur)))
      else Some (mn, mid, cur))"

definition intsetSearch :: "intset \<Rightarrow> int \<Rightarrow> (bool \<times> nat) option" where
  "intsetSearch s value =
     (let mx = to_int32 (int (is_length s) - 1) in
      if is_length s = 0 then Some (False, 0)
      else do {
        top \<leftarrow> intsetGet_u s mx;
        if value > top then Some (False, is_length s)
        else do {
          bottom \<leftarrow> intsetGet_u s 0;
          if value < bottom then Some (False, 0)
          else do {
            (mn, mid, cur) \<leftarrow> intsetSearch_loop s value 0 mx (-1) (-1);
            if value = cur then Some (True, nat mid) else Some (False, nat mn) } } })"

section \<open>Updates\<close>

primrec intsetUpgrade_loop :: "intset \<Rightarrow> nat \<Rightarrow> nat \<Rightarrow> nat \<Rightarrow> intset option" where
  "intsetUpgrade_loop s prepend curenc 0 = Some s"
| "intsetUpgrade_loop s prepend curenc (Suc n) = do {
     v \<leftarrow> intsetGetEncoded_u s (int n) curenc;
     s' \<leftarrow> intsetSet_u s (int (n + prepend)) v;
     intsetUpgrade_loop s' prepend curenc n }"

definition intsetUpgradeAndAdd :: "(nat \<Rightarrow> byte) \<Rightarrow> intset \<Rightarrow> int \<Rightarrow> intset option" where
  "intsetUpgradeAndAdd junk s value =
     (let curenc = is_encoding s;
          newenc = intsetValueEncoding_u value;
          length = is_length s;
          prepend = (if value < 0 then 1 else 0 :: nat)
      in do {
        s1 \<leftarrow> intsetResize junk (s\<lparr>is_encoding := newenc\<rparr>) ((is_length s + 1) mod 2 ^ 32);
        s2 \<leftarrow> intsetUpgrade_loop s1 prepend curenc length;
        s3 \<leftarrow> (if prepend \<noteq> 0 then intsetSet_u s2 0 value
               else intsetSet_u s2 (int (is_length s2)) value);
        Some (s3\<lparr>is_length := (is_length s3 + 1) mod 2 ^ 32\<rparr>) })"

definition intsetMoveTail :: "intset \<Rightarrow> nat \<Rightarrow> nat \<Rightarrow> intset option" where
  "intsetMoveTail s from to =
     (let n = nat ((int (is_length s) - int from) mod 2 ^ 32);
          encoding = is_encoding s;
          width = (if encoding = INTSET_ENC_INT64 then 8
                   else if encoding = INTSET_ENC_INT32 then 4 else 2);
          bytes = n * width mod 2 ^ 32
      in do {
        src \<leftarrow> mload (is_contents s) (int (from * width)) bytes;
        c \<leftarrow> mstore (is_contents s) (int (to * width)) src;
        Some (s\<lparr>is_contents := c\<rparr>) })"

definition intsetAdd :: "(nat \<Rightarrow> byte) \<Rightarrow> intset \<Rightarrow> int \<Rightarrow> (intset \<times> bool) option" where
  "intsetAdd junk s value =
     (let valenc = intsetValueEncoding_u value in
      if valenc > is_encoding s then do {
        s' \<leftarrow> intsetUpgradeAndAdd junk s value;
        Some (s', True) }
      else do {
        (found, pos) \<leftarrow> intsetSearch s value;
        if found then Some (s, False)
        else do {
          s1 \<leftarrow> intsetResize junk s ((is_length s + 1) mod 2 ^ 32);
          s2 \<leftarrow> (if pos < is_length s1 then intsetMoveTail s1 pos (pos + 1) else Some s1);
          s3 \<leftarrow> intsetSet_u s2 (int pos) value;
          Some (s3\<lparr>is_length := (is_length s3 + 1) mod 2 ^ 32\<rparr>, True) } })"

definition intsetRemove :: "(nat \<Rightarrow> byte) \<Rightarrow> intset \<Rightarrow> int \<Rightarrow> (intset \<times> bool) option" where
  "intsetRemove junk s value =
     (let valenc = intsetValueEncoding_u value in
      if valenc \<le> is_encoding s then do {
        (found, pos) \<leftarrow> intsetSearch s value;
        if found then
          (let len = is_length s in do {
             s1 \<leftarrow> (if pos < len - 1 then intsetMoveTail s (pos + 1) pos else Some s);
             s2 \<leftarrow> intsetResize junk s1 (len - 1);
             Some (s2\<lparr>is_length := len - 1\<rparr>, True) })
        else Some (s, False) }
      else Some (s, False))"

section \<open>Queries\<close>

definition intsetFind :: "intset \<Rightarrow> int \<Rightarrow> bool option" where
  "intsetFind s value =
     (if intsetValueEncoding_u value \<le> is_encoding s
      then map_option fst (intsetSearch s value) else Some False)"

text \<open>The result of \<open>rand()\<close> is the argument \<open>r\<close>; an empty set fails the assertion.\<close>

definition intsetRandom :: "nat \<Rightarrow> intset \<Rightarrow> int option" where
  "intsetRandom r s =
     (let len = is_length s in
      if len = 0 then None else intsetGet_u s (int (r mod len)))"

definition intsetGet :: "intset \<Rightarrow> nat \<Rightarrow> int option option" where
  "intsetGet s pos =
     (if pos < is_length s then map_option Some (intsetGet_u s (int pos)) else Some None)"

definition intsetLen :: "intset \<Rightarrow> nat" where
  "intsetLen s = is_length s"

definition intsetBlobLen :: "intset \<Rightarrow> nat" where
  "intsetBlobLen s = 8 + is_length s * is_encoding s"

section \<open>Validation of a serialized set\<close>

text \<open>
  The payload is read in place: the two header words and then the records. The loop stops at the
  first record that is not greater than the one before it.
\<close>

definition intset_of_blob :: "byte list \<Rightarrow> intset" where
  "intset_of_blob p =
     \<lparr>is_encoding = nat (le_val (take 4 p)), is_length = nat (le_val (take 4 (drop 4 p))),
      is_contents = drop 8 p\<rparr>"

fun intsetValidate_loop :: "intset \<Rightarrow> int \<Rightarrow> nat \<Rightarrow> nat \<Rightarrow> bool option" where
  "intsetValidate_loop s prev i 0 = Some True"
| "intsetValidate_loop s prev i (Suc n) = do {
     cur \<leftarrow> intsetGet_u s (int i);
     if cur \<le> prev then Some False else intsetValidate_loop s cur (Suc i) n }"

definition intsetValidateIntegrity :: "byte list \<Rightarrow> bool \<Rightarrow> bool option" where
  "intsetValidateIntegrity p deep =
     (let size = length p in
      if size < 8 then Some False
      else
        (let s = intset_of_blob p;
             encoding = is_encoding s;
             count = is_length s
         in if \<not> (encoding = INTSET_ENC_INT64 \<or> encoding = INTSET_ENC_INT32
                  \<or> encoding = INTSET_ENC_INT16) then Some False
            else if (8 + count * encoding) mod 2 ^ 64 \<noteq> size then Some False
            else if count = 0 then Some False
            else if \<not> deep then Some True
            else do {
              prev \<leftarrow> intsetGet_u s 0;
              intsetValidate_loop s prev 1 (count - 1) }))"

section \<open>Abstraction and invariant\<close>

definition intset_elems :: "intset \<Rightarrow> int list" where
  "intset_elems s =
     map (\<lambda>i. le_sval (take (is_encoding s) (drop (i * is_encoding s) (is_contents s))))
       [0..<is_length s]"

definition intset_inv :: "intset \<Rightarrow> bool" where
  "intset_inv s \<longleftrightarrow>
     (is_encoding s = 2 \<or> is_encoding s = 4 \<or> is_encoding s = 8) \<and>
     is_length s < 2 ^ 29 \<and>
     length (is_contents s) = is_length s * is_encoding s \<and>
     sorted_wrt (<) (intset_elems s)"

text \<open>
  The proofs work with an explicit list of elements: \<open>intset_rep s vs xs\<close> says that the array of
  \<open>s\<close> begins with the encodings of \<open>vs\<close> and goes on with the bytes \<open>xs\<close>.
\<close>

definition encode_all :: "nat \<Rightarrow> int list \<Rightarrow> byte list" where
  "encode_all e vs = concat (map (le_bytes e) vs)"

lemma length_encode_all [simp]: "length (encode_all e vs) = length vs * e"
  unfolding encode_all_def by (rule length_concat_uniform) simp

lemma encode_all_simps [simp]:
  "encode_all e [] = []"
  "encode_all e (v # vs) = le_bytes e v @ encode_all e vs"
  "encode_all e (vs @ ws) = encode_all e vs @ encode_all e ws"
  by (simp_all add: encode_all_def)

lemma take_encode_all: "take (i * e) (encode_all e vs) = encode_all e (take i vs)"
  unfolding encode_all_def by (rule take_concat_uniform) simp

lemma drop_encode_all: "drop (i * e) (encode_all e vs) = encode_all e (drop i vs)"
  unfolding encode_all_def by (rule drop_concat_uniform) simp

lemma chunk_encode_all:
  "i < length vs \<Longrightarrow> take e (drop (i * e) (encode_all e vs @ xs)) = le_bytes e (vs ! i)"
  unfolding encode_all_def by (rule chunk_concat_uniform) simp

lemma mult_Suc_le: "i < n \<Longrightarrow> i * e + e \<le> n * (e :: nat)"
  by (metis Suc_leI add.commute mult_Suc mult_le_mono1)

definition enc_ok :: "nat \<Rightarrow> bool" where
  "enc_ok e \<longleftrightarrow> e = 2 \<or> e = 4 \<or> e = 8"

definition intset_rep :: "intset \<Rightarrow> nat \<Rightarrow> int list \<Rightarrow> byte list \<Rightarrow> bool" where
  "intset_rep s e vs xs \<longleftrightarrow>
     enc_ok e \<and> is_contents s = encode_all e vs @ xs \<and> (\<forall>v\<in>set vs. int_range (8 * e) v)"

lemma enc_ok_pos: "enc_ok e \<Longrightarrow> 0 < e"
  by (auto simp: enc_ok_def)

lemma elems_rep:
  assumes "intset_rep s (is_encoding s) vs xs" "is_length s = length vs"
  shows "intset_elems s = vs"
proof (rule nth_equalityI)
  show "length (intset_elems s) = length vs"
    using assms by (simp add: intset_elems_def)
  fix i assume "i < length (intset_elems s)"
  then have i: "i < length vs" using assms by (simp add: intset_elems_def)
  let ?e = "is_encoding s"
  have "take ?e (drop (i * ?e) (is_contents s)) = le_bytes ?e (vs ! i)"
    using assms chunk_encode_all [OF i] by (simp add: intset_rep_def del: drop_append)
  then show "intset_elems s ! i = vs ! i"
    using assms i by (simp add: intset_elems_def intset_rep_def le_sval_le_bytes enc_ok_pos)
qed

lemma encode_elems:
  assumes "length c = n * e"
  shows "encode_all e (map (\<lambda>i. le_sval (take e (drop (i * e) c))) [0..<n]) = c"
  using assms
proof (induction n arbitrary: c)
  case (Suc n)
  let ?c = "take (n * e) c"
  have "take e (drop (i * e) c) = take e (drop (i * e) ?c)" if "i < n" for i
    using mult_Suc_le [OF that, of e] by (simp add: drop_take min_def)
  then have "map (\<lambda>i. le_sval (take e (drop (i * e) c))) [0..<n]
      = map (\<lambda>i. le_sval (take e (drop (i * e) ?c))) [0..<n]"
    by simp
  moreover have "encode_all e (map (\<lambda>i. le_sval (take e (drop (i * e) ?c))) [0..<n]) = ?c"
    using Suc.prems by (intro Suc.IH) simp
  moreover have "le_bytes e (le_sval (take e (drop (n * e) c))) = drop (n * e) c"
    using Suc.prems by (simp add: le_bytes_le_sval)
  ultimately show ?case
    by (metis (no_types, lifting) append_Nil2 append_take_drop_id encode_all_simps list.simps(8,9)
        map_append upt_Suc_append zero_le)
qed simp

lemma sized_rep:
  assumes e: "enc_ok (is_encoding s)" and len: "length (is_contents s) = is_length s * is_encoding s"
  shows "intset_rep s (is_encoding s) (intset_elems s) []"
proof -
  let ?e = "is_encoding s"
  have c: "encode_all ?e (intset_elems s) = is_contents s"
    unfolding intset_elems_def using len by (rule encode_elems)
  have "int_range (8 * ?e) v" if "v \<in> set (intset_elems s)" for v
  proof -
    from that obtain i where i: "i < is_length s"
      and v: "v = le_sval (take ?e (drop (i * ?e) (is_contents s)))"
      by (auto simp: intset_elems_def)
    have "length (take ?e (drop (i * ?e) (is_contents s))) = ?e"
      using mult_Suc_le [OF i, of ?e] len by simp
    then show ?thesis
      using enc_ok_pos [OF e] v le_sval_range [of "take ?e (drop (i * ?e) (is_contents s))"]
      by (metis length_greater_0_conv)
  qed
  with c e show ?thesis by (simp add: intset_rep_def)
qed

lemma inv_rep: "intset_inv s \<Longrightarrow> intset_rep s (is_encoding s) (intset_elems s) []"
  by (rule sized_rep) (auto simp: intset_inv_def enc_ok_def)

lemma rep_inv:
  assumes "intset_rep s (is_encoding s) vs []" "is_length s = length vs" "length vs < 2 ^ 29"
    "sorted_wrt (<) vs"
  shows "intset_inv s \<and> intset_elems s = vs"
  using assms elems_rep [OF assms(1,2)] by (auto simp: intset_inv_def intset_rep_def enc_ok_def)

lemma length_intset_elems [simp]: "length (intset_elems s) = is_length s"
  by (simp add: intset_elems_def)

section \<open>Element access\<close>

lemma getEncoded_eq:
  "enc_ok e \<Longrightarrow>
   intsetGetEncoded_u s pos e = map_option le_sval (mload (is_contents s) (pos * int e) e)"
  by (auto simp: intsetGetEncoded_u_def intset_encs enc_ok_def)

lemma set_eq:
  "enc_ok (is_encoding s) \<Longrightarrow>
   intsetSet_u s pos v =
     map_option (\<lambda>c. s\<lparr>is_contents := c\<rparr>)
       (mstore (is_contents s) (pos * int (is_encoding s)) (le_bytes (is_encoding s) v))"
  by (auto simp: intsetSet_u_def intset_encs enc_ok_def Let_def bind_eq_Some_conv
      split: Option.bind_splits)

lemma nat_int_mult [simp]: "nat (int i * int e) = i * e"
  by (metis nat_int of_nat_mult)

lemma getEncoded_rep:
  assumes "intset_rep s e vs xs" "i < length vs"
  shows "intsetGetEncoded_u s (int i) e = Some (vs ! i)"
proof -
  have "mload (is_contents s) (int i * int e) e = Some (le_bytes e (vs ! i))"
    using assms mult_Suc_le [OF assms(2), of e] chunk_encode_all [OF assms(2)]
    by (simp add: mload_def intset_rep_def del: drop_append)
  then show ?thesis
    using assms by (simp add: getEncoded_eq intset_rep_def le_sval_le_bytes enc_ok_pos)
qed

lemma get_inv:
  assumes "intset_inv s" "i < is_length s"
  shows "intsetGet_u s (int i) = Some (intset_elems s ! i)"
  using getEncoded_rep [OF inv_rep [OF assms(1)]] assms(2) by (simp add: intsetGet_u_def)

section \<open>Binary search\<close>

abbreviation rank :: "int \<Rightarrow> int list \<Rightarrow> nat" where
  "rank v vs \<equiv> length (takeWhile (\<lambda>x. x < v) vs)"

lemma rank_eqI:
  assumes "k \<le> length vs" "\<And>i. i < k \<Longrightarrow> vs ! i < v" "k < length vs \<Longrightarrow> v \<le> vs ! k"
  shows "rank v vs = k"
proof -
  have "takeWhile (\<lambda>x. x < v) vs = take k vs"
    using assms by (intro takeWhile_eq_take_P_nth) (auto simp: not_less)
  then show ?thesis using assms(1) by simp
qed

abbreviation midpoint :: "int \<Rightarrow> int \<Rightarrow> int" where
  "midpoint mn mx \<equiv> ((mn mod 2 ^ 32 + mx mod 2 ^ 32) mod 2 ^ 32) div 2"

lemma midpoint_bounds:
  assumes "0 \<le> mn" "mn \<le> mx" "mx < 2 ^ 31"
  shows "mn \<le> midpoint mn mx \<and> midpoint mn mx \<le> mx"
proof -
  have "mn mod 2 ^ 32 = mn" "mx mod 2 ^ 32 = mx" "(mn + mx) mod 2 ^ 32 = mn + mx"
    using assms by auto
  then have "midpoint mn mx = (mn + mx) div 2" by (simp only:)
  then show ?thesis using assms by linarith
qed

lemma strict_nth_le:
  "sorted_wrt (<) (vs :: int list) \<Longrightarrow> i \<le> j \<Longrightarrow> j < length vs \<Longrightarrow> vs ! i \<le> vs ! j"
  using sorted_wrt_nth_less [of "(<)" vs i j] by (cases "i = j") auto

lemma search_loop_stop:
  "\<not> mn \<le> mx \<Longrightarrow> intsetSearch_loop s v mn mx mid cur = Some (mn, mid, cur)"
  by (simp add: intsetSearch_loop.simps)

lemma search_loop_step:
  assumes "mn \<le> mx" "midpoint mn mx = m" "intsetGet_u s m = Some c"
  shows "intsetSearch_loop s v mn mx mid cur =
    (if v > c then intsetSearch_loop s v (m + 1) mx m c
     else if v < c then intsetSearch_loop s v mn (m - 1) m c
     else Some (mn, m, c))"
  using assms by (subst intsetSearch_loop.simps) (simp add: Let_def)

lemma search_loop_rank:
  assumes "intset_inv s" and vs: "vs = intset_elems s"
    and "0 \<le> mn" "mn \<le> mx + 1" "mx < int (length vs)" "mn \<le> mx \<or> cur \<noteq> v"
    and "\<And>i. int i < mn \<Longrightarrow> vs ! i < v"
    and "\<And>i. mx < int i \<Longrightarrow> i < length vs \<Longrightarrow> v < vs ! i"
  shows "\<exists>mn' mid' cur'. intsetSearch_loop s v mn mx mid cur = Some (mn', mid', cur') \<and>
     (if cur' = v then v \<in> set vs \<and> mid' = int (rank v vs)
      else v \<notin> set vs \<and> mn' = int (rank v vs))"
  using assms(3-)
proof (induction "nat (mx - mn + 1)" arbitrary: mn mx mid cur rule: less_induct)
  case less
  have sorted: "sorted_wrt (<) vs" and len: "length vs < 2 ^ 31" and l: "length vs = is_length s"
    using assms(1) vs by (auto simp: intset_inv_def)
  show ?case
  proof (cases "mn \<le> mx")
    case False
    have "rank v vs = nat mn"
    proof (rule rank_eqI)
      show "nat mn \<le> length vs" using less.prems(1,2,3) False by linarith
      show "vs ! i < v" if "i < nat mn" for i using less.prems(5) that by simp
      show "v \<le> vs ! nat mn" if "nat mn < length vs"
        using less.prems(6) [of "nat mn"] that False less.prems(1) by simp
    qed
    moreover have "v \<notin> set vs"
    proof
      assume "v \<in> set vs"
      then obtain i where i: "i < length vs" "v = vs ! i" by (metis in_set_conv_nth)
      have "int i < mn \<or> mx < int i" using False by linarith
      then show False using less.prems(5,6) i by blast
    qed
    ultimately show ?thesis
      using False less.prems(1,4) by (simp add: search_loop_stop)
  next
    case True
    define m where "m = midpoint mn mx"
    have m: "mn \<le> m" "m \<le> mx"
      using midpoint_bounds [of mn mx] less.prems(1,3) True len unfolding m_def by auto
    define k where "k = nat m"
    have k: "m = int k" "k < length vs" using m less.prems(1,3) by (auto simp: k_def)
    have get: "intsetGet_u s m = Some (vs ! k)"
      using get_inv [OF assms(1)] k l vs by simp
    note step = search_loop_step [OF True m_def [symmetric] get]
    have below: "vs ! i < v" if "vs ! k < v" "int i < m + 1" for i
      using strict_nth_le [OF sorted, of i k] k that by simp
    have above: "v < vs ! i" if "v < vs ! k" "m - 1 < int i" "i < length vs" for i
      using strict_nth_le [OF sorted, of k i] k that by simp
    consider (gt) "vs ! k < v" | (lt) "v < vs ! k" | (eq) "v = vs ! k" by linarith
    then show ?thesis
    proof cases
      case gt
      have "\<exists>mn' mid' cur'. intsetSearch_loop s v (m + 1) mx m (vs ! k) = Some (mn', mid', cur') \<and>
        (if cur' = v then v \<in> set vs \<and> mid' = int (rank v vs)
         else v \<notin> set vs \<and> mn' = int (rank v vs))"
        using m less.prems(1,2,3) gt below [OF gt] by (intro less.hyps less.prems(6)) auto
      with gt show ?thesis by (simp add: step)
    next
      case lt
      have "\<exists>mn' mid' cur'. intsetSearch_loop s v mn (m - 1) m (vs ! k) = Some (mn', mid', cur') \<and>
        (if cur' = v then v \<in> set vs \<and> mid' = int (rank v vs)
         else v \<notin> set vs \<and> mn' = int (rank v vs))"
        using m less.prems(1,2,3) lt above [OF lt] by (intro less.hyps less.prems(5)) auto
      with lt show ?thesis by (simp add: step)
    next
      case eq
      have "rank v vs = k"
        using eq k sorted_wrt_nth_less [OF sorted, of _ k] by (intro rank_eqI) auto
      then show ?thesis using eq k by (simp add: step)
    qed
  qed
qed

lemma intsetSearch_rank:
  assumes "intset_inv s"
  shows "intsetSearch s v = Some (v \<in> set (intset_elems s), rank v (intset_elems s))"
proof -
  let ?vs = "intset_elems s"
  have sorted: "sorted_wrt (<) ?vs" and len: "is_length s < 2 ^ 31"
    using assms by (auto simp: intset_inv_def)
  show ?thesis
  proof (cases "is_length s = 0")
    case True
    then have "?vs = []" by (metis length_0_conv length_intset_elems)
    with True show ?thesis by (simp add: intsetSearch_def)
  next
    case False
    define n where "n = is_length s - 1"
    have n: "is_length s = Suc n" using False by (simp add: n_def)
    have mx: "to_int32 (int n) = int n"
      using len n by (intro to_int32_id) (simp add: int_range_def)
    have top: "intsetGet_u s (int n) = Some (?vs ! n)"
      and bot: "intsetGet_u s 0 = Some (?vs ! 0)"
      using get_inv [OF assms, of n] get_inv [OF assms, of 0] n by auto
    have le_top: "x \<le> ?vs ! n" if "x \<in> set ?vs" for x
      using that n strict_nth_le [OF sorted, of _ n] by (auto simp: in_set_conv_nth)
    have ge_bot: "?vs ! 0 \<le> x" if "x \<in> set ?vs" for x
      using that n strict_nth_le [OF sorted, of 0] by (auto simp: in_set_conv_nth)
    consider (above) "v > ?vs ! n" | (below) "v < ?vs ! 0" | (within) "?vs ! 0 \<le> v" "v \<le> ?vs ! n"
      by linarith
    then show ?thesis
    proof cases
      case above
      have lt: "x < v" if "x \<in> set ?vs" for x using le_top [OF that] above by simp
      have "rank v ?vs = is_length s" using lt n by (intro rank_eqI) auto
      moreover have "v \<notin> set ?vs" using lt by blast
      ultimately show ?thesis
        using above by (simp add: intsetSearch_def mx top n)
    next
      case below
      have "rank v ?vs = 0" using below by (intro rank_eqI) auto
      moreover have "v \<notin> set ?vs" using ge_bot below by fastforce
      moreover have "\<not> v > ?vs ! n" using le_top [of "?vs ! 0"] below n by simp
      ultimately show ?thesis
        using below by (simp add: intsetSearch_def mx top bot n)
    next
      case within
      have "\<exists>mn' mid' cur'. intsetSearch_loop s v 0 (int n) (-1) (-1) = Some (mn', mid', cur') \<and>
       (if cur' = v then v \<in> set ?vs \<and> mid' = int (rank v ?vs)
        else v \<notin> set ?vs \<and> mn' = int (rank v ?vs))"
        by (rule search_loop_rank [OF assms refl]) (auto simp: n)
      with within show ?thesis
        by (auto simp: intsetSearch_def mx top bot mx n split: if_splits)
    qed
  qed
qed

section \<open>Insertion and removal\<close>

lemma valueEncoding_ok [simp]: "enc_ok (intsetValueEncoding_u v)"
  by (simp add: intsetValueEncoding_u_def enc_ok_def intset_encs)

lemma valueEncoding_range: "int64 v \<Longrightarrow> int_range (8 * intsetValueEncoding_u v) v"
  by (auto simp: intsetValueEncoding_u_def int_range_def intset_encs)

lemma valueEncoding_le_iff:
  "enc_ok e \<Longrightarrow> int64 v \<Longrightarrow> intsetValueEncoding_u v \<le> e \<longleftrightarrow> int_range (8 * e) v"
  by (auto simp: intsetValueEncoding_u_def int_range_def intset_encs enc_ok_def)

lemma enc_range_mono:
  "enc_ok e \<Longrightarrow> enc_ok e' \<Longrightarrow> e \<le> e' \<Longrightarrow> int_range (8 * e) v \<Longrightarrow> int_range (8 * e') v"
  by (auto simp: int_range_def enc_ok_def)

lemma out_of_range_order:
  assumes "int_range w x" "\<not> int_range w v"
  shows "v < 0 \<Longrightarrow> v < x" "0 \<le> v \<Longrightarrow> x < v"
proof -
  have "(0::int) < 2 ^ (w - 1)" by simp
  then show "v < 0 \<Longrightarrow> v < x" "0 \<le> v \<Longrightarrow> x < v"
    using assms unfolding int_range_def by linarith+
qed

lemma resize_ok:
  assumes "enc_ok (is_encoding s)" "len < 2 ^ 32"
  shows "intsetResize junk s len =
    Some (s\<lparr>is_contents := mrealloc junk (len * is_encoding s) (is_contents s)\<rparr>)"
proof -
  have "len * is_encoding s < 2 ^ 32 * 8 + 1"
    using assms by (auto simp: enc_ok_def)
  then show ?thesis by (simp add: intsetResize_def Let_def)
qed

lemma set_rep:
  assumes "enc_ok (is_encoding s)" "i * is_encoding s + is_encoding s \<le> length (is_contents s)"
  shows "intsetSet_u s (int i) v =
    Some (s\<lparr>is_contents := take (i * is_encoding s) (is_contents s) @ le_bytes (is_encoding s) v
            @ drop (i * is_encoding s + is_encoding s) (is_contents s)\<rparr>)"
  using assms by (simp add: set_eq mstore_def)

lemma moveTail_ok:
  assumes "enc_ok (is_encoding s)" "is_length s < 2 ^ 29" "from \<le> is_length s"
    and e: "e = is_encoding s" and n: "n = is_length s - from"
    and "(from + n) * e \<le> length (is_contents s)" "(to + n) * e \<le> length (is_contents s)"
  shows "intsetMoveTail s from to =
    Some (s\<lparr>is_contents := take (to * e) (is_contents s) @ take (n * e) (drop (from * e) (is_contents s))
            @ drop ((to + n) * e) (is_contents s)\<rparr>)"
proof -
  have w: "(if is_encoding s = INTSET_ENC_INT64 then 8
            else if is_encoding s = INTSET_ENC_INT32 then 4 else 2) = e"
    using assms(1) e by (auto simp: enc_ok_def intset_encs)
  have "(int (is_length s) - int from) mod 2 ^ 32 = int n"
    using assms(2,3) n by simp
  moreover have "n * e < 2 ^ 32"
    using assms(1,2) e n by (auto simp: enc_ok_def)
  ultimately show ?thesis
    using assms(6,7) by (simp add: intsetMoveTail_def w Let_def mload_def mstore_def algebra_simps)
qed

lemma rank_le_length: "rank v vs \<le> length vs"
  by (rule length_takeWhile_le)

lemma sorted_insert_rank:
  assumes "sorted_wrt (<) vs" "v \<notin> set vs"
  shows "sorted_wrt (<) (take (rank v vs) vs @ v # drop (rank v vs) vs)"
proof -
  have t: "take (rank v vs) vs = takeWhile (\<lambda>x. x < v) vs"
    by (rule takeWhile_eq_take [symmetric])
  have d: "drop (rank v vs) vs = dropWhile (\<lambda>x. x < v) vs"
    by (rule dropWhile_eq_drop [symmetric])
  have "sorted_wrt (<) (takeWhile (\<lambda>x. x < v) vs @ dropWhile (\<lambda>x. x < v) vs)"
    using assms(1) by simp
  moreover have "v < x" if "x \<in> set (dropWhile (\<lambda>x. x < v) vs)" for x
  proof (cases "dropWhile (\<lambda>x. x < v) vs")
    case (Cons y ys)
    then have "\<not> y < v" by (metis hd_dropWhile list.distinct(1) list.sel(1))
    moreover have "y \<in> set vs" using Cons by (metis list.set_intros(1) set_dropWhileD)
    ultimately have "v < y" using assms(2) by (metis linorder_neqE)
    moreover have "sorted_wrt (<) (y # ys)" using assms(1) Cons by (metis sorted_wrt_dropWhile)
    ultimately show ?thesis using that Cons by auto
  next
    case Nil
    then show ?thesis using that by (simp only: list.set empty_iff)
  qed
  moreover have "x < v" if "x \<in> set (takeWhile (\<lambda>x. x < v) vs)" for x
    using that by (auto dest: set_takeWhileD)
  ultimately show ?thesis
    unfolding t d by (simp add: sorted_wrt_append) (meson order.strict_trans)
qed

lemma set_insert_rank: "set (take k vs @ v # drop k vs) = insert v (set vs)"
  by (metis append_take_drop_id insert_is_Un list.simps(15) set_append sup_left_commute)

lemma upgrade_loop_ok:
  assumes "enc_ok e" "is_encoding s = e'" "enc_ok e'" "e \<le> e'"
    and "is_contents s = encode_all e vs @ xs" "\<forall>v\<in>set vs. int_range (8 * e) v"
    and "(length vs + p) * e' \<le> length (is_contents s)"
  shows "intsetUpgrade_loop s p e (length vs) =
    Some (s\<lparr>is_contents := take (p * e') (is_contents s) @ encode_all e' vs
            @ drop ((length vs + p) * e') (is_contents s)\<rparr>)"
  using assms(2,5-)
proof (induction vs arbitrary: s xs rule: rev_induct)
  case Nil
  then show ?case by (simp add: intset.defs)
next
  case (snoc v vs)
  let ?n = "length vs" and ?c = "is_contents s"
  have get: "intsetGetEncoded_u s (int ?n) e = Some v"
    using getEncoded_rep [of s e "vs @ [v]" xs ?n] snoc.prems assms(1)
    by (simp add: intset_rep_def)
  let ?c' = "take ((?n + p) * e') ?c @ le_bytes e' v @ drop ((?n + p) * e' + e') ?c"
  have set: "intsetSet_u s (int (?n + p)) v = Some (s\<lparr>is_contents := ?c'\<rparr>)"
    using set_rep [of s "?n + p" v] snoc.prems assms(3) by (simp add: algebra_simps)
  have le: "?n * e \<le> (?n + p) * e'" using assms(4) by (simp add: mult_le_mono)
  have len: "(?n + p) * e' + e' \<le> length ?c"
    using snoc.prems(4) by (simp add: algebra_simps)
  have "take (?n * e) ?c' = take (?n * e) ?c"
    using le len by (simp add: min_def)
  also have "\<dots> = encode_all e vs"
    using snoc.prems(2) by simp
  finally have pre: "?c' = encode_all e vs @ drop (?n * e) ?c'"
    by (metis append_take_drop_id)
  define c' where "c' = ?c'"
  let ?s = "s\<lparr>is_contents := c'\<rparr>"
  have "intsetUpgrade_loop ?s p e ?n =
    Some (?s\<lparr>is_contents := take (p * e') (is_contents ?s) @ encode_all e' vs
             @ drop ((?n + p) * e') (is_contents ?s)\<rparr>)"
  proof (rule snoc.IH)
    show "is_encoding ?s = e'" using snoc.prems(1) by simp
    show "is_contents ?s = encode_all e vs @ drop (?n * e) c'" using pre by (simp add: c'_def)
    show "\<forall>v\<in>set vs. int_range (8 * e) v" using snoc.prems(3) by simp
    show "(?n + p) * e' \<le> length (is_contents ?s)" using len by (simp add: c'_def)
  qed
  moreover have "take (p * e') c' = take (p * e') ?c"
    using len by (simp add: c'_def min_def algebra_simps)
  moreover have "drop ((?n + p) * e') c' = le_bytes e' v @ drop ((length (vs @ [v]) + p) * e') ?c"
    using len by (simp add: c'_def min_def algebra_simps)
  moreover have "intsetSet_u s (int (?n + p)) v = Some ?s" using set by (simp add: c'_def)
  ultimately show ?case using get by simp
qed

text \<open>
  The upgraded array: every element is moved and widened in place, from the last one down, and no
  element is overwritten before it is read.
\<close>

lemma upgradeAndAdd_contents:
  assumes rep: "intset_rep s (is_encoding s) vs []" and len: "length vs = is_length s"
    and e': "e' = intsetValueEncoding_u v" "is_encoding s < e'" and room: "is_length s + 1 < 2 ^ 29"
  shows "intsetUpgradeAndAdd junk s v =
    Some (s\<lparr>is_encoding := e', is_length := is_length s + 1,
            is_contents := encode_all e' (if v < 0 then v # vs else vs @ [v])\<rparr>)"
proof -
  define e where "e = is_encoding s"
  define p where "p = (if v < 0 then 1 else 0 :: nat)"
  have e: "enc_ok e" "enc_ok e'" "e \<le> e'" and c: "is_contents s = encode_all e vs"
    and range: "\<forall>x\<in>set vs. int_range (8 * e) x"
    using rep e' by (auto simp: intset_rep_def e_def)
  define s1 where "s1 = s\<lparr>is_encoding := e', is_contents :=
      mrealloc junk ((length vs + 1) * e') (is_contents s)\<rparr>"
  have h1: "is_length s1 = length vs" "is_encoding s1 = e'"
    "length (is_contents s1) = (length vs + 1) * e'"
    by (simp_all add: s1_def len)
  have resize: "intsetResize junk (s\<lparr>is_encoding := e'\<rparr>) ((is_length s + 1) mod 2 ^ 32) = Some s1"
    using resize_ok [of "s\<lparr>is_encoding := e'\<rparr>" "is_length s + 1" junk] e room
    by (simp add: s1_def len)
  have "length vs * e \<le> (length vs + 1) * e'"
    using e(3) by (intro mult_le_mono) auto
  then have c1: "is_contents s1 = encode_all e vs @ map junk [length vs * e..<(length vs + 1) * e']"
    by (simp add: s1_def mrealloc_def c)
  define s2 where "s2 = s1\<lparr>is_contents := take (p * e') (is_contents s1) @ encode_all e' vs
             @ drop ((length vs + p) * e') (is_contents s1)\<rparr>"
  have loop: "intsetUpgrade_loop s1 p e (is_length s) = Some s2"
    using upgrade_loop_ok [OF e(1) h1(2) e(2,3) c1 range, of p] h1(3)
    by (simp add: s2_def p_def len split: if_splits)
  have h2: "is_length s2 = length vs" "is_encoding s2 = e'" by (simp_all add: s2_def h1)
  define s3 where "s3 = s2\<lparr>is_contents := encode_all e' (if v < 0 then v # vs else vs @ [v])\<rparr>"
  have "(if p \<noteq> 0 then intsetSet_u s2 0 v else intsetSet_u s2 (int (is_length s2)) v) = Some s3"
    using set_rep [of s2 "if v < 0 then 0 else length vs" v] e h1(3) h2
    by (cases "v < 0") (simp_all add: s3_def p_def s2_def min_def)
  with resize loop have "intsetUpgradeAndAdd junk s v =
      Some (s3\<lparr>is_length := (is_length s3 + 1) mod 2 ^ 32\<rparr>)"
    unfolding intsetUpgradeAndAdd_def Let_def e'(1) [symmetric] e_def [symmetric] p_def [symmetric]
    by simp
  then show ?thesis
    using room len h2 by (simp add: s3_def s2_def s1_def)
qed

lemma intsetUpgradeAndAdd_ok:
  assumes inv: "intset_inv s" and v: "int64 v" and up: "is_encoding s < intsetValueEncoding_u v"
    and room: "is_length s + 1 < 2 ^ 29"
  shows "\<exists>s'. intsetUpgradeAndAdd junk s v = Some s' \<and> intset_inv s' \<and>
    is_encoding s' = intsetValueEncoding_u v \<and>
    intset_elems s' = (if v < 0 then v # intset_elems s else intset_elems s @ [v])"
proof -
  define e' where "e' = intsetValueEncoding_u v"
  define vs where "vs = intset_elems s"
  have rep: "intset_rep s (is_encoding s) vs []" using inv_rep [OF inv] by (simp add: vs_def)
  have e: "enc_ok (is_encoding s)" "enc_ok e'" "is_encoding s \<le> e'"
    and range: "\<forall>x\<in>set vs. int_range (8 * is_encoding s) x"
    using rep up by (auto simp: intset_rep_def e'_def)
  have nr: "\<not> int_range (8 * is_encoding s) v"
    using up valueEncoding_le_iff [OF e(1) v] by simp
  define ws where "ws = (if v < 0 then v # vs else vs @ [v])"
  define s' where "s' = s\<lparr>is_encoding := e', is_length := is_length s + 1,
      is_contents := encode_all e' ws\<rparr>"
  have "int_range (8 * e') v" using valueEncoding_range [OF v] by (simp add: e'_def)
  moreover have "int_range (8 * e') x" if "x \<in> set vs" for x
    using enc_range_mono [OF e] range that by blast
  ultimately have "intset_rep s' (is_encoding s') ws []"
    using e by (auto simp: ws_def s'_def intset_rep_def)
  moreover have "sorted_wrt (<) ws"
    using inv range out_of_range_order [OF _ nr]
    by (auto simp: ws_def vs_def intset_inv_def sorted_wrt_append)
  ultimately have "intset_inv s' \<and> intset_elems s' = ws"
    using room by (intro rep_inv) (auto simp: s'_def ws_def vs_def)
  moreover have "intsetUpgradeAndAdd junk s v = Some s'"
    using upgradeAndAdd_contents [OF rep _ e'_def _ room] up
    by (simp add: s'_def ws_def vs_def e'_def)
  ultimately show ?thesis by (auto simp: ws_def vs_def s'_def e'_def)
qed

lemma open_gap:
  assumes "enc_ok e" "is_encoding s = e" "is_length s = length vs" "length vs < 2 ^ 29"
    and "is_contents s = encode_all e vs @ xs" "length xs = e" "k \<le> length vs"
  shows "\<exists>c. (if k < is_length s then intsetMoveTail s k (k + 1) else Some s) =
      Some (s\<lparr>is_contents := c\<rparr>) \<and>
    length c = (length vs + 1) * e \<and> take (k * e) c = encode_all e (take k vs) \<and>
    drop (k * e + e) c = encode_all e (drop k vs)"
proof (cases "k < length vs")
  case True
  let ?c = "take ((k + 1) * e) (is_contents s) @ encode_all e (drop k vs)"
  have le: "(k + 1) * e \<le> length vs * e" using True by (intro mult_le_mono1) simp
  have n: "k + (length vs - k) = length vs" "k + 1 + (length vs - k) = length vs + 1"
    using True by simp_all
  have l: "length (is_contents s) = (length vs + 1) * e" using assms(5,6) by simp
  have "intsetMoveTail s k (k + 1) =
    Some (s\<lparr>is_contents := take ((k + 1) * e) (is_contents s)
       @ take ((length vs - k) * e) (drop (k * e) (is_contents s))
       @ drop ((k + 1 + (length vs - k)) * e) (is_contents s)\<rparr>)"
    using assms(1-4) True by (intro moveTail_ok) (simp_all only: n l, simp_all)
  moreover have "take ((length vs - k) * e) (drop (k * e) (is_contents s)) = encode_all e (drop k vs)"
    using assms(5) True by (simp add: drop_encode_all)
  moreover have "drop ((k + 1 + (length vs - k)) * e) (is_contents s) = []"
    by (simp only: n l drop_all order_refl)
  ultimately have "intsetMoveTail s k (k + 1) = Some (s\<lparr>is_contents := ?c\<rparr>)" by simp
  moreover have "take (k * e) ?c = encode_all e (take k vs)"
    using le assms(5) by (simp add: take_encode_all min_def)
  moreover have "drop (k * e + e) ?c = encode_all e (drop k vs)"
    using le l True by (simp add: min_def)
  moreover have "length ?c = (length vs + 1) * e"
    using le l True by (simp add: min_def diff_mult_distrib)
  ultimately show ?thesis using True assms(3) by auto
next
  case False
  then have "k = length vs" using assms(7) by simp
  then show ?thesis using False assms by (intro exI [of _ "is_contents s"]) auto
qed

lemma intsetAdd_ok:
  assumes inv: "intset_inv s" and v: "int64 v" and room: "is_length s + 1 < 2 ^ 29"
  defines "vs \<equiv> intset_elems s"
  shows "\<exists>s'. intsetAdd junk s v = Some (s', v \<notin> set vs) \<and> intset_inv s' \<and>
    is_encoding s' = max (is_encoding s) (intsetValueEncoding_u v) \<and>
    intset_elems s' = (if v \<in> set vs then vs else take (rank v vs) vs @ v # drop (rank v vs) vs)"
proof (cases "is_encoding s < intsetValueEncoding_u v")
  case True
  have rep: "intset_rep s (is_encoding s) vs []" using inv_rep [OF inv] by (simp add: vs_def)
  have nr: "\<not> int_range (8 * is_encoding s) v"
    using True v rep valueEncoding_le_iff [of "is_encoding s" v] by (simp add: intset_rep_def)
  have range: "\<forall>x\<in>set vs. int_range (8 * is_encoding s) x" using rep by (simp add: intset_rep_def)
  have "v \<notin> set vs" using range nr by blast
  moreover have "rank v vs = (if v < 0 then 0 else length vs)"
  proof (rule rank_eqI)
    show "vs ! i < v" if "i < (if v < 0 then 0 else length vs)" for i
      using that range out_of_range_order(2) [OF _ nr] by (auto split: if_splits)
    show "v \<le> vs ! (if v < 0 then 0 else length vs)" if "(if v < 0 then 0 else length vs) < length vs"
      using that range out_of_range_order(1) [OF _ nr] by (auto split: if_splits intro: less_imp_le)
  qed simp
  ultimately show ?thesis
    using intsetUpgradeAndAdd_ok [OF inv v True room, of junk] True
    by (auto simp: intsetAdd_def vs_def)
next
  case False
  let ?k = "rank v vs" and ?e = "is_encoding s"
  note search = intsetSearch_rank [OF inv, of v, folded vs_def]
  have rep: "intset_rep s ?e vs []" using inv_rep [OF inv] by (simp add: vs_def)
  show ?thesis
  proof (cases "v \<in> set vs")
    case True
    then show ?thesis using False inv search by (auto simp: intsetAdd_def vs_def max_def)
  next
    case new: False
    have e: "enc_ok ?e" and c: "is_contents s = encode_all ?e vs"
      and range: "\<forall>x\<in>set vs. int_range (8 * ?e) x"
      using rep by (auto simp: intset_rep_def)
    have len: "length vs = is_length s" by (simp add: vs_def)
    define s1 where "s1 = s\<lparr>is_contents := mrealloc junk ((is_length s + 1) * ?e) (is_contents s)\<rparr>"
    have resize: "intsetResize junk s ((is_length s + 1) mod 2 ^ 32) = Some s1"
      using resize_ok [of s "is_length s + 1" junk] e room by (simp add: s1_def)
    have h1: "is_length s1 = is_length s" "is_encoding s1 = ?e" by (auto simp: s1_def)
    have c1: "is_contents s1 = encode_all ?e vs @ map junk [length vs * ?e..<(length vs + 1) * ?e]"
      by (simp add: s1_def mrealloc_def c len)
    obtain c2 where gap: "(if ?k < is_length s1 then intsetMoveTail s1 ?k (?k + 1) else Some s1) =
        Some (s1\<lparr>is_contents := c2\<rparr>)"
      and c2: "length c2 = (length vs + 1) * ?e" "take (?k * ?e) c2 = encode_all ?e (take ?k vs)"
        "drop (?k * ?e + ?e) c2 = encode_all ?e (drop ?k vs)"
      using open_gap [OF e _ _ _ c1, of ?k] room len rank_le_length [of v vs]
      by (auto simp: h1)
    let ?ws = "take ?k vs @ v # drop ?k vs"
    define s3 where "s3 = s1\<lparr>is_contents := encode_all ?e ?ws\<rparr>"
    have set: "intsetSet_u (s1\<lparr>is_contents := c2\<rparr>) (int ?k) v = Some s3"
    proof -
      have "?k * ?e + ?e \<le> length c2"
        using c2(1) mult_Suc_le [of ?k "length vs + 1" ?e] rank_le_length [of v vs] by simp
      then show ?thesis
        using set_rep [of "s1\<lparr>is_contents := c2\<rparr>" ?k v] e c2 by (simp add: s3_def h1)
    qed
    have "int_range (8 * ?e) v"
      using False e v valueEncoding_le_iff [of ?e v] by simp
    then have "intset_rep s3 ?e ?ws []"
      using e range by (auto simp: intset_rep_def s3_def dest: in_set_takeD in_set_dropD)
    moreover have "sorted_wrt (<) ?ws"
      using inv new by (intro sorted_insert_rank) (auto simp: intset_inv_def vs_def)
    ultimately have "intset_inv (s3\<lparr>is_length := is_length s + 1\<rparr>) \<and>
        intset_elems (s3\<lparr>is_length := is_length s + 1\<rparr>) = ?ws"
      using room len by (intro rep_inv) (auto simp: intset_rep_def s3_def h1)
    moreover have "intsetAdd junk s v = Some (s3\<lparr>is_length := is_length s + 1\<rparr>, True)"
    proof -
      have "is_length s3 = is_length s" by (simp add: s3_def h1)
      then show ?thesis
        using False new search resize gap set room by (simp add: intsetAdd_def Let_def)
    qed
    ultimately show ?thesis
      using new False by (auto simp: s3_def h1 max_def)
  qed
qed

lemma close_gap:
  assumes "enc_ok e" "is_encoding s = e" "is_length s = length vs" "length vs < 2 ^ 29"
    and c: "is_contents s = encode_all e vs" and k: "k < length vs"
  shows "\<exists>c. (if k < is_length s - 1 then intsetMoveTail s (k + 1) k else Some s) =
      Some (s\<lparr>is_contents := c\<rparr>) \<and> length c = length vs * e \<and>
    take ((length vs - 1) * e) c = encode_all e (take k vs @ drop (k + 1) vs)"
proof (cases "k < length vs - 1")
  case True
  let ?ws = "take k vs @ drop (k + 1) vs"
  define n where "n = length vs - (k + 1)"
  have n: "k + 1 + n = length vs" "k + n = length vs - 1" using k by (simp_all add: n_def)
  have "intsetMoveTail s (k + 1) k =
    Some (s\<lparr>is_contents := take (k * e) (is_contents s)
       @ take (n * e) (drop ((k + 1) * e) (is_contents s)) @ drop ((k + n) * e) (is_contents s)\<rparr>)"
  proof (rule moveTail_ok)
    show "(k + 1 + n) * e \<le> length (is_contents s)" by (simp only: n c length_encode_all)
    show "(k + n) * e \<le> length (is_contents s)"
      by (simp only: n c length_encode_all) (rule mult_le_mono1, simp)
  qed (use assms(1-4) k in \<open>simp_all add: n_def\<close>)
  moreover have "take (n * e) (drop ((k + 1) * e) (is_contents s)) = encode_all e (drop (k + 1) vs)"
    by (simp only: c drop_encode_all take_encode_all) (simp add: n_def)
  ultimately have move: "intsetMoveTail s (k + 1) k =
      Some (s\<lparr>is_contents := encode_all e ?ws @ drop ((length vs - 1) * e) (encode_all e vs)\<rparr>)"
    by (simp add: c take_encode_all n(2))
  have "length ?ws = length vs - 1" using k by simp
  moreover have "length (encode_all e ?ws @ drop ((length vs - 1) * e) (encode_all e vs)) = length vs * e"
    using calculation mult_le_mono1 [OF diff_le_self, of "length vs" 1 e]
    by (simp only: length_append length_encode_all length_drop)
  moreover have "take ((length vs - 1) * e)
      (encode_all e ?ws @ drop ((length vs - 1) * e) (encode_all e vs)) = encode_all e ?ws"
    using length_encode_all [of e ?ws] calculation(1) by (metis append_eq_conv_conj)
  ultimately show ?thesis
    using True assms(3) move by metis
next
  case False
  then have "k = length vs - 1" using k by simp
  with False assms show ?thesis
    by (intro exI [of _ "is_contents s"]) (auto simp: take_encode_all)
qed

lemma intsetRemove_ok:
  assumes inv: "intset_inv s" and v: "int64 v"
  defines "vs \<equiv> intset_elems s"
  shows "\<exists>s'. intsetRemove junk s v = Some (s', v \<in> set vs) \<and> intset_inv s' \<and>
    is_encoding s' = is_encoding s \<and> intset_elems s' = filter (\<lambda>x. x \<noteq> v) vs"
proof (cases "v \<in> set vs")
  case False
  then have "filter (\<lambda>x. x \<noteq> v) vs = vs" by (induction vs) auto
  then show ?thesis
    using False inv intsetSearch_rank [OF inv, of v] by (auto simp: intsetRemove_def vs_def)
next
  case True
  let ?k = "rank v vs" and ?e = "is_encoding s"
  have rep: "intset_rep s ?e vs []" using inv_rep [OF inv] by (simp add: vs_def)
  have e: "enc_ok ?e" and c: "is_contents s = encode_all ?e vs"
    and range: "\<forall>x\<in>set vs. int_range (8 * ?e) x"
    using rep by (auto simp: intset_rep_def)
  have len: "length vs = is_length s" and sorted: "sorted_wrt (<) vs"
    and small: "length vs < 2 ^ 29"
    using inv by (auto simp: vs_def intset_inv_def)
  obtain k where k: "k < length vs" "vs ! k = v" using True by (metis in_set_conv_nth)
  have rk: "?k = k"
    using k sorted_wrt_nth_less [OF sorted, of _ k] by (intro rank_eqI) auto
  let ?ws = "take k vs @ drop (k + 1) vs"
  have split: "vs = take k vs @ v # drop (k + 1) vs"
    using k by (metis Suc_eq_plus1 id_take_nth_drop)
  obtain c' where gap: "(if k < is_length s - 1 then intsetMoveTail s (k + 1) k else Some s) =
      Some (s\<lparr>is_contents := c'\<rparr>)" and c': "length c' = length vs * ?e"
      "take ((length vs - 1) * ?e) c' = encode_all ?e ?ws"
    using close_gap [OF e refl len [symmetric] small c k(1)] by blast
  define s' where "s' = s\<lparr>is_contents := encode_all ?e ?ws, is_length := is_length s - 1\<rparr>"
  have "intsetResize junk (s\<lparr>is_contents := c'\<rparr>) (is_length s - 1) =
      Some (s\<lparr>is_contents := encode_all ?e ?ws\<rparr>)"
    using resize_ok [of "s\<lparr>is_contents := c'\<rparr>" "is_length s - 1" junk] e small len c'
    by (simp add: mrealloc_shrink)
  moreover have "intsetValueEncoding_u v \<le> ?e"
    using True range valueEncoding_le_iff [OF e v] by blast
  ultimately have "intsetRemove junk s v = Some (s', True)"
    using gap intsetSearch_rank [OF inv, of v, folded vs_def] True
    by (simp add: intsetRemove_def rk s'_def Let_def)
  moreover have "intset_inv s' \<and> intset_elems s' = ?ws"
  proof (rule rep_inv)
    show "intset_rep s' (is_encoding s') ?ws []"
      using e range by (auto simp: s'_def intset_rep_def dest: in_set_takeD in_set_dropD)
    show "sorted_wrt (<) ?ws" using sorted by (subst (asm) split) (simp add: sorted_wrt_append)
  qed (use k len small in \<open>simp_all add: s'_def\<close>)
  moreover have "filter (\<lambda>x. x \<noteq> v) vs = ?ws"
  proof -
    have "v \<notin> set ?ws" using sorted by (subst (asm) split) (auto simp: sorted_wrt_append)
    then have "filter (\<lambda>x. x \<noteq> v) (take k vs) = take k vs"
      "filter (\<lambda>x. x \<noteq> v) (drop (k + 1) vs) = drop (k + 1) vs"
      by (auto simp: filter_id_conv)
    then show ?thesis using arg_cong [OF split, of "filter (\<lambda>x. x \<noteq> v)"] by simp
  qed
  ultimately show ?thesis using True by (auto simp: s'_def)
qed

section \<open>Queries and validation\<close>

lemma intsetFind_ok:
  assumes "intset_inv s" "int64 v"
  shows "intsetFind s v = Some (v \<in> set (intset_elems s))"
proof -
  have rep: "intset_rep s (is_encoding s) (intset_elems s) []" by (rule inv_rep [OF assms(1)])
  then have "intsetValueEncoding_u v \<le> is_encoding s" if "v \<in> set (intset_elems s)"
    using that assms(2) valueEncoding_le_iff by (auto simp: intset_rep_def)
  then show ?thesis by (auto simp: intsetFind_def intsetSearch_rank [OF assms(1)])
qed

lemma validate_loop_ok:
  assumes "enc_ok (is_encoding s)" "length (is_contents s) = is_length s * is_encoding s"
    and "Suc i + n = is_length s"
  shows "intsetValidate_loop s (intset_elems s ! i) (Suc i) n =
    Some (sorted_wrt (<) (drop i (intset_elems s)))"
  using assms(3)
proof (induction n arbitrary: i)
  case 0
  then have "drop i (intset_elems s) = [intset_elems s ! i]"
    using Cons_nth_drop_Suc [of i "intset_elems s"] by simp
  then show ?case by simp
next
  case (Suc n)
  let ?vs = "intset_elems s"
  have get: "intsetGet_u s (int (Suc i)) = Some (?vs ! Suc i)"
    using getEncoded_rep [OF sized_rep [OF assms(1,2)], of "Suc i"] Suc.prems
    by (simp add: intsetGet_u_def)
  have "drop i ?vs = ?vs ! i # ?vs ! Suc i # drop (Suc (Suc i)) ?vs"
    using Suc.prems Cons_nth_drop_Suc [of i ?vs] Cons_nth_drop_Suc [of "Suc i" ?vs] by simp
  moreover have "drop (Suc i) ?vs = ?vs ! Suc i # drop (Suc (Suc i)) ?vs"
    using Suc.prems Cons_nth_drop_Suc [of "Suc i" ?vs] by simp
  ultimately show ?case
    using Suc.IH [of "Suc i"] Suc.prems get by (auto simp: order_le_less_trans not_less)
qed

lemma validateIntegrity_spec:
  "intsetValidateIntegrity p deep =
    (let s = intset_of_blob p in
     Some (8 \<le> length p \<and> enc_ok (is_encoding s) \<and> length p = intsetBlobLen s \<and>
       0 < is_length s \<and> (deep \<longrightarrow> sorted_wrt (<) (intset_elems s))))"
proof -
  define s where "s = intset_of_blob p"
  have "le_val (take 4 (drop 4 p)) < 256 ^ length (take 4 (drop 4 p))"
    using le_val_bounds by blast
  also have "\<dots> \<le> 256 ^ 4" by (rule power_increasing) auto
  finally have "le_val (take 4 (drop 4 p)) < 2 ^ 32" by simp
  then have count: "is_length s < 2 ^ 32" by (simp add: s_def intset_of_blob_def)
  have contents: "is_contents s = drop 8 p" by (simp add: s_def intset_of_blob_def)
  show ?thesis
  proof (cases "8 \<le> length p \<and> enc_ok (is_encoding s) \<and> length p = intsetBlobLen s \<and> 0 < is_length s")
    case True
    have c: "length (is_contents s) = is_length s * is_encoding s"
      using True contents by (simp add: intsetBlobLen_def)
    have "8 + is_length s * is_encoding s < 2 ^ 64"
      using True count by (auto simp: enc_ok_def)
    moreover have "intsetGet_u s 0 = Some (intset_elems s ! 0)"
      using getEncoded_rep [OF sized_rep [OF _ c], of 0] True by (simp add: intsetGet_u_def)
    moreover have "intsetValidate_loop s (intset_elems s ! 0) 1 (is_length s - 1) =
        Some (sorted_wrt (<) (intset_elems s))"
      using validate_loop_ok [OF _ c, of 0 "is_length s - 1"] True by simp
    ultimately show ?thesis
      using True unfolding s_def [symmetric]
      by (auto simp: intsetValidateIntegrity_def s_def [symmetric] Let_def intsetBlobLen_def
          enc_ok_def intset_encs)
  next
    case False
    have "8 + is_length s * is_encoding s < 2 ^ 64" if "enc_ok (is_encoding s)"
      using that count by (auto simp: enc_ok_def)
    with False show ?thesis unfolding s_def [symmetric]
      by (auto simp: intsetValidateIntegrity_def s_def [symmetric] Let_def intsetBlobLen_def
          enc_ok_def intset_encs)
  qed
qed

section \<open>The contract of a set representation\<close>

abbreviation intset_set :: "intset \<Rightarrow> int set" where
  "intset_set s \<equiv> set (intset_elems s)"

definition intset_room :: "intset \<Rightarrow> nat \<Rightarrow> bool" where
  "intset_room s n \<longleftrightarrow> is_length s + n < 2 ^ 29"

lemma intset_inv_distinct: "intset_inv s \<Longrightarrow> distinct (intset_elems s)"
  by (auto simp: intset_inv_def strict_sorted_iff)

lemma intset_elems_same: "intset_elems s = vs \<Longrightarrow> is_length s = length vs"
  by (metis length_intset_elems)

interpretation intset_impl: set_impl intset_inv intset_set int64 intset_room
  "intsetAdd junk" "intsetRemove junk" "\<lambda>s v. map_option (\<lambda>b. (s, b)) (intsetFind s v)" intsetLen
proof unfold_locales
  fix s v n
  assume inv: "intset_inv s"
  show "intsetLen s = card (intset_set s)"
    using intset_inv_distinct [OF inv] by (simp add: intsetLen_def distinct_card)
  assume v: "int64 v"
  let ?vs = "intset_elems s"
  show "\<exists>s'. map_option (\<lambda>b. (s, b)) (intsetFind s v) = Some (s', v \<in> set ?vs) \<and>
      intset_inv s' \<and> intset_set s' = set ?vs"
    using intsetFind_ok [OF inv v] inv by simp
  show "\<exists>s'. intsetRemove junk s v = Some (s', v \<in> set ?vs) \<and> intset_inv s' \<and>
      intset_set s' = set ?vs - {v}"
    using intsetRemove_ok [OF inv v, of junk] by auto
  assume room: "intset_room s (Suc n)"
  obtain s' where s': "intsetAdd junk s v = Some (s', v \<notin> set ?vs)" "intset_inv s'"
    "intset_elems s' = (if v \<in> set ?vs then ?vs else take (rank v ?vs) ?vs @ v # drop (rank v ?vs) ?vs)"
    using intsetAdd_ok [OF inv v, of junk] room by (auto simp: intset_room_def)
  have "intset_set s' = insert v (set ?vs)"
    unfolding s'(3) by (simp only: set_insert_rank split: if_split) auto
  moreover have "is_length s' \<le> is_length s + 1"
    using rank_le_length [of v ?vs] by (auto simp: intset_elems_same [OF s'(3)])
  ultimately show "\<exists>s'. intsetAdd junk s v = Some (s', v \<notin> set ?vs) \<and> intset_inv s' \<and>
      intset_set s' = insert v (set ?vs) \<and> intset_room s' n"
    using s' room by (auto simp: intset_room_def)
qed simp

section \<open>Properties\<close>

text \<open>A small set used by the witnesses: the elements 5 and 7 in two bytes each.\<close>

definition intset_example :: intset where
  "intset_example = \<lparr>is_encoding = 2, is_length = 2, is_contents = [5, 0, 7, 0]\<rparr>"

lemma intset_example_elems: "intset_elems intset_example = [5, 7]"
  by (simp add: intset_elems_def intset_example_def le_sval_def upt_conv_Cons)

lemma intset_example_inv: "intset_inv intset_example"
  by (simp add: intset_inv_def intset_example_elems) (simp add: intset_example_def)

text \<open>
  C8. Adding a 64-bit value to a well-formed integer set returns a well-formed set that holds
  exactly the old elements and the value, reports success exactly when the value was new, and
  stores elements with the smallest width that fits the old elements and the value. In particular
  the search, the in-place upgrade and the overlapping move stay inside the allocation, whatever
  bytes the reallocation leaves in the new part.
\<close>

theorem intsetAdd_correct:
  assumes "intset_inv s" "int64 v" "is_length s + 1 < 2 ^ 29"
  shows "\<exists>s'. intsetAdd junk s v = Some (s', v \<notin> set (intset_elems s)) \<and> intset_inv s' \<and>
    set (intset_elems s') = insert v (set (intset_elems s)) \<and>
    is_encoding s' = max (is_encoding s) (intsetValueEncoding_u v)"
proof -
  let ?vs = "intset_elems s"
  obtain s' where s': "intsetAdd junk s v = Some (s', v \<notin> set ?vs)" "intset_inv s'"
    "is_encoding s' = max (is_encoding s) (intsetValueEncoding_u v)"
    "intset_elems s' = (if v \<in> set ?vs then ?vs else take (rank v ?vs) ?vs @ v # drop (rank v ?vs) ?vs)"
    using intsetAdd_ok [OF assms, of junk] by blast
  have "set (intset_elems s') = insert v (set ?vs)"
    unfolding s'(4) by (simp only: set_insert_rank split: if_split) auto
  with s' show ?thesis by blast
qed

theorem intsetAdd_correct_witness:
  "\<exists>s'. intsetAdd (\<lambda>_. 0) intset_example 70000 = Some (s', True) \<and> intset_inv s' \<and>
    set (intset_elems s') = {5, 7, 70000} \<and> is_encoding s' = 4"
proof -
  have "int64 70000" by (simp add: int_range_def)
  moreover have "is_length intset_example + 1 < 2 ^ 29" by (simp add: intset_example_def)
  ultimately show ?thesis
    using intsetAdd_correct [OF intset_example_inv, of 70000 "\<lambda>_. 0"]
    by (simp add: intset_example_elems insert_commute)
      (simp add: intset_example_def intsetValueEncoding_u_def intset_encs)
qed

text \<open>
  C9. Removing a value returns a well-formed set without it and with all other elements in the
  same order, and reports success exactly when the value was present. The element width never
  shrinks.
\<close>

theorem intsetRemove_correct:
  assumes "intset_inv s" "int64 v"
  shows "\<exists>s'. intsetRemove junk s v = Some (s', v \<in> set (intset_elems s)) \<and> intset_inv s' \<and>
    intset_elems s' = filter (\<lambda>x. x \<noteq> v) (intset_elems s) \<and> is_encoding s' = is_encoding s"
  using intsetRemove_ok [OF assms, of junk] by blast

theorem intsetRemove_correct_witness:
  "\<exists>s'. intsetRemove (\<lambda>_. 0) intset_example 5 = Some (s', True) \<and> intset_inv s' \<and>
    intset_elems s' = [7] \<and> is_encoding s' = is_encoding intset_example"
  using intsetRemove_correct [OF intset_example_inv, of 5 "\<lambda>_. 0"]
  by (simp add: intset_example_elems int_range_def)

text \<open>
  C24. The binary search terminates and returns, on every well-formed set, whether the value is
  present and the number of elements smaller than it: its index when it is present, the position
  at which it has to be inserted when it is not.
\<close>

theorem intsetSearch_correct:
  assumes "intset_inv s"
  shows "intsetSearch s v =
    Some (v \<in> set (intset_elems s), length (filter (\<lambda>x. x < v) (intset_elems s)))"
proof -
  have "takeWhile (\<lambda>x. x < v) vs = filter (\<lambda>x. x < v) vs" if "sorted_wrt (<) vs" for vs :: "int list"
    using that
  proof (induction vs)
    case (Cons x vs)
    then have "filter (\<lambda>y. y < v) vs = []" if "\<not> x < v"
      using that by (simp add: filter_empty_conv) (meson order.strict_trans)
    with Cons show ?case by auto
  qed simp
  then show ?thesis
    using assms intsetSearch_rank [OF assms] by (simp add: intset_inv_def)
qed

theorem intsetSearch_correct_witness: "intsetSearch intset_example 6 = Some (False, 1)"
  using intsetSearch_correct [OF intset_example_inv, of 6] by (simp add: intset_example_elems)



lemma search_below:
  assumes "intset_rep s (is_encoding s) (intset_elems s) []" "0 < is_length s" "is_length s \<le> 2 ^ 31"
    and "v < intset_elems s ! 0" "intset_elems s ! 0 \<le> intset_elems s ! (is_length s - 1)"
  shows "intsetSearch s v = Some (False, 0)"
proof -
  have "intsetGet_u s (int i) = Some (intset_elems s ! i)" if "i < is_length s" for i
    using getEncoded_rep [OF assms(1), of i] that by (simp add: intsetGet_u_def)
  from this [of 0] this [of "is_length s - 1"]
  have "intsetGet_u s 0 = Some (intset_elems s ! 0)"
    "intsetGet_u s (int (is_length s) - 1) = Some (intset_elems s ! (is_length s - 1))"
    using assms(2) by (simp_all add: of_nat_diff)
  moreover have "to_int32 (int (is_length s) - 1) = int (is_length s) - 1"
    using assms(2,3) by (intro to_int32_id) (auto simp: int_range_def)
  ultimately show ?thesis using assms(2,4,5) by (simp add: intsetSearch_def)
qed

lemma moveTail_wraps:
  assumes "is_encoding s = 8" "is_length s = 2 ^ 29" "8 \<le> length (is_contents s)"
  shows "intsetMoveTail s 0 1 = Some s"
  using assms by (simp add: intsetMoveTail_def intset_encs mload_def mstore_def)

text \<open>
  C30. The number of bytes to move is a 32-bit product, although \<open>setTypeAdd\<close> lets a set grow to
  \<open>2 ^ 30\<close> elements: in a set of \<open>2 ^ 29\<close> eight-byte elements an insertion at the front moves
  nothing. The new value overwrites the smallest element, which is lost, while the call reports
  success.
\<close>

theorem intsetAdd_move_wraps:
  assumes "is_encoding s = 8" "is_length s = 2 ^ 29" "length (is_contents s) = is_length s * 8"
    and "sorted_wrt (<) (intset_elems s)" "int64 v" "v < intset_elems s ! 0"
  shows "\<exists>s'. intsetAdd junk s v = Some (s', True) \<and> is_length s' = is_length s + 1 \<and>
    take (is_length s) (intset_elems s') = v # tl (intset_elems s)"
proof -
  define N where "N = is_length s"
  let ?vs = "intset_elems s"
  have e: "enc_ok 8" and len: "length ?vs = N" "is_length s = N" "0 < N" "N < 2 ^ 31"
    using assms(2) by (simp_all add: enc_ok_def N_def)
  have rep: "intset_rep s 8 ?vs []" using sized_rep [of s] assms(1,3) e by simp
  have vs: "?vs = ?vs ! 0 # tl ?vs" using len by (cases ?vs) auto
  have search: "intsetSearch s v = Some (False, 0)"
    using rep assms(1,6) len strict_nth_le [OF assms(4), of 0 "N - 1"]
    by (intro search_below) auto
  define J where "J = map junk [N * 8..<(N + 1) * 8]"
  define s1 where "s1 = s\<lparr>is_contents := encode_all 8 ?vs @ J\<rparr>"
  have resize: "intsetResize junk s ((is_length s + 1) mod 2 ^ 32) = Some s1"
    using resize_ok [of s "N + 1" junk] rep assms(1) e len
    by (simp add: s1_def J_def mrealloc_def intset_rep_def)
  have h1: "is_encoding s1 = 8" "is_length s1 = N" "length (is_contents s1) = (N + 1) * 8"
    by (simp_all add: s1_def J_def assms(1) len)
  then have move: "intsetMoveTail s1 0 1 = Some s1"
    using assms(2) len(2) by (intro moveTail_wraps) auto
  define ws where "ws = v # tl ?vs @ [le_sval J]"
  have J: "length J = 8" by (simp add: J_def)
  have "drop 8 (encode_all 8 ?vs) = encode_all 8 (tl ?vs)"
    by (subst vs) simp
  then have set: "intsetSet_u s1 (int 0) v = Some (s1\<lparr>is_contents := encode_all 8 ws\<rparr>)"
    using set_rep [of s1 0 v] h1 e J len(1,3)
    by (simp add: le_bytes_le_sval ws_def) (simp add: s1_def)
  let ?s' = "s1\<lparr>is_contents := encode_all 8 ws, is_length := N + 1\<rparr>"
  have add: "intsetAdd junk s v = Some (?s', True)"
    using search resize move set assms(1) h1 len
    by (simp add: intsetAdd_def intsetValueEncoding_u_def intset_encs Let_def)
  have "int64 (le_sval J)" using le_sval_range [of J] J by (cases J) auto
  moreover have "int64 x" if "x \<in> set (tl ?vs)" for x
    using that rep by (cases ?vs) (auto simp: intset_rep_def)
  ultimately have "intset_rep ?s' (is_encoding ?s') ws []"
    using e assms(5) by (auto simp: intset_rep_def h1 ws_def)
  then have "intset_elems ?s' = ws"
    using len by (intro elems_rep) (auto simp: ws_def)
  moreover have "take N ws = v # tl ?vs"
    using len unfolding ws_def by (metis append_Cons append_eq_conv_conj length_Cons Suc_pred length_tl One_nat_def)
  ultimately show ?thesis using add len(2) by auto
qed

theorem intsetAdd_move_wraps_witness:
  "\<exists>s s'. is_length s = 2 ^ 29 \<and> hd (intset_elems s) = 0 \<and>
    intsetAdd (\<lambda>_. 0) s (-1) = Some (s', True) \<and> take (is_length s) (intset_elems s') = -1 # tl (intset_elems s)"
proof -
  define N :: nat where "N = 2 ^ 29"
  define s where "s = \<lparr>is_encoding = 8, is_length = N, is_contents = encode_all 8 (map int [0..<N])\<rparr>"
  have "intset_rep s 8 (map int [0..<N]) []"
    by (auto simp: intset_rep_def s_def enc_ok_def int_range_def N_def)
  then have el: "intset_elems s = map int [0..<N]"
    by (intro elems_rep) (auto simp: s_def)
  have N: "0 < N" by (simp add: N_def)
  have "\<exists>s'. intsetAdd (\<lambda>_. 0) s (-1) = Some (s', True) \<and> is_length s' = is_length s + 1 \<and>
    take (is_length s) (intset_elems s') = -1 # tl (intset_elems s)"
  proof (rule intsetAdd_move_wraps)
    show "is_length s = 2 ^ 29" by (simp add: s_def N_def)
    show "sorted_wrt (<) (intset_elems s)" by (simp add: el sorted_wrt_map)
    show "-1 < intset_elems s ! 0" using N by (simp add: el)
  qed (simp_all add: s_def int_range_def)
  moreover have "hd (intset_elems s) = 0" using N by (simp add: el hd_map)
  moreover have "is_length s = 2 ^ 29" by (simp add: s_def N_def)
  ultimately show ?thesis by blast
qed

end
