(* ===== verification/Dict.thy ===== *)
theory Dict
  imports Set_Interface "HOL-Library.Multiset"
begin

text \<open>
  Hash tables with incremental rehashing (\<open>dict.c\<close>, \<open>dict.h\<close>). A dictionary has two tables; while
  it is being resized the entries move bucket by bucket from the first to the second, a step at
  every operation. Chains are singly linked and owned by their bucket, so a chain is the list of
  its entries, the head first; \<open>table == NULL\<close> is the empty table. A reference to an entry is the
  table, the bucket and the position in the chain.

  The callbacks of \<open>dictType\<close> are the fields of a record; the destructors, which only release
  memory, and \<open>privdata\<close>, which is only handed to the callbacks, have no counterpart. The value
  field of an entry that \<open>zmalloc\<close> returned is indeterminate: it is the argument \<open>junk\<close>. The flag
  \<open>dict_can_resize\<close> is the argument \<open>can_resize\<close>. Sizes and counters are natural numbers, with
  the overflow tests of the code written out modulo \<open>2 ^ 64\<close>.
\<close>

section \<open>The data structure\<close>

record ('k, 'v) dictEntry =
  de_key :: 'k
  de_val :: 'v

record ('k, 'v) dictType =
  hashFunction :: "'k \<Rightarrow> u64"
  keyDup :: "('k \<Rightarrow> 'k) option"
  valDup :: "('v \<Rightarrow> 'v) option"
  keyCompare :: "('k \<Rightarrow> 'k \<Rightarrow> bool) option"
  expandAllowed :: "(nat \<Rightarrow> nat \<times> nat \<Rightarrow> bool) option"

record ('k, 'v) dictht =
  ht_table :: "('k, 'v) dictEntry list list"
  ht_size :: nat
  ht_sizemask :: u64
  ht_used :: nat

record ('k, 'v) dict =
  ht0 :: "('k, 'v) dictht"
  ht1 :: "('k, 'v) dictht"
  rehashidx :: int
  pauserehash :: int

type_synonym dictRef = "nat \<times> nat \<times> nat"

definition DICT_HT_INITIAL_SIZE :: nat where "DICT_HT_INITIAL_SIZE = 4"
definition dict_force_resize_ratio :: nat where "dict_force_resize_ratio = 5"

definition dictCompareKeys :: "('k, 'v) dictType \<Rightarrow> 'k \<Rightarrow> 'k \<Rightarrow> bool" where
  "dictCompareKeys t key1 key2 =
     (case keyCompare t of Some cmp \<Rightarrow> cmp key1 key2 | None \<Rightarrow> key1 = key2)"

definition key_matches :: "('k, 'v) dictType \<Rightarrow> 'k \<Rightarrow> ('k, 'v) dictEntry \<Rightarrow> bool" where
  "key_matches t key he \<longleftrightarrow> key = de_key he \<or> dictCompareKeys t key (de_key he)"

definition dictSetVal :: "('k, 'v) dictType \<Rightarrow> ('k, 'v) dictEntry \<Rightarrow> 'v \<Rightarrow> ('k, 'v) dictEntry" where
  "dictSetVal t entry v = entry\<lparr>de_val := (case valDup t of Some dup \<Rightarrow> dup v | None \<Rightarrow> v)\<rparr>"

definition dictSetKey :: "('k, 'v) dictType \<Rightarrow> ('k, 'v) dictEntry \<Rightarrow> 'k \<Rightarrow> ('k, 'v) dictEntry" where
  "dictSetKey t entry k = entry\<lparr>de_key := (case keyDup t of Some dup \<Rightarrow> dup k | None \<Rightarrow> k)\<rparr>"

definition dictSlots :: "('k, 'v) dict \<Rightarrow> nat" where
  "dictSlots d = ht_size (ht0 d) + ht_size (ht1 d)"

definition dictSize :: "('k, 'v) dict \<Rightarrow> nat" where
  "dictSize d = ht_used (ht0 d) + ht_used (ht1 d)"

definition dictIsRehashing :: "('k, 'v) dict \<Rightarrow> bool" where
  "dictIsRehashing d \<longleftrightarrow> rehashidx d \<noteq> -1"

definition dictPauseRehashing :: "('k, 'v) dict \<Rightarrow> ('k, 'v) dict" where
  "dictPauseRehashing d = d\<lparr>pauserehash := pauserehash d + 1\<rparr>"

definition dictResumeRehashing :: "('k, 'v) dict \<Rightarrow> ('k, 'v) dict" where
  "dictResumeRehashing d = d\<lparr>pauserehash := pauserehash d - 1\<rparr>"

text \<open>Selecting \<open>d->ht[table]\<close>, reading a bucket and writing it back.\<close>

definition dict_ht :: "('k, 'v) dict \<Rightarrow> nat \<Rightarrow> ('k, 'v) dictht" where
  "dict_ht d table = (if table = 0 then ht0 d else ht1 d)"

definition dict_ht_update ::
  "nat \<Rightarrow> (('k, 'v) dictht \<Rightarrow> ('k, 'v) dictht) \<Rightarrow> ('k, 'v) dict \<Rightarrow> ('k, 'v) dict" where
  "dict_ht_update table f d =
     (if table = 0 then d\<lparr>ht0 := f (ht0 d)\<rparr> else d\<lparr>ht1 := f (ht1 d)\<rparr>)"

definition bucket :: "('k, 'v) dictht \<Rightarrow> nat \<Rightarrow> ('k, 'v) dictEntry list option" where
  "bucket ht i = (if i < length (ht_table ht) then Some (ht_table ht ! i) else None)"

definition ht_index :: "u64 \<Rightarrow> ('k, 'v) dictht \<Rightarrow> nat" where
  "ht_index h ht = unat (h AND ht_sizemask ht)"

section \<open>Creation and resizing\<close>

definition dictReset_u :: "('k, 'v) dictht" where
  "dictReset_u = \<lparr>ht_table = [], ht_size = 0, ht_sizemask = 0, ht_used = 0\<rparr>"

definition dictInit_u :: "('k, 'v) dict" where
  "dictInit_u = \<lparr>ht0 = dictReset_u, ht1 = dictReset_u, rehashidx = -1, pauserehash = 0\<rparr>"

definition dictCreate :: "('k, 'v) dict" where
  "dictCreate = dictInit_u"

text \<open>\<open>LONG_MAX\<close> is \<open>2 ^ 63 - 1\<close>.\<close>

partial_function (option) dictNextPower_loop :: "nat \<Rightarrow> nat \<Rightarrow> nat option" where
  [code]: "dictNextPower_loop sz i =
     (if i \<ge> sz then Some i else dictNextPower_loop sz ((i * 2) mod 2 ^ 64))"

definition dictNextPower_u :: "nat \<Rightarrow> nat option" where
  "dictNextPower_u sz =
     (if sz \<ge> 2 ^ 63 - 1 then Some (2 ^ 63)
      else dictNextPower_loop sz DICT_HT_INITIAL_SIZE)"

text \<open>
  The last argument is \<open>None\<close> for \<open>dictExpand\<close> (an allocation failure aborts the server) and
  \<open>Some alloc\<close> for \<open>dictTryExpand\<close>, where \<open>alloc n\<close> says whether \<open>n\<close> bytes can be allocated.
  The results are the dictionary, whether the code is \<open>DICT_OK\<close>, and \<open>malloc_failed\<close>.
\<close>

definition dictExpand_u ::
  "('k, 'v) dict \<Rightarrow> nat \<Rightarrow> (nat \<Rightarrow> bool) option \<Rightarrow> (('k, 'v) dict \<times> bool \<times> bool) option" where
  "dictExpand_u d sz malloc =
     (if dictIsRehashing d \<or> ht_used (ht0 d) > sz then Some (d, False, False)
      else do {
        realsize \<leftarrow> dictNextPower_u sz;
        if realsize < sz \<or> realsize * 8 mod 2 ^ 64 < realsize then Some (d, False, False)
        else if realsize = ht_size (ht0 d) then Some (d, False, False)
        else if (case malloc of Some alloc \<Rightarrow> \<not> alloc (realsize * 8) | None \<Rightarrow> False)
        then Some (d, False, True)
        else
          (let n = \<lparr>ht_table = replicate realsize [], ht_size = realsize,
                    ht_sizemask = of_nat (realsize - 1), ht_used = 0\<rparr>
           in if ht_table (ht0 d) = [] then Some (d\<lparr>ht0 := n\<rparr>, True, False)
              else Some (d\<lparr>ht1 := n, rehashidx := 0\<rparr>, True, False)) })"

definition dictExpand :: "('k, 'v) dict \<Rightarrow> nat \<Rightarrow> (('k, 'v) dict \<times> bool) option" where
  "dictExpand d sz = map_option (\<lambda>(d', ok, _). (d', ok)) (dictExpand_u d sz None)"

definition dictTryExpand ::
  "(nat \<Rightarrow> bool) \<Rightarrow> ('k, 'v) dict \<Rightarrow> nat \<Rightarrow> (('k, 'v) dict \<times> bool) option" where
  "dictTryExpand alloc d sz =
     map_option (\<lambda>(d', _, malloc_failed). (d', \<not> malloc_failed)) (dictExpand_u d sz (Some alloc))"

definition dictResize :: "bool \<Rightarrow> ('k, 'v) dict \<Rightarrow> (('k, 'v) dict \<times> bool) option" where
  "dictResize can_resize d =
     (if \<not> can_resize \<or> dictIsRehashing d then Some (d, False)
      else
        (let minimal = ht_used (ht0 d);
             minimal = (if minimal < DICT_HT_INITIAL_SIZE then DICT_HT_INITIAL_SIZE else minimal)
         in dictExpand d minimal))"

section \<open>Incremental rehashing\<close>

text \<open>
  The loop over the empty buckets from \<open>rehashidx\<close> on; it stops at a bucket with entries (and
  returns the budget left) or when the budget of empty visits is used up.
\<close>

datatype skip_result = Found nat int | OutOfVisits nat

function rehash_skip :: "('k, 'v) dictEntry list list \<Rightarrow> nat \<Rightarrow> int \<Rightarrow> skip_result option" where
  "rehash_skip table idx empty_visits =
     (if idx \<ge> length table then None
      else if table ! idx = [] then
        (if empty_visits - 1 = 0 then Some (OutOfVisits (Suc idx))
         else rehash_skip table (Suc idx) (empty_visits - 1))
      else Some (Found idx empty_visits))"
  by pat_completeness auto
termination
  by (relation "measure (\<lambda>(table, idx, ev). length table - idx)") auto

declare rehash_skip.simps [simp del]

text \<open>Moving the chain \<open>de\<close> of the old table, entry by entry, to the heads of the new chains.\<close>

fun rehash_chain ::
  "('k, 'v) dictType \<Rightarrow> ('k, 'v) dictEntry list \<Rightarrow> ('k, 'v) dict \<Rightarrow> ('k, 'v) dict option" where
  "rehash_chain t [] d = Some d"
| "rehash_chain t (de # nextde) d =
     (let h = ht_index (hashFunction t (de_key de)) (ht1 d) in do {
        chain \<leftarrow> bucket (ht1 d) h;
        rehash_chain t nextde
          (d\<lparr>ht0 := (ht0 d)\<lparr>ht_used := ht_used (ht0 d) - 1\<rparr>,
             ht1 := (ht1 d)\<lparr>ht_table := (ht_table (ht1 d))[h := de # chain],
                            ht_used := ht_used (ht1 d) + 1\<rparr>\<rparr>) })"

primrec rehash_loop ::
  "('k, 'v) dictType \<Rightarrow> nat \<Rightarrow> int \<Rightarrow> ('k, 'v) dict \<Rightarrow> (('k, 'v) dict \<times> bool) option" where
  "rehash_loop t 0 empty_visits d = Some (d, False)"
| "rehash_loop t (Suc n) empty_visits d =
     (if ht_used (ht0 d) = 0 then Some (d, False)
      else if \<not> ht_size (ht0 d) > nat (rehashidx d) then None
      else do {
        r \<leftarrow> rehash_skip (ht_table (ht0 d)) (nat (rehashidx d)) empty_visits;
        (case r of
           OutOfVisits idx \<Rightarrow> Some (d\<lparr>rehashidx := int idx\<rparr>, True)
         | Found idx empty_visits \<Rightarrow> do {
             chain \<leftarrow> bucket (ht0 d) idx;
             d' \<leftarrow> rehash_chain t chain d;
             rehash_loop t n empty_visits
               (d'\<lparr>ht0 := (ht0 d')\<lparr>ht_table := (ht_table (ht0 d'))[idx := []]\<rparr>,
                   rehashidx := int idx + 1\<rparr>) }) })"

definition dictRehash ::
  "('k, 'v) dictType \<Rightarrow> ('k, 'v) dict \<Rightarrow> nat \<Rightarrow> (('k, 'v) dict \<times> bool) option" where
  "dictRehash t d n =
     (if \<not> dictIsRehashing d then Some (d, False)
      else do {
        (d, early) \<leftarrow> rehash_loop t n (int n * 10) d;
        if early then Some (d, True)
        else if ht_used (ht0 d) = 0
        then Some (d\<lparr>ht0 := ht1 d, ht1 := dictReset_u, rehashidx := -1\<rparr>, False)
        else Some (d, True) })"

text \<open>\<open>clock i\<close> is the \<open>i\<close>-th reading of the clock.\<close>

partial_function (option) rehash_ms_loop ::
  "('k, 'v) dictType \<Rightarrow> (nat \<Rightarrow> int) \<Rightarrow> int \<Rightarrow> int \<Rightarrow> ('k, 'v) dict \<Rightarrow> nat \<Rightarrow> nat
    \<Rightarrow> (('k, 'v) dict \<times> nat) option" where
  [code]: "rehash_ms_loop t clock start ms d i rehashes =
     dictRehash t d 100 \<bind> (\<lambda>(d, more).
       if more then
         (if clock i - start > ms then Some (d, rehashes + 100)
          else rehash_ms_loop t clock start ms d (i + 1) (rehashes + 100))
       else Some (d, rehashes))"

definition dictRehashMilliseconds ::
  "('k, 'v) dictType \<Rightarrow> (nat \<Rightarrow> int) \<Rightarrow> ('k, 'v) dict \<Rightarrow> int \<Rightarrow> (('k, 'v) dict \<times> nat) option" where
  "dictRehashMilliseconds t clock d ms =
     (if pauserehash d > 0 then Some (d, 0) else rehash_ms_loop t clock (clock 0) ms d 1 0)"

definition dictRehashStep_u :: "('k, 'v) dictType \<Rightarrow> ('k, 'v) dict \<Rightarrow> ('k, 'v) dict option" where
  "dictRehashStep_u t d =
     (if pauserehash d = 0 then map_option fst (dictRehash t d 1) else Some d)"

section \<open>Lookup\<close>

text \<open>The position of the first entry of a chain that matches.\<close>

fun chain_find :: "('k, 'v) dictType \<Rightarrow> 'k \<Rightarrow> ('k, 'v) dictEntry list \<Rightarrow> nat \<Rightarrow> nat option" where
  "chain_find t key [] i = None"
| "chain_find t key (he # nxt) i =
     (if key_matches t key he then Some i else chain_find t key nxt (Suc i))"

text \<open>
  The loop \<open>for (table = 0; table <= 1; table++)\<close> that \<open>dictFind\<close>, \<open>_dictKeyIndex\<close> and
  \<open>dictGenericDelete\<close> share: it looks into the first table and, while rehashing, into the second.
  The result is the reference found, if any, and the last bucket index computed.
\<close>

definition dict_search ::
  "('k, 'v) dictType \<Rightarrow> ('k, 'v) dict \<Rightarrow> 'k \<Rightarrow> u64 \<Rightarrow> (dictRef option \<times> nat) option" where
  "dict_search t d key h =
     (let idx0 = ht_index h (ht0 d) in do {
        chain0 \<leftarrow> bucket (ht0 d) idx0;
        (case chain_find t key chain0 0 of
           Some pos \<Rightarrow> Some (Some (0, idx0, pos), idx0)
         | None \<Rightarrow>
             if \<not> dictIsRehashing d then Some (None, idx0)
             else
               (let idx1 = ht_index h (ht1 d) in do {
                  chain1 \<leftarrow> bucket (ht1 d) idx1;
                  (case chain_find t key chain1 0 of
                     Some pos \<Rightarrow> Some (Some (1, idx1, pos), idx1)
                   | None \<Rightarrow> Some (None, idx1)) })) })"

definition dict_deref :: "('k, 'v) dict \<Rightarrow> dictRef \<Rightarrow> ('k, 'v) dictEntry" where
  "dict_deref d r = (case r of (table, idx, pos) \<Rightarrow> ht_table (dict_ht d table) ! idx ! pos)"

definition dictFind ::
  "('k, 'v) dictType \<Rightarrow> ('k, 'v) dict \<Rightarrow> 'k \<Rightarrow> (('k, 'v) dict \<times> ('k, 'v) dictEntry option) option" where
  "dictFind t d key =
     (if dictSize d = 0 then Some (d, None)
      else do {
        d \<leftarrow> (if dictIsRehashing d then dictRehashStep_u t d else Some d);
        (r, _) \<leftarrow> dict_search t d key (hashFunction t key);
        Some (d, map_option (dict_deref d) r) })"

definition dictFetchValue ::
  "('k, 'v) dictType \<Rightarrow> ('k, 'v) dict \<Rightarrow> 'k \<Rightarrow> (('k, 'v) dict \<times> 'v option) option" where
  "dictFetchValue t d key = do {
     (d, he) \<leftarrow> dictFind t d key;
     Some (d, map_option de_val he) }"

section \<open>Insertion\<close>

definition dictTypeExpandAllowed :: "('k, 'v) dictType \<Rightarrow> ('k, 'v) dict \<Rightarrow> bool option" where
  "dictTypeExpandAllowed t d =
     (case expandAllowed t of
        None \<Rightarrow> Some True
      | Some allowed \<Rightarrow> do {
          n \<leftarrow> dictNextPower_u (ht_used (ht0 d) + 1);
          Some (allowed (n * 8 mod 2 ^ 64) (ht_used (ht0 d), ht_size (ht0 d))) })"

definition dictExpandIfNeeded_u ::
  "('k, 'v) dictType \<Rightarrow> bool \<Rightarrow> ('k, 'v) dict \<Rightarrow> (('k, 'v) dict \<times> bool) option" where
  "dictExpandIfNeeded_u t can_resize d =
     (if dictIsRehashing d then Some (d, True)
      else if ht_size (ht0 d) = 0 then dictExpand d DICT_HT_INITIAL_SIZE
      else if ht_used (ht0 d) \<ge> ht_size (ht0 d) \<and>
              (can_resize \<or> ht_used (ht0 d) div ht_size (ht0 d) > dict_force_resize_ratio)
      then do {
        allowed \<leftarrow> dictTypeExpandAllowed t d;
        if allowed then dictExpand d (ht_used (ht0 d) + 1) else Some (d, True) }
      else Some (d, True))"

datatype key_index = FreeIndex nat | ExistingEntry dictRef | ExpandFailed

definition dictKeyIndex_u ::
  "('k, 'v) dictType \<Rightarrow> bool \<Rightarrow> ('k, 'v) dict \<Rightarrow> 'k \<Rightarrow> u64 \<Rightarrow> (('k, 'v) dict \<times> key_index) option" where
  "dictKeyIndex_u t can_resize d key hash = do {
     (d, ok) \<leftarrow> dictExpandIfNeeded_u t can_resize d;
     if \<not> ok then Some (d, ExpandFailed)
     else do {
       (r, idx) \<leftarrow> dict_search t d key hash;
       Some (d, (case r of Some ref \<Rightarrow> ExistingEntry ref | None \<Rightarrow> FreeIndex idx)) } }"

datatype add_result = Added dictRef | Existing dictRef | Failed

definition dictAddRaw ::
  "('k, 'v) dictType \<Rightarrow> bool \<Rightarrow> 'v \<Rightarrow> ('k, 'v) dict \<Rightarrow> 'k \<Rightarrow> (('k, 'v) dict \<times> add_result) option" where
  "dictAddRaw t can_resize junk d key = do {
     d \<leftarrow> (if dictIsRehashing d then dictRehashStep_u t d else Some d);
     (d, index) \<leftarrow> dictKeyIndex_u t can_resize d key (hashFunction t key);
     (case index of
        ExistingEntry ref \<Rightarrow> Some (d, Existing ref)
      | ExpandFailed \<Rightarrow> Some (d, Failed)
      | FreeIndex idx \<Rightarrow>
          (let table = (if dictIsRehashing d then 1 else 0);
               entry = dictSetKey t \<lparr>de_key = key, de_val = junk\<rparr> key
           in do {
             chain \<leftarrow> bucket (dict_ht d table) idx;
             Some (dict_ht_update table
                     (\<lambda>ht. ht\<lparr>ht_table := (ht_table ht)[idx := entry # chain],
                              ht_used := ht_used ht + 1\<rparr>) d,
                   Added (table, idx, 0)) })) }"

text \<open>Writing the value of the entry a reference points to.\<close>

definition dict_set_val ::
  "('k, 'v) dictType \<Rightarrow> ('k, 'v) dict \<Rightarrow> dictRef \<Rightarrow> 'v \<Rightarrow> ('k, 'v) dict" where
  "dict_set_val t d r v = (case r of (table, idx, pos) \<Rightarrow>
     dict_ht_update table
       (\<lambda>ht. ht\<lparr>ht_table := (ht_table ht)[idx :=
          (ht_table ht ! idx)[pos := dictSetVal t (ht_table ht ! idx ! pos) v]]\<rparr>) d)"

definition dictAdd ::
  "('k, 'v) dictType \<Rightarrow> bool \<Rightarrow> 'v \<Rightarrow> ('k, 'v) dict \<Rightarrow> 'k \<Rightarrow> 'v \<Rightarrow> (('k, 'v) dict \<times> bool) option" where
  "dictAdd t can_resize junk d key v = do {
     (d, r) \<leftarrow> dictAddRaw t can_resize junk d key;
     (case r of
        Added ref \<Rightarrow> Some (dict_set_val t d ref v, True)
      | _ \<Rightarrow> Some (d, False)) }"

text \<open>
  \<open>dictReplace\<close> dereferences \<open>existing\<close> when no entry was added; that is a null pointer when the
  table could not be expanded.
\<close>

definition dictReplace ::
  "('k, 'v) dictType \<Rightarrow> bool \<Rightarrow> 'v \<Rightarrow> ('k, 'v) dict \<Rightarrow> 'k \<Rightarrow> 'v \<Rightarrow> (('k, 'v) dict \<times> bool) option" where
  "dictReplace t can_resize junk d key v = do {
     (d, r) \<leftarrow> dictAddRaw t can_resize junk d key;
     (case r of
        Added ref \<Rightarrow> Some (dict_set_val t d ref v, True)
      | Existing ref \<Rightarrow> Some (dict_set_val t d ref v, False)
      | Failed \<Rightarrow> None) }"

definition dictAddOrFind ::
  "('k, 'v) dictType \<Rightarrow> bool \<Rightarrow> 'v \<Rightarrow> ('k, 'v) dict \<Rightarrow> 'k \<Rightarrow> (('k, 'v) dict \<times> dictRef option) option" where
  "dictAddOrFind t can_resize junk d key = do {
     (d, r) \<leftarrow> dictAddRaw t can_resize junk d key;
     (case r of
        Added ref \<Rightarrow> Some (d, Some ref)
      | Existing ref \<Rightarrow> Some (d, Some ref)
      | Failed \<Rightarrow> Some (d, None)) }"

section \<open>Deletion\<close>

definition dictGenericDelete ::
  "('k, 'v) dictType \<Rightarrow> ('k, 'v) dict \<Rightarrow> 'k \<Rightarrow> (('k, 'v) dict \<times> ('k, 'v) dictEntry option) option" where
  "dictGenericDelete t d key =
     (if ht_used (ht0 d) = 0 \<and> ht_used (ht1 d) = 0 then Some (d, None)
      else do {
        d \<leftarrow> (if dictIsRehashing d then dictRehashStep_u t d else Some d);
        (r, _) \<leftarrow> dict_search t d key (hashFunction t key);
        (case r of
           None \<Rightarrow> Some (d, None)
         | Some (table, idx, pos) \<Rightarrow>
             Some (dict_ht_update table
                     (\<lambda>ht. ht\<lparr>ht_table := (ht_table ht)[idx :=
                                take pos (ht_table ht ! idx) @ drop (Suc pos) (ht_table ht ! idx)],
                              ht_used := ht_used ht - 1\<rparr>) d,
                   Some (dict_deref d (table, idx, pos)))) })"

definition dictDelete :: "('k, 'v) dictType \<Rightarrow> ('k, 'v) dict \<Rightarrow> 'k \<Rightarrow> (('k, 'v) dict \<times> bool) option" where
  "dictDelete t d key = map_option (\<lambda>(d', he). (d', he \<noteq> None)) (dictGenericDelete t d key)"

definition dictUnlink ::
  "('k, 'v) dictType \<Rightarrow> ('k, 'v) dict \<Rightarrow> 'k \<Rightarrow> (('k, 'v) dict \<times> ('k, 'v) dictEntry option) option" where
  "dictUnlink t d key = dictGenericDelete t d key"

text \<open>\<open>_dictClear\<close> frees every entry; the list of the entries freed, in order, is its result.\<close>

fun dictClear_loop :: "('k, 'v) dictEntry list list \<Rightarrow> nat \<Rightarrow> ('k, 'v) dictEntry list" where
  "dictClear_loop [] used = []"
| "dictClear_loop (chain # rest) used =
     (if used > 0 then chain @ dictClear_loop rest (used - length chain) else [])"

definition dictClear_u :: "('k, 'v) dictht \<Rightarrow> ('k, 'v) dictht \<times> ('k, 'v) dictEntry list" where
  "dictClear_u ht = (dictReset_u, dictClear_loop (take (ht_size ht) (ht_table ht)) (ht_used ht))"

definition dictEmpty :: "('k, 'v) dict \<Rightarrow> ('k, 'v) dict \<times> ('k, 'v) dictEntry list" where
  "dictEmpty d =
     (let (h0, freed0) = dictClear_u (ht0 d); (h1, freed1) = dictClear_u (ht1 d)
      in (d\<lparr>ht0 := h0, ht1 := h1, rehashidx := -1, pauserehash := 0\<rparr>, freed0 @ freed1))"

definition dictRelease :: "('k, 'v) dict \<Rightarrow> ('k, 'v) dictEntry list" where
  "dictRelease d = snd (dictClear_u (ht0 d)) @ snd (dictClear_u (ht1 d))"

definition dictGetHash :: "('k, 'v) dictType \<Rightarrow> 'k \<Rightarrow> u64" where
  "dictGetHash t key = hashFunction t key"


section \<open>Invariant and abstraction\<close>

definition keys_equal :: "('k, 'v) dictType \<Rightarrow> 'k \<Rightarrow> 'k \<Rightarrow> bool" where
  "keys_equal t a b \<longleftrightarrow> a = b \<or> dictCompareKeys t a b"

definition dup_key :: "('k, 'v) dictType \<Rightarrow> 'k \<Rightarrow> 'k" where
  "dup_key t k = (case keyDup t of Some dup \<Rightarrow> dup k | None \<Rightarrow> k)"

definition dup_val :: "('k, 'v) dictType \<Rightarrow> 'v \<Rightarrow> 'v" where
  "dup_val t v = (case valDup t of Some dup \<Rightarrow> dup v | None \<Rightarrow> v)"

lemma key_matches_iff: "key_matches t k e \<longleftrightarrow> keys_equal t k (de_key e)"
  by (simp add: key_matches_def keys_equal_def)

text \<open>
  A table is well formed when its size is zero or a power of two with the mask that belongs to it,
  its counter is the number of entries, and every entry is in the bucket of its hash.
\<close>

definition ht_wf :: "('k, 'v) dictType \<Rightarrow> ('k, 'v) dictht \<Rightarrow> bool" where
  "ht_wf t ht \<longleftrightarrow>
     length (ht_table ht) = ht_size ht \<and>
     ht_used ht = length (concat (ht_table ht)) \<and>
     (if ht_size ht = 0 then ht_sizemask ht = 0
      else ht_size ht \<in> (\<lambda>k. 2 ^ k) ` {2..60} \<and> ht_sizemask ht = of_nat (ht_size ht - 1)) \<and>
     (\<forall>i < ht_size ht. \<forall>e \<in> set (ht_table ht ! i).
        ht_index (hashFunction t (de_key e)) ht = i)"

definition dict_entries :: "('k, 'v) dict \<Rightarrow> ('k, 'v) dictEntry list" where
  "dict_entries d = concat (ht_table (ht0 d)) @ concat (ht_table (ht1 d))"

definition distinct_keys :: "('k, 'v) dictType \<Rightarrow> ('k, 'v) dictEntry list \<Rightarrow> bool" where
  "distinct_keys t es \<longleftrightarrow> sorted_wrt (\<lambda>e f. \<not> keys_equal t (de_key e) (de_key f)) es"

definition rehash_wf :: "('k, 'v) dict \<Rightarrow> bool" where
  "rehash_wf d \<longleftrightarrow>
     0 < ht_size (ht0 d) \<and> 0 < ht_size (ht1 d) \<and>
     0 \<le> rehashidx d \<and> rehashidx d \<le> int (ht_size (ht0 d)) \<and>
     (\<forall>i < nat (rehashidx d). ht_table (ht0 d) ! i = [])"

definition dict_inv :: "('k, 'v) dictType \<Rightarrow> ('k, 'v) dict \<Rightarrow> bool" where
  "dict_inv t d \<longleftrightarrow>
     ht_wf t (ht0 d) \<and> ht_wf t (ht1 d) \<and>
     (if rehashidx d = -1 then ht1 d = dictReset_u else rehash_wf d) \<and>
     distinct_keys t (dict_entries d)"

text \<open>The finite map a dictionary stands for.\<close>

definition dict_map :: "('k, 'v) dictType \<Rightarrow> ('k, 'v) dict \<Rightarrow> 'k \<Rightarrow> 'v option" where
  "dict_map t d k = map_option de_val (find (key_matches t k) (dict_entries d))"

text \<open>What the code requires of the callbacks of a dictionary type.\<close>

locale dict_type =
  fixes t :: "('k, 'v) dictType"
  assumes eq_sym: "keys_equal t a b \<Longrightarrow> keys_equal t b a"
    and eq_trans: "keys_equal t a b \<Longrightarrow> keys_equal t b c \<Longrightarrow> keys_equal t a c"
    and eq_hash: "keys_equal t a b \<Longrightarrow> hashFunction t a = hashFunction t b"
    and eq_dup: "keys_equal t (dup_key t a) a"

section \<open>Lemmas on tables\<close>

definition ht_bag :: "('k, 'v) dictht \<Rightarrow> ('k, 'v) dictEntry multiset" where
  "ht_bag ht = mset (concat (ht_table ht))"

definition dict_bag :: "('k, 'v) dict \<Rightarrow> ('k, 'v) dictEntry multiset" where
  "dict_bag d = ht_bag (ht0 d) + ht_bag (ht1 d)"

lemma mset_dict_entries: "mset (dict_entries d) = dict_bag d"
  by (simp add: dict_entries_def dict_bag_def ht_bag_def)

lemma mset_concat_update:
  "i < length xss \<Longrightarrow> mset (concat (xss[i := ys])) + mset (xss ! i) = mset (concat xss) + mset ys"
proof (induction xss arbitrary: i)
  case (Cons xs xss)
  then show ?case by (cases i) (auto simp: ac_simps)
qed simp

lemma mask_pow2: "(of_nat (2 ^ k - 1) :: u64) = mask k"
  by (simp add: mask_eq_exp_minus_1 of_nat_diff)

lemma ht_index_mod:
  assumes "ht_sizemask ht = of_nat (2 ^ k - 1)" "k \<le> 60"
  shows "ht_index h ht = unat h mod 2 ^ k"
  unfolding ht_index_def assms(1) mask_pow2 take_bit_eq_mask [symmetric]
  by (simp only: unsigned_take_bit_eq) (simp add: take_bit_eq_mod)

lemma ht_wf_index:
  assumes "ht_wf t ht" "0 < ht_size ht"
  shows "ht_index h ht < ht_size ht"
proof -
  obtain k where "ht_size ht = 2 ^ k" "k \<le> 60" "ht_sizemask ht = of_nat (2 ^ k - 1)"
    using assms by (auto simp: ht_wf_def split: if_splits)
  then show ?thesis by (simp add: ht_index_mod)
qed

lemma ht_index_size_cong:
  "ht_sizemask ht' = ht_sizemask ht \<Longrightarrow> ht_index h ht' = ht_index h ht"
  by (simp add: ht_index_def)

lemma ht_wf_reset [simp]: "ht_wf t dictReset_u"
  by (simp add: ht_wf_def dictReset_u_def)

lemma ht_bag_reset [simp]: "ht_bag dictReset_u = {#}"
  by (simp add: ht_bag_def dictReset_u_def)

lemma ht_used_reset [simp]: "ht_used dictReset_u = 0" "ht_size dictReset_u = 0" "ht_table dictReset_u = []"
  by (simp_all add: dictReset_u_def)

lemma ht_wf_used: "ht_wf t ht \<Longrightarrow> ht_used ht = size (ht_bag ht)"
  by (simp add: ht_wf_def ht_bag_def)

lemma ht_wf_bucket:
  "ht_wf t ht \<Longrightarrow> i < ht_size ht \<Longrightarrow> bucket ht i = Some (ht_table ht ! i)"
  by (simp add: ht_wf_def bucket_def)

lemma ht_wf_table_empty: "ht_wf t ht \<Longrightarrow> ht_table ht = [] \<longleftrightarrow> ht_size ht = 0"
  by (auto simp: ht_wf_def)

text \<open>Replacing the chain of one bucket.\<close>

lemma ht_bag_set_bucket:
  assumes "ht_wf t ht" "i < ht_size ht"
  shows "ht_bag (ht\<lparr>ht_table := (ht_table ht)[i := ys]\<rparr>) + mset (ht_table ht ! i) = ht_bag ht + mset ys"
  using assms mset_concat_update [of i "ht_table ht" ys] by (simp add: ht_bag_def ht_wf_def)

lemma ht_wf_set_bucket:
  assumes "ht_wf t ht" "i < ht_size ht"
    and "\<And>e. e \<in> set ys \<Longrightarrow> ht_index (hashFunction t (de_key e)) ht = i"
    and "u + length (ht_table ht ! i) = ht_used ht + length ys"
  shows "ht_wf t (ht\<lparr>ht_table := (ht_table ht)[i := ys], ht_used := u\<rparr>)"
proof -
  have "size (mset (concat ((ht_table ht)[i := ys])) + mset (ht_table ht ! i))
      = size (mset (concat (ht_table ht)) + mset ys)"
    using assms(1,2) by (simp only: mset_concat_update ht_wf_def)
  then have "length (concat ((ht_table ht)[i := ys])) = u"
    using assms(1,4) by (simp add: ht_wf_def del: length_concat)
  then show ?thesis
    using assms(1-3) by (auto simp: ht_wf_def ht_index_def nth_list_update simp del: length_concat)
qed

lemma ht_chain_bag: "i < ht_size ht \<Longrightarrow> ht_wf t ht \<Longrightarrow> mset (ht_table ht ! i) \<subseteq># ht_bag ht"
  using ht_bag_set_bucket [of t ht i "[]"] by (metis add.right_neutral mset.simps(1) mset_subset_eq_add_right)

lemma ht_used_chain: "i < ht_size ht \<Longrightarrow> ht_wf t ht \<Longrightarrow> length (ht_table ht ! i) \<le> ht_used ht"
  by (metis ht_chain_bag ht_wf_used size_mset size_mset_mono)

lemma ht_used_nonempty:
  assumes "ht_wf t ht" "ht_used ht \<noteq> 0"
  obtains i where "i < ht_size ht" "ht_table ht ! i \<noteq> []"
proof -
  have "concat (ht_table ht) \<noteq> []" using assms by (auto simp: ht_wf_def)
  then show thesis using that assms(1)
    by (auto simp: ht_wf_def concat_eq_Nil_conv in_set_conv_nth)
qed


section \<open>Rehashing moves entries and loses none\<close>

lemma rehash_skip_spec:
  assumes "idx \<le> j" "j < length table" "table ! j \<noteq> []"
  shows "\<exists>k r. rehash_skip table idx ev = Some r \<and> idx \<le> k \<and> k \<le> j \<and>
    (\<forall>i. idx \<le> i \<and> i < k \<longrightarrow> table ! i = []) \<and>
    ((\<exists>ev'. r = Found k ev' \<and> table ! k \<noteq> []) \<or> (r = OutOfVisits k \<and> idx < k))"
  using assms
proof (induction table idx ev rule: rehash_skip.induct)
  case (1 table idx ev)
  show ?case
  proof (cases "table ! idx = [] \<and> ev - 1 \<noteq> 0")
    case True
    then have "Suc idx \<le> j" using 1 by (metis not_less_eq_eq order_antisym_conv)
    from 1 True this obtain k r where k: "rehash_skip table (Suc idx) (ev - 1) = Some r"
      "Suc idx \<le> k" "k \<le> j" "\<forall>i. Suc idx \<le> i \<and> i < k \<longrightarrow> table ! i = []"
      "(\<exists>ev'. r = Found k ev' \<and> table ! k \<noteq> []) \<or> (r = OutOfVisits k \<and> Suc idx < k)"
      by force
    have "rehash_skip table idx ev = Some r" using k(1) True 1 by (simp add: rehash_skip.simps [of table idx])
    moreover have "\<forall>i. idx \<le> i \<and> i < k \<longrightarrow> table ! i = []"
      using k(4) True by (metis Suc_leI le_neq_implies_less)
    ultimately show ?thesis using k by (metis Suc_leD Suc_lessD Suc_le_lessD)
  next
    case False
    show ?thesis
    proof (cases "table ! idx = []")
      case True
      then have "idx < j" using 1 by (metis le_neq_implies_less)
      then show ?thesis using 1 True False
        by (intro exI [of _ "Suc idx"]) (auto simp: less_Suc_eq rehash_skip.simps [of table idx])
    qed (use 1 in \<open>auto simp: rehash_skip.simps [of table idx]\<close>)
  qed
qed

lemma rehash_chain_spec:
  assumes "ht_wf t (ht1 d)" "0 < ht_size (ht1 d)"
  shows "\<exists>h. rehash_chain t chain d =
      Some (d\<lparr>ht0 := (ht0 d)\<lparr>ht_used := ht_used (ht0 d) - length chain\<rparr>, ht1 := h\<rparr>) \<and>
    ht_wf t h \<and> ht_bag h = ht_bag (ht1 d) + mset chain \<and> ht_size h = ht_size (ht1 d)"
  using assms
proof (induction chain arbitrary: d)
  case Nil
  then show ?case by (intro exI [of _ "ht1 d"]) simp
next
  case (Cons de chain)
  let ?i = "ht_index (hashFunction t (de_key de)) (ht1 d)"
  let ?h = "(ht1 d)\<lparr>ht_table := (ht_table (ht1 d))[?i := de # ht_table (ht1 d) ! ?i],
                    ht_used := ht_used (ht1 d) + 1\<rparr>"
  let ?d = "d\<lparr>ht0 := (ht0 d)\<lparr>ht_used := ht_used (ht0 d) - 1\<rparr>, ht1 := ?h\<rparr>"
  have i: "?i < ht_size (ht1 d)" using Cons.prems by (rule ht_wf_index)
  have wf: "ht_wf t ?h"
    using Cons.prems i by (intro ht_wf_set_bucket) (auto simp: ht_wf_def)
  have bag: "ht_bag ?h = ht_bag (ht1 d) + {#de#}"
    using ht_bag_set_bucket [OF Cons.prems(1) i, of "de # ht_table (ht1 d) ! ?i"]
    by (simp add: ht_bag_def)
  obtain h where h: "rehash_chain t chain ?d =
      Some (?d\<lparr>ht0 := (ht0 ?d)\<lparr>ht_used := ht_used (ht0 ?d) - length chain\<rparr>, ht1 := h\<rparr>)"
    "ht_wf t h" "ht_bag h = ht_bag ?h + mset chain" "ht_size h = ht_size ?h"
    using Cons.IH [of ?d] wf Cons.prems(2) by auto
  have "rehash_chain t (de # chain) d = rehash_chain t chain ?d"
    using ht_wf_bucket [OF Cons.prems(1) i] by (simp add: Let_def)
  then show ?case using h bag by (intro exI [of _ h]) (simp add: ac_simps)
qed

definition rehash_inv :: "('k, 'v) dictType \<Rightarrow> ('k, 'v) dict \<Rightarrow> bool" where
  "rehash_inv t d \<longleftrightarrow> ht_wf t (ht0 d) \<and> ht_wf t (ht1 d) \<and> rehash_wf d"

text \<open>One bucket: the move of the chain at \<open>k\<close>, all buckets before it being empty.\<close>

lemma rehash_bucket_spec:
  assumes inv: "rehash_inv t d" and k: "k < ht_size (ht0 d)"
    and emp: "\<And>i. i < k \<Longrightarrow> ht_table (ht0 d) ! i = []"
  shows "\<exists>d' d''. rehash_chain t (ht_table (ht0 d) ! k) d = Some d' \<and>
    d'' = d'\<lparr>ht0 := (ht0 d')\<lparr>ht_table := (ht_table (ht0 d'))[k := []]\<rparr>, rehashidx := int k + 1\<rparr> \<and>
    rehash_inv t d'' \<and> dict_bag d'' = dict_bag d \<and> pauserehash d'' = pauserehash d \<and>
    ht_size (ht0 d'') = ht_size (ht0 d) \<and> ht_size (ht1 d'') = ht_size (ht1 d)"
proof -
  let ?c = "ht_table (ht0 d) ! k"
  have wf: "ht_wf t (ht0 d)" "ht_wf t (ht1 d)" "0 < ht_size (ht1 d)" "0 < ht_size (ht0 d)"
    using inv by (auto simp: rehash_inv_def rehash_wf_def)
  obtain h where h: "rehash_chain t ?c d =
      Some (d\<lparr>ht0 := (ht0 d)\<lparr>ht_used := ht_used (ht0 d) - length ?c\<rparr>, ht1 := h\<rparr>)"
    "ht_wf t h" "ht_bag h = ht_bag (ht1 d) + mset ?c" "ht_size h = ht_size (ht1 d)"
    using rehash_chain_spec [OF wf(2,3)] by blast
  let ?h0 = "(ht0 d)\<lparr>ht_table := (ht_table (ht0 d))[k := []], ht_used := ht_used (ht0 d) - length ?c\<rparr>"
  have wf0: "ht_wf t ?h0"
    using wf(1) k ht_used_chain [OF k wf(1)] by (intro ht_wf_set_bucket) auto
  have bag0: "ht_bag ?h0 + mset ?c = ht_bag (ht0 d)"
    using ht_bag_set_bucket [OF wf(1) k, of "[]"] by (simp add: ht_bag_def)
  have len: "length (ht_table (ht0 d)) = ht_size (ht0 d)" using wf(1) by (simp add: ht_wf_def)
  let ?d = "d\<lparr>ht0 := ?h0, ht1 := h, rehashidx := int k + 1\<rparr>"
  have "(ht_table (ht0 d))[k := []] ! i = []" if "i < Suc k" for i
    using that emp k len by (cases "i = k") auto
  then have "rehash_inv t ?d"
    using wf0 wf h(2,4) k by (simp add: rehash_inv_def rehash_wf_def nat_add_distrib)
  moreover have "dict_bag ?d = dict_bag d"
    using h(3) bag0 [symmetric] by (simp add: dict_bag_def ac_simps)
  moreover let ?d1 = "d\<lparr>ht0 := (ht0 d)\<lparr>ht_used := ht_used (ht0 d) - length ?c\<rparr>, ht1 := h\<rparr>"
  have "?d = ?d1\<lparr>ht0 := (ht0 ?d1)\<lparr>ht_table := (ht_table (ht0 ?d1))[k := []]\<rparr>, rehashidx := int k + 1\<rparr>"
    by (auto intro: dict.equality dictht.equality)
  ultimately show ?thesis
    using h(1,4) by (intro exI [of _ ?d1] exI [of _ ?d] conjI) (assumption | simp)+
qed

text \<open>Progress: a loop that leaves the dictionary rehashing has advanced \<open>rehashidx\<close>.\<close>

lemma rehash_loop_spec:
  assumes "rehash_inv t d"
  shows "\<exists>d' b. rehash_loop t n ev d = Some (d', b) \<and> rehash_inv t d' \<and>
    dict_bag d' = dict_bag d \<and> pauserehash d' = pauserehash d \<and>
    ht_size (ht0 d') = ht_size (ht0 d) \<and> ht_size (ht1 d') = ht_size (ht1 d) \<and>
    (b \<longrightarrow> ht_used (ht0 d') \<noteq> 0) \<and> rehashidx d \<le> rehashidx d' \<and>
    (0 < n \<and> ht_used (ht0 d) \<noteq> 0 \<longrightarrow> rehashidx d < rehashidx d')"
  using assms
proof (induction n arbitrary: d ev)
  case (Suc n)
  let ?T = "ht_table (ht0 d)" let ?r = "nat (rehashidx d)"
  show ?case
  proof (cases "ht_used (ht0 d) = 0")
    case False
    have wf: "ht_wf t (ht0 d)" "ht_wf t (ht1 d)" and re: "rehash_wf d" using Suc.prems by (auto simp: rehash_inv_def)
    obtain j where j: "j < ht_size (ht0 d)" "?T ! j \<noteq> []" using ht_used_nonempty [OF wf(1) False] .
    have rj: "?r \<le> j" using re j by (meson not_le rehash_wf_def)
    have len: "length ?T = ht_size (ht0 d)" using wf by (simp add: ht_wf_def)
    obtain k r where k: "rehash_skip ?T ?r ev = Some r" "?r \<le> k" "k \<le> j"
      "\<forall>i. ?r \<le> i \<and> i < k \<longrightarrow> ?T ! i = []"
      "(\<exists>ev'. r = Found k ev' \<and> ?T ! k \<noteq> []) \<or> (r = OutOfVisits k \<and> ?r < k)"
      using rehash_skip_spec [OF rj, of ?T ev] j len by auto
    have ks: "k < ht_size (ht0 d)" using k j by simp
    have emp: "?T ! i = []" if "i < k" for i
      using k(4) re that by (meson not_le rehash_wf_def)
    have r0: "0 \<le> rehashidx d" using re by (simp add: rehash_wf_def)
    have guard: "ht_size (ht0 d) > ?r" using k(2) ks by simp
    from k(5) show ?thesis
    proof
      assume "r = OutOfVisits k \<and> ?r < k"
      then show ?thesis
        using wf re k(1) ks emp False guard r0
        by (auto simp: rehash_inv_def rehash_wf_def dict_bag_def)
    next
      assume "\<exists>ev'. r = Found k ev' \<and> ?T ! k \<noteq> []"
      then obtain ev' where ev': "r = Found k ev'" by blast
      obtain d' d'' where d': "rehash_chain t (?T ! k) d = Some d'"
        "d'' = d'\<lparr>ht0 := (ht0 d')\<lparr>ht_table := (ht_table (ht0 d'))[k := []]\<rparr>, rehashidx := int k + 1\<rparr>"
        "rehash_inv t d''" "dict_bag d'' = dict_bag d" "pauserehash d'' = pauserehash d"
        "ht_size (ht0 d'') = ht_size (ht0 d)" "ht_size (ht1 d'') = ht_size (ht1 d)"
        using rehash_bucket_spec [OF Suc.prems ks emp] by blast
      have idx: "rehashidx d < rehashidx d''" using d'(2) k(2) r0 by simp
      have "rehash_loop t (Suc n) ev d = rehash_loop t n ev' d''"
        using False guard k(1) ev' d'(1,2) ht_wf_bucket [OF wf(1) ks] by simp
      then show ?thesis using Suc.IH [OF d'(3), of ev'] d'(4-7) idx by force
    qed
  qed (use Suc.prems in auto)
qed auto


section \<open>The whole dictionary\<close>

definition dict_core :: "('k, 'v) dictType \<Rightarrow> ('k, 'v) dict \<Rightarrow> bool" where
  "dict_core t d \<longleftrightarrow> ht_wf t (ht0 d) \<and> ht_wf t (ht1 d) \<and>
     (if rehashidx d = -1 then ht1 d = dictReset_u else rehash_wf d)"

lemma dict_inv_core: "dict_inv t d \<longleftrightarrow> dict_core t d \<and> distinct_keys t (dict_entries d)"
  by (auto simp: dict_inv_def dict_core_def)

lemma dict_core_size: "dict_core t d \<Longrightarrow> dictSize d = size (dict_bag d)"
  by (auto simp: dict_core_def dictSize_def dict_bag_def dest!: ht_wf_used)

lemma dict_core_rehashing:
  "dictIsRehashing d \<Longrightarrow> dict_core t d \<longleftrightarrow> rehash_inv t d"
  by (simp add: dict_core_def dictIsRehashing_def rehash_inv_def)

lemma dictRehash_core:
  assumes "dict_core t d"
  shows "\<exists>d' b. dictRehash t d n = Some (d', b) \<and> dict_core t d' \<and> dict_bag d' = dict_bag d \<and>
    pauserehash d' = pauserehash d \<and> b = dictIsRehashing d' \<and>
    (dictIsRehashing d' \<longrightarrow> dictIsRehashing d \<and> rehashidx d \<le> rehashidx d' \<and>
       (0 < n \<longrightarrow> rehashidx d < rehashidx d') \<and>
       ht_size (ht0 d') = ht_size (ht0 d) \<and> ht_size (ht1 d') = ht_size (ht1 d))"
proof (cases "dictIsRehashing d")
  case True
  then have "rehash_inv t d" using assms dict_core_rehashing by blast
  from rehash_loop_spec [OF this, of n "int n * 10"]
  obtain d' b where d': "rehash_loop t n (int n * 10) d = Some (d', b)" "rehash_inv t d'"
    "dict_bag d' = dict_bag d" "pauserehash d' = pauserehash d"
    "ht_size (ht0 d') = ht_size (ht0 d)" "ht_size (ht1 d') = ht_size (ht1 d)"
    "b \<longrightarrow> ht_used (ht0 d') \<noteq> 0" "rehashidx d \<le> rehashidx d'"
    "0 < n \<and> ht_used (ht0 d) \<noteq> 0 \<longrightarrow> rehashidx d < rehashidx d'" by blast
  have re: "dictIsRehashing d'" using d'(2) by (auto simp: rehash_inv_def rehash_wf_def dictIsRehashing_def)
  show ?thesis
  proof (cases "ht_used (ht0 d') = 0")
    case False
    then have "dictRehash t d n = Some (d', True)" using True d'(1) by (auto simp: dictRehash_def)
    moreover have "ht_used (ht0 d) \<noteq> 0" if "0 < n"
    proof
      assume "ht_used (ht0 d) = 0"
      then have "rehash_loop t n (int n * 10) d = Some (d, False)" by (cases n) auto
      then show False using d'(1) False \<open>ht_used (ht0 d) = 0\<close> by simp
    qed
    ultimately show ?thesis using d' re True dict_core_rehashing by auto
  next
    case zero: True
    let ?d = "d'\<lparr>ht0 := ht1 d', ht1 := dictReset_u, rehashidx := -1\<rparr>"
    have "ht_bag (ht0 d') = {#}" using zero ht_wf_used d'(2) by (metis rehash_inv_def size_eq_0_iff_empty)
    then have "dict_bag ?d = dict_bag d" using d'(3) by (simp add: dict_bag_def)
    moreover have "dict_core t ?d" using d'(2) by (simp add: dict_core_def rehash_inv_def)
    moreover have "dictRehash t d n = Some (?d, False)"
      using True d'(1,7) zero by (auto simp: dictRehash_def)
    ultimately show ?thesis using d'(4) by (auto simp: dictIsRehashing_def)
  qed
qed (use assms in \<open>auto simp: dictRehash_def\<close>)

lemma dictRehashStep_core:
  assumes "dict_core t d"
  shows "\<exists>d'. (if dictIsRehashing d then dictRehashStep_u t d else Some d) = Some d' \<and>
    dict_core t d' \<and> dict_bag d' = dict_bag d \<and> pauserehash d' = pauserehash d"
proof -
  from dictRehash_core [OF assms, of 1] obtain d' b where
    "dictRehash t d 1 = Some (d', b)" "dict_core t d'" "dict_bag d' = dict_bag d"
    "pauserehash d' = pauserehash d" by blast
  then show ?thesis using assms by (auto simp: dictRehashStep_u_def)
qed

text \<open>A dictionary with entries has buckets to look into.\<close>

definition has_buckets :: "('k, 'v) dict \<Rightarrow> bool" where
  "has_buckets d \<longleftrightarrow> 0 < ht_size (ht0 d)"

lemma has_buckets_bag: "dict_core t d \<Longrightarrow> dict_bag d \<noteq> {#} \<Longrightarrow> has_buckets d"
  by (auto simp: dict_core_def has_buckets_def dict_bag_def ht_bag_def ht_wf_def rehash_wf_def
      split: if_splits)

lemma has_buckets_rehashing: "dict_core t d \<Longrightarrow> dictIsRehashing d \<Longrightarrow> has_buckets d"
  by (auto simp: dict_core_def dictIsRehashing_def has_buckets_def rehash_wf_def)

text \<open>References, and replacing the chain of the bucket one points into.\<close>

definition ref_ok :: "('k, 'v) dict \<Rightarrow> dictRef \<Rightarrow> bool" where
  "ref_ok d r = (case r of (table, idx, pos) \<Rightarrow>
     table \<le> 1 \<and> idx < ht_size (dict_ht d table) \<and> pos < length (ht_table (dict_ht d table) ! idx))"

lemma dict_core_ht: "dict_core t d \<Longrightarrow> ht_wf t (dict_ht d table)"
  by (simp add: dict_core_def dict_ht_def)

lemma deref_in_bag:
  assumes "dict_core t d" "ref_ok d ref"
  shows "dict_deref d ref \<in># dict_bag d"
proof -
  obtain table idx pos where r: "ref = (table, idx, pos)" by (cases ref)
  then have "idx < ht_size (dict_ht d table)" using assms(2) by (simp add: ref_ok_def)
  from set_mset_mono [OF ht_chain_bag [OF this dict_core_ht [OF assms(1)]]]
  have "set (ht_table (dict_ht d table) ! idx) \<subseteq> set_mset (ht_bag (dict_ht d table))" by simp
  moreover have "dict_deref d ref \<in> set (ht_table (dict_ht d table) ! idx)"
    using assms(2) r by (simp add: ref_ok_def dict_deref_def)
  ultimately show ?thesis by (auto simp: dict_bag_def dict_ht_def split: if_splits)
qed

lemma dict_set_chain:
  fixes d :: "('k, 'v) dict"
  assumes core: "dict_core t d" and tb: "table \<le> 1" and idx: "idx < ht_size (dict_ht d table)"
    and ne: "ht_table (dict_ht d table) ! idx \<noteq> [] \<or> table = (if dictIsRehashing d then 1 else 0)"
    and ys: "\<And>e. e \<in> set ys \<Longrightarrow> ht_index (hashFunction t (de_key e)) (dict_ht d table) = idx"
    and u: "u + length (ht_table (dict_ht d table) ! idx) = ht_used (dict_ht d table) + length ys"
  defines "d' \<equiv> dict_ht_update table
      (\<lambda>ht. ht\<lparr>ht_table := (ht_table ht)[idx := ys], ht_used := u\<rparr>) d"
  shows "dict_core t d'"
    and "dict_bag d' + mset (ht_table (dict_ht d table) ! idx) = dict_bag d + mset ys"
    and "pauserehash d' = pauserehash d"
proof -
  note wf = dict_core_ht [OF core, of table]
  let ?h = "(dict_ht d table)\<lparr>ht_table := (ht_table (dict_ht d table))[idx := ys], ht_used := u\<rparr>"
  have wf': "ht_wf t ?h" using wf idx ys u by (rule ht_wf_set_bucket)
  have bag: "ht_bag ?h + mset (ht_table (dict_ht d table) ! idx) = ht_bag (dict_ht d table) + mset ys"
    using ht_bag_set_bucket [OF wf idx] by (simp add: ht_bag_def)
  show "dict_bag d' + mset (ht_table (dict_ht d table) ! idx) = dict_bag d + mset ys"
    using bag by (auto simp: d'_def dict_bag_def dict_ht_def dict_ht_update_def ac_simps split: if_splits)
  show "pauserehash d' = pauserehash d" by (simp add: d'_def dict_ht_update_def)
  show "dict_core t d'"
  proof (cases "table = 0")
    case True
    have "idx \<ge> nat (rehashidx d)" if "rehashidx d \<noteq> -1"
      using that ne True core by (auto simp: dict_ht_def dictIsRehashing_def dict_core_def rehash_wf_def
          intro: leI)
    then show ?thesis using True core wf'
      by (auto simp: d'_def dict_core_def dict_ht_def dict_ht_update_def rehash_wf_def nth_list_update)
  next
    case False
    then have "rehashidx d \<noteq> -1"
      using idx core by (auto simp: dict_core_def dict_ht_def dictReset_u_def)
    then show ?thesis using False core wf'
      by (auto simp: d'_def dict_core_def dict_ht_def dict_ht_update_def rehash_wf_def)
  qed
qed


section \<open>Lookup, insertion and deletion are those of a map\<close>

definition map_put :: "('k, 'v) dictType \<Rightarrow> ('k \<Rightarrow> 'v option) \<Rightarrow> 'k \<Rightarrow> 'v \<Rightarrow> 'k \<Rightarrow> 'v option" where
  "map_put t m k v = (\<lambda>k'. if keys_equal t k' k then Some v else m k')"

definition map_del :: "('k, 'v) dictType \<Rightarrow> ('k \<Rightarrow> 'v option) \<Rightarrow> 'k \<Rightarrow> 'k \<Rightarrow> 'v option" where
  "map_del t m k = (\<lambda>k'. if keys_equal t k' k then None else m k')"

lemma chain_find_spec:
  "case chain_find t key es i of
     None \<Rightarrow> \<forall>e \<in> set es. \<not> key_matches t key e
   | Some j \<Rightarrow> i \<le> j \<and> j < i + length es \<and> key_matches t key (es ! (j - i))"
proof (induction es arbitrary: i)
  case (Cons e es)
  show ?case
  proof (cases "key_matches t key e")
    case False
    then show ?thesis using Cons [of "Suc i"]
      by (auto split: option.splits simp: Suc_diff_le nth_Cons' Suc_le_eq)
  qed auto
qed simp

lemma find_some_iff:
  assumes "\<And>e f. e \<in> set es \<Longrightarrow> f \<in> set es \<Longrightarrow> P e \<Longrightarrow> P f \<Longrightarrow> e = f"
  shows "find P es = Some e \<longleftrightarrow> e \<in> set es \<and> P e"
  using assms by (induction es) (auto split: if_splits)

context dict_type
begin

definition key_class :: "('k, 'v) dictEntry \<Rightarrow> 'k set" where
  "key_class e = {x. keys_equal t (de_key e) x}"

lemma eq_refl: "keys_equal t a a"
  by (simp add: keys_equal_def)

lemma eq_cong: "keys_equal t a b \<Longrightarrow> keys_equal t c a \<longleftrightarrow> keys_equal t c b"
  using eq_sym [of a b] eq_trans [of c a b] eq_trans [of c b a] by iprover

lemma eq_cong_left: "keys_equal t a b \<Longrightarrow> keys_equal t a c \<longleftrightarrow> keys_equal t b c"
  using eq_sym [of a b] eq_trans [of a b c] eq_trans [of b a c] by iprover

lemma match_cong: "keys_equal t k' k \<Longrightarrow> key_matches t k' f \<longleftrightarrow> key_matches t k f"
  unfolding key_matches_iff by (rule eq_cong_left)

lemma match_iff: "keys_equal t (de_key e) k \<Longrightarrow> key_matches t k' e \<longleftrightarrow> keys_equal t k' k"
  unfolding key_matches_iff by (rule eq_cong)

lemma match_left: "keys_equal t (de_key e) k \<Longrightarrow> key_matches t k f \<longleftrightarrow> keys_equal t (de_key e) (de_key f)"
  unfolding key_matches_iff by (rule eq_cong_left [symmetric])

lemma key_class_eq: "key_class e = key_class f \<longleftrightarrow> keys_equal t (de_key e) (de_key f)"
  unfolding key_class_def using eq_refl eq_cong_left by (metis (mono_tags) Collect_cong mem_Collect_eq)

lemma distinct_keys_class: "distinct_keys t es \<longleftrightarrow> distinct (map key_class es)"
  unfolding distinct_keys_def by (induction es) (auto simp: key_class_eq [symmetric])

lemma distinct_keys_mset:
  assumes "mset es = mset fs" shows "distinct_keys t es \<longleftrightarrow> distinct_keys t fs"
  using assms unfolding distinct_keys_class by (metis mset_eq_imp_distinct_iff mset_map)

lemma distinct_keys_unique:
  assumes "distinct_keys t es" "e \<in> set es" "f \<in> set es" "key_matches t k e" "key_matches t k f"
  shows "e = f"
proof -
  have "keys_equal t (de_key e) (de_key f)"
    using assms(4,5) eq_sym [of k] eq_trans unfolding key_matches_iff by iprover
  then show ?thesis
    using assms(1-3) unfolding distinct_keys_class distinct_map by (auto simp: inj_on_def key_class_eq)
qed

lemma dict_map_Some:
  assumes "dict_inv t d"
  shows "dict_map t d k = Some v \<longleftrightarrow> (\<exists>e \<in># dict_bag d. key_matches t k e \<and> de_val e = v)"
proof -
  have "find (key_matches t k) (dict_entries d) = Some e \<longleftrightarrow>
      e \<in># dict_bag d \<and> key_matches t k e" for e
    using distinct_keys_unique assms mset_dict_entries [of d, symmetric]
    by (subst find_some_iff) (auto simp: dict_inv_def)
  then show ?thesis by (auto simp: dict_map_def)
qed

lemma dict_map_None:
  assumes "dict_inv t d"
  shows "dict_map t d k = None \<longleftrightarrow> (\<forall>e \<in># dict_bag d. \<not> key_matches t k e)"
  using mset_dict_entries [of d, symmetric] by (auto simp: dict_map_def find_None_iff)

lemma dict_map_eqI:
  assumes "dict_inv t d" "dict_inv t d'"
    and "\<And>k v. dict_map t d k = Some v \<longleftrightarrow> m k = Some v"
  shows "dict_map t d = m"
  using assms(3) by (metis ext not_None_eq)

lemma dict_inv_same_bag:
  assumes "dict_inv t d" "dict_core t d'" "dict_bag d' = dict_bag d"
  shows "dict_inv t d' \<and> dict_map t d' = dict_map t d"
proof -
  have inv: "dict_inv t d'" using assms distinct_keys_mset mset_dict_entries by (metis dict_inv_core)
  moreover have "dict_map t d' = dict_map t d"
    by (rule dict_map_eqI [OF inv assms(1)]) (simp add: dict_map_Some inv assms(1,3))
  ultimately show ?thesis ..
qed

text \<open>The three ways an operation changes the entries.\<close>

lemma dict_inv_insert:
  assumes inv: "dict_inv t d" and core: "dict_core t d'" and bag: "dict_bag d' = add_mset e (dict_bag d)"
    and key: "keys_equal t (de_key e) k" and new: "dict_map t d k = None"
  shows "dict_inv t d' \<and> dict_map t d' = map_put t (dict_map t d) k (de_val e)"
proof -
  have ne: "\<not> keys_equal t (de_key e) (de_key f)" if "f \<in># dict_bag d" for f
    using that new unfolding dict_map_None [OF inv] match_left [OF key] by blast
  have "distinct_keys t (e # dict_entries d)"
    using inv ne by (auto simp: dict_inv_def distinct_keys_def simp flip: mset_dict_entries)
  then have inv': "dict_inv t d'"
    using core bag distinct_keys_mset [of "dict_entries d'" "e # dict_entries d"]
    by (simp add: dict_inv_core mset_dict_entries)
  moreover have "dict_map t d' = map_put t (dict_map t d) k (de_val e)"
  proof (rule dict_map_eqI [OF inv' inv])
    fix k' v
    have "\<not> key_matches t k' f" if "f \<in># dict_bag d" "keys_equal t k' k" for f
      using that new unfolding dict_map_None [OF inv] match_cong [OF that(2)] by blast
    moreover note match_iff [OF key, of k']
    ultimately show "dict_map t d' k' = Some v \<longleftrightarrow> map_put t (dict_map t d) k (de_val e) k' = Some v"
      by (auto simp: dict_map_Some inv inv' bag map_put_def)
  qed
  ultimately show ?thesis ..
qed

lemma dict_inv_remove:
  assumes inv: "dict_inv t d" and core: "dict_core t d'" and bag: "dict_bag d = add_mset e (dict_bag d')"
    and key: "keys_equal t (de_key e) k"
  shows "dict_inv t d' \<and> dict_map t d' = map_del t (dict_map t d) k \<and> dict_map t d k = Some (de_val e)"
proof -
  have "distinct_keys t (e # dict_entries d')"
    using inv bag distinct_keys_mset [of "dict_entries d" "e # dict_entries d'"]
    by (simp add: dict_inv_def mset_dict_entries)
  then have dist: "distinct_keys t (dict_entries d')"
    and ne: "\<And>f. f \<in># dict_bag d' \<Longrightarrow> \<not> keys_equal t (de_key e) (de_key f)"
    by (auto simp: distinct_keys_def simp flip: mset_dict_entries)
  have inv': "dict_inv t d'" using core dist by (simp add: dict_inv_core)
  moreover have "dict_map t d' = map_del t (dict_map t d) k"
  proof (rule dict_map_eqI [OF inv' inv])
    fix k' v
    have "\<not> key_matches t k' f" if "f \<in># dict_bag d'" "keys_equal t k' k" for f
      using that ne unfolding match_cong [OF that(2)] match_left [OF key] by blast
    moreover note match_iff [OF key, of k']
    ultimately show "dict_map t d' k' = Some v \<longleftrightarrow> map_del t (dict_map t d) k k' = Some v"
      by (auto simp: dict_map_Some inv inv' bag map_del_def)
  qed
  moreover have "dict_map t d k = Some (de_val e)"
    using match_iff [OF key, of k] eq_refl by (auto simp: dict_map_Some inv bag)
  ultimately show ?thesis by blast
qed

lemma dict_inv_revalue:
  assumes inv: "dict_inv t d" and core: "dict_core t d'"
    and bag: "dict_bag d = add_mset e M" "dict_bag d' = add_mset (e\<lparr>de_val := v\<rparr>) M"
    and key: "keys_equal t (de_key e) k"
  shows "dict_inv t d' \<and> dict_map t d' = map_put t (dict_map t d) k v"
proof -
  obtain es where es: "mset es = M" using ex_mset by blast
  have dist: "distinct_keys t (e # es)"
    using inv bag es distinct_keys_mset [of "dict_entries d" "e # es"]
    by (simp add: dict_inv_def mset_dict_entries)
  then have "distinct_keys t (e\<lparr>de_val := v\<rparr> # es)" by (simp add: distinct_keys_def)
  then have inv': "dict_inv t d'"
    using core bag es distinct_keys_mset [of "dict_entries d'" "e\<lparr>de_val := v\<rparr> # es"]
    by (simp add: dict_inv_core mset_dict_entries)
  have ne: "\<not> keys_equal t (de_key e) (de_key f)" if "f \<in># M" for f
    using dist that es by (auto simp: distinct_keys_def)
  have "dict_map t d' = map_put t (dict_map t d) k v"
  proof (rule dict_map_eqI [OF inv' inv])
    fix k' w
    have "\<not> key_matches t k' f" if "f \<in># M" "keys_equal t k' k" for f
      using that ne unfolding match_cong [OF that(2)] match_left [OF key] by blast
    moreover note match_iff [OF key, of k']
    ultimately show "dict_map t d' k' = Some w \<longleftrightarrow> map_put t (dict_map t d) k v k' = Some w"
      by (auto simp: dict_map_Some inv inv' bag map_put_def key_matches_iff)
  qed
  with inv' show ?thesis ..
qed

end


section \<open>Resizing\<close>

lemma dictNextPower_loop_spec:
  assumes "2 \<le> k" "k \<le> 63" "sz < 2 ^ 63" "k = 2 \<or> 2 ^ k < 2 * sz"
  shows "\<exists>m \<ge> 2. m \<le> 63 \<and> dictNextPower_loop sz (2 ^ k) = Some (2 ^ m) \<and> sz \<le> 2 ^ m \<and>
    (m = 2 \<or> 2 ^ m < 2 * sz)"
  using assms
proof (induction "63 - k" arbitrary: k)
  case 0
  then show ?case by (intro exI [of _ 63]) (auto simp: dictNextPower_loop.simps)
next
  case (Suc n)
  show ?case
  proof (cases "sz \<le> 2 ^ k")
    case True
    then show ?thesis using Suc.prems by (intro exI [of _ k]) (auto simp: dictNextPower_loop.simps)
  next
    case False
    have "2 ^ Suc k < (2 ^ 64 :: nat)" using Suc.hyps(2) by (intro power_strict_increasing) auto
    then have "dictNextPower_loop sz (2 ^ k) = dictNextPower_loop sz (2 ^ Suc k)"
      using False by (subst dictNextPower_loop.simps) (simp add: mult.commute)
    then show ?thesis using Suc.hyps(1) [of "Suc k"] Suc.hyps(2) Suc.prems False by auto
  qed
qed

lemma dictNextPower_spec:
  obtains m where "2 \<le> m" "m \<le> 63" "dictNextPower_u sz = Some (2 ^ m)"
    "sz < 2 ^ 63 \<Longrightarrow> sz \<le> 2 ^ m" "sz < 2 ^ 63 - 1 \<Longrightarrow> m = 2 \<or> 2 ^ m < 2 * sz"
proof (cases "sz < 2 ^ 63 - 1")
  case True
  then obtain m where "2 \<le> m" "m \<le> 63" "dictNextPower_loop sz (2 ^ 2) = Some (2 ^ m)" "sz \<le> 2 ^ m"
    "m = 2 \<or> 2 ^ m < 2 * sz" using dictNextPower_loop_spec [of 2 sz] by auto
  then show thesis using True that by (simp add: dictNextPower_u_def DICT_HT_INITIAL_SIZE_def)
next
  case False
  then show thesis using that [of 63] by (simp add: dictNextPower_u_def)
qed

lemma pow2_overflow:
  assumes "m \<le> 63" shows "(2 :: nat) ^ m * 8 mod 2 ^ 64 < 2 ^ m \<longleftrightarrow> 60 < m"
proof -
  have eq: "(2 :: nat) ^ m * 8 = 2 ^ (m + 3)" by (simp add: power_add)
  show ?thesis
  proof (cases "60 < m")
    case True
    then have "(2 :: nat) ^ 64 dvd 2 ^ (m + 3)" by (intro le_imp_power_dvd) simp
    then show ?thesis using True unfolding eq by simp
  next
    case False
    then have "(2 :: nat) ^ (m + 3) < 2 ^ 64" by (intro power_strict_increasing) auto
    then show ?thesis using False unfolding eq by simp
  qed
qed

lemma ht_wf_new:
  assumes "2 \<le> m" "m \<le> 60"
  shows "ht_wf t \<lparr>ht_table = replicate (2 ^ m) [], ht_size = 2 ^ m,
                   ht_sizemask = of_nat (2 ^ m - 1), ht_used = 0\<rparr>"
  using assms by (auto simp: ht_wf_def)

lemma dictExpand_u_spec:
  assumes core: "dict_core t d"
  shows "\<exists>d' ok mf. dictExpand_u d sz malloc = Some (d', ok, mf) \<and> dict_core t d' \<and>
    dict_bag d' = dict_bag d \<and> pauserehash d' = pauserehash d \<and>
    (if ok then has_buckets d' else d' = d) \<and>
    (malloc = None \<and> \<not> dictIsRehashing d \<and> ht_used (ht0 d) \<le> sz \<and> ht_size (ht0 d) < sz \<and>
       sz \<le> 2 ^ 60 \<longrightarrow> ok)"
proof -
  obtain m where m: "2 \<le> m" "m \<le> 63" "dictNextPower_u sz = Some (2 ^ m)"
    "sz < 2 ^ 63 \<Longrightarrow> sz \<le> 2 ^ m" "sz < 2 ^ 63 - 1 \<Longrightarrow> m = 2 \<or> 2 ^ m < 2 * sz"
    by (rule dictNextPower_spec [of sz]) blast
  let ?n = "\<lparr>ht_table = replicate (2 ^ m) [], ht_size = 2 ^ m,
             ht_sizemask = of_nat (2 ^ m - 1), ht_used = 0\<rparr> :: ('a, 'b) dictht"
  define d' where
    "d' = (if ht_table (ht0 d) = [] then d\<lparr>ht0 := ?n\<rparr> else d\<lparr>ht1 := ?n, rehashidx := 0\<rparr>)"
  have small: "m \<le> 60" if "sz \<le> 2 ^ 60"
  proof (rule ccontr)
    assume "\<not> m \<le> 60"
    then have "(2 :: nat) ^ 61 \<le> 2 ^ m" by (intro power_increasing) auto
    then show False using m(5) that \<open>\<not> m \<le> 60\<close> by auto
  qed
  define skip where "skip \<longleftrightarrow> dictIsRehashing d \<or> ht_used (ht0 d) > sz \<or> 2 ^ m < sz \<or> 60 < m \<or>
    2 ^ m = ht_size (ht0 d)"
  define oom where "oom \<longleftrightarrow> (case malloc of Some alloc \<Rightarrow> \<not> alloc (2 ^ m * 8) | None \<Rightarrow> False)"
  have eq: "dictExpand_u d sz malloc =
      Some (if skip then (d, False, False) else if oom then (d, False, True) else (d', True, False))"
    using m(3) by (simp add: d'_def dictExpand_u_def skip_def oom_def pow2_overflow [OF m(2), simplified])
  have ok: "\<not> skip" if "\<not> dictIsRehashing d" "ht_used (ht0 d) \<le> sz" "ht_size (ht0 d) < sz" "sz \<le> 2 ^ 60"
    using that small m(4) by (auto simp: skip_def)
  have res: "dict_core t d' \<and> dict_bag d' = dict_bag d \<and> pauserehash d' = pauserehash d \<and> has_buckets d'"
    if "\<not> skip"
  proof -
    have "\<not> dictIsRehashing d" "m \<le> 60" using that by (auto simp: skip_def)
    moreover from this have "ht1 d = dictReset_u" using core by (simp add: dict_core_def dictIsRehashing_def)
    ultimately show ?thesis
      using core ht_wf_new [OF m(1), of t] ht_wf_table_empty [of t "ht0 d"]
      by (auto simp: d'_def dict_core_def rehash_wf_def dict_bag_def ht_bag_def has_buckets_def
          dictIsRehashing_def)
  qed
  show ?thesis
  proof (cases "skip \<or> oom")
    case True
    then have "dictExpand_u d sz malloc = Some (d, False, \<not> skip)" unfolding eq by auto
    moreover have "skip" if "malloc = None" using True that by (simp add: oom_def)
    then have "\<not> (malloc = None \<and> \<not> dictIsRehashing d \<and> ht_used (ht0 d) \<le> sz \<and>
        ht_size (ht0 d) < sz \<and> sz \<le> 2 ^ 60)" using ok by blast
    ultimately show ?thesis using core
      by (intro exI [of _ d] exI [of _ False] exI [of _ "\<not> skip"] conjI) (simp_all only: if_False simp_thms)
  next
    case False
    then have "\<not> skip" "\<not> oom" by blast+
    then have "dictExpand_u d sz malloc = Some (d', True, False)"
      using eq by (simp only: if_False)
    moreover have "dict_core t d'" "dict_bag d' = dict_bag d" "pauserehash d' = pauserehash d" "has_buckets d'"
      using res \<open>\<not> skip\<close> by blast+
    ultimately show ?thesis
      by (intro exI [of _ d'] exI [of _ True] exI [of _ False] conjI) (simp_all only: if_True simp_thms)
  qed
qed

lemma dictExpand_spec:
  assumes "dict_core t d"
  shows "\<exists>d' ok. dictExpand d sz = Some (d', ok) \<and> dict_core t d' \<and>
    dict_bag d' = dict_bag d \<and> pauserehash d' = pauserehash d \<and>
    (if ok then has_buckets d' else d' = d) \<and>
    (\<not> dictIsRehashing d \<and> ht_used (ht0 d) \<le> sz \<and> ht_size (ht0 d) < sz \<and> sz \<le> 2 ^ 60 \<longrightarrow> ok)"
proof -
  obtain d' ok mf where r: "dictExpand_u d sz None = Some (d', ok, mf)" "dict_core t d'"
    "dict_bag d' = dict_bag d" "pauserehash d' = pauserehash d" "if ok then has_buckets d' else d' = d"
    "None = (None :: (nat \<Rightarrow> bool) option) \<and> \<not> dictIsRehashing d \<and> ht_used (ht0 d) \<le> sz \<and>
       ht_size (ht0 d) < sz \<and> sz \<le> 2 ^ 60 \<longrightarrow> ok"
    using dictExpand_u_spec [OF assms, of sz None] by (elim exE conjE) rule
  have "dictExpand d sz = Some (d', ok)" using r(1) by (simp add: dictExpand_def)
  then show ?thesis using r(2-6) by (intro exI [of _ d'] exI [of _ ok] conjI) simp_all
qed

lemma dictExpandIfNeeded_spec:
  assumes core: "dict_core t d"
  shows "\<exists>d' ok. dictExpandIfNeeded_u t can d = Some (d', ok) \<and> dict_core t d' \<and>
    dict_bag d' = dict_bag d \<and> pauserehash d' = pauserehash d \<and> (ok \<longrightarrow> has_buckets d') \<and>
    (dictSize d < 2 ^ 60 \<longrightarrow> ok)"
proof -
  obtain n where "dictNextPower_u (ht_used (ht0 d) + 1) = Some n"
    by (rule dictNextPower_spec) blast
  then obtain a where a: "dictTypeExpandAllowed t d = Some a"
    by (cases "expandAllowed t") (auto simp: dictTypeExpandAllowed_def)
  let ?full = "ht_used (ht0 d) \<ge> ht_size (ht0 d) \<and>
    (can \<or> ht_used (ht0 d) div ht_size (ht0 d) > dict_force_resize_ratio) \<and> a"
  consider (rehashing) "dictIsRehashing d" | (empty) "\<not> dictIsRehashing d" "ht_size (ht0 d) = 0"
    | (full) "\<not> dictIsRehashing d" "0 < ht_size (ht0 d)" "?full"
    | (rest) "\<not> dictIsRehashing d" "0 < ht_size (ht0 d)" "\<not> ?full" by blast
  then show ?thesis
  proof cases
    case rehashing
    then show ?thesis using core has_buckets_rehashing by (auto simp: dictExpandIfNeeded_u_def)
  next
    case empty
    then have "ht_used (ht0 d) = 0" using core by (auto simp: dict_core_def ht_wf_def)
    moreover obtain d' ok where d': "dictExpand d 4 = Some (d', ok)" "dict_core t d'"
      "dict_bag d' = dict_bag d" "pauserehash d' = pauserehash d" "if ok then has_buckets d' else d' = d"
      "\<not> dictIsRehashing d \<and> ht_used (ht0 d) \<le> 4 \<and> ht_size (ht0 d) < 4 \<and> (4 :: nat) \<le> 2 ^ 60 \<longrightarrow> ok"
      using dictExpand_spec [OF core, of 4] by (elim exE conjE) rule
    ultimately show ?thesis using empty
      by (intro exI [of _ d'] exI [of _ ok]) (simp add: dictExpandIfNeeded_u_def DICT_HT_INITIAL_SIZE_def)
  next
    case full
    then have "dictExpandIfNeeded_u t can d = dictExpand d (ht_used (ht0 d) + 1)"
      using a by (simp add: dictExpandIfNeeded_u_def)
    moreover obtain d' ok where d': "dictExpand d (ht_used (ht0 d) + 1) = Some (d', ok)" "dict_core t d'"
      "dict_bag d' = dict_bag d" "pauserehash d' = pauserehash d" "if ok then has_buckets d' else d' = d"
      "\<not> dictIsRehashing d \<and> ht_used (ht0 d) \<le> ht_used (ht0 d) + 1 \<and>
       ht_size (ht0 d) < ht_used (ht0 d) + 1 \<and> ht_used (ht0 d) + 1 \<le> 2 ^ 60 \<longrightarrow> ok"
      using dictExpand_spec [OF core, of "ht_used (ht0 d) + 1"] by (elim exE conjE) rule
    ultimately show ?thesis using full by (auto simp: dictSize_def)
  next
    case rest
    then have "dictExpandIfNeeded_u t can d = Some (d, True)"
      using a by (auto simp: dictExpandIfNeeded_u_def)
    then show ?thesis using core rest(2) by (auto simp: has_buckets_def)
  qed
qed


section \<open>The operations\<close>

context dict_type
begin

lemma ht_match_bucket:
  assumes "ht_wf t ht" "e \<in># ht_bag ht" "key_matches t key e"
  shows "e \<in> set (ht_table ht ! ht_index (hashFunction t key) ht)"
proof -
  obtain c where "c \<in> set (ht_table ht)" "e \<in> set c"
    using assms(2) by (auto simp: ht_bag_def)
  then obtain i where i: "i < ht_size ht" "e \<in> set (ht_table ht ! i)"
    using assms(1) by (auto simp: ht_wf_def in_set_conv_nth [of c])
  have "hashFunction t key = hashFunction t (de_key e)"
    using assms(3) eq_hash by (simp add: key_matches_iff)
  then show ?thesis using i assms(1) by (auto simp: ht_wf_def)
qed

lemma ht_search:
  fixes key :: 'k
  assumes wf: "ht_wf t ht" and pos: "0 < ht_size ht"
  defines "i \<equiv> ht_index (hashFunction t key) ht"
  shows "i < ht_size ht \<and> bucket ht i = Some (ht_table ht ! i) \<and>
    (case chain_find t key (ht_table ht ! i) 0 of
       None \<Rightarrow> \<forall>e \<in># ht_bag ht. \<not> key_matches t key e
     | Some p \<Rightarrow> p < length (ht_table ht ! i) \<and> key_matches t key (ht_table ht ! i ! p))"
proof -
  have "i < ht_size ht" unfolding i_def using wf pos by (rule ht_wf_index)
  moreover have m: "e \<in> set (ht_table ht ! i)" if "e \<in># ht_bag ht" "key_matches t key e" for e
    unfolding i_def using wf that by (rule ht_match_bucket)
  moreover note chain_find_spec [where t = t and key = key and es = "ht_table ht ! i" and i = 0]
  ultimately show ?thesis
    using ht_wf_bucket [OF wf] by (cases "chain_find t key (ht_table ht ! i) 0") auto
qed

definition target :: "('k, 'v) dict \<Rightarrow> nat" where
  "target d = (if dictIsRehashing d then 1 else 0)"

lemma dict_search_spec:
  assumes core: "dict_core t d" and hb: "has_buckets d"
  shows "\<exists>r i. dict_search t d key (hashFunction t key) = Some (r, i) \<and>
    (case r of
       None \<Rightarrow> (\<forall>e \<in># dict_bag d. \<not> key_matches t key e) \<and>
                i = ht_index (hashFunction t key) (dict_ht d (target d)) \<and> i < ht_size (dict_ht d (target d))
     | Some ref \<Rightarrow> ref_ok d ref \<and> key_matches t key (dict_deref d ref))"
proof -
  have wf: "ht_wf t (ht0 d)" "ht_wf t (ht1 d)" "0 < ht_size (ht0 d)"
    using core hb by (auto simp: dict_core_def has_buckets_def)
  define i0 where "i0 = ht_index (hashFunction t key) (ht0 d)"
  define i1 where "i1 = ht_index (hashFunction t key) (ht1 d)"
  note s0 = ht_search [OF wf(1,3), of key, folded i0_def]
  have ht: "dict_ht d 0 = ht0 d" "dict_ht d (Suc 0) = ht1 d" by (simp_all add: dict_ht_def)
  note defs = dict_search_def Let_def target_def ht dict_bag_def ref_ok_def dict_deref_def
    i0_def [symmetric] i1_def [symmetric]
  show ?thesis
  proof (cases "dictIsRehashing d")
    case True
    then have "0 < ht_size (ht1 d)" using core by (simp add: dict_core_def dictIsRehashing_def rehash_wf_def)
    note s1 = ht_search [OF wf(2) this, of key, folded i1_def]
    show ?thesis
    proof (cases "chain_find t key (ht_table (ht0 d) ! i0) 0")
      case None
      then show ?thesis using s0 s1 True
        by (cases "chain_find t key (ht_table (ht1 d) ! i1) 0") (auto simp: defs)
    qed (use s0 in \<open>auto simp: defs\<close>)
  next
    case False
    then have "ht1 d = dictReset_u" using core by (simp add: dict_core_def dictIsRehashing_def)
    then show ?thesis using s0 False
      by (cases "chain_find t key (ht_table (ht0 d) ! i0) 0") (auto simp: defs)
  qed
qed

lemma dict_search_map:
  assumes inv: "dict_inv t d" and hb: "has_buckets d"
  shows "\<exists>r i. dict_search t d key (hashFunction t key) = Some (r, i) \<and>
    dict_map t d key = map_option (de_val \<circ> dict_deref d) r \<and>
    (case r of
       None \<Rightarrow> i = ht_index (hashFunction t key) (dict_ht d (target d)) \<and> i < ht_size (dict_ht d (target d))
     | Some ref \<Rightarrow> ref_ok d ref \<and> key_matches t key (dict_deref d ref))"
proof -
  have core: "dict_core t d" using inv by (simp add: dict_inv_core)
  obtain r i where r: "dict_search t d key (hashFunction t key) = Some (r, i)"
    "case r of
       None \<Rightarrow> (\<forall>e \<in># dict_bag d. \<not> key_matches t key e) \<and>
                i = ht_index (hashFunction t key) (dict_ht d (target d)) \<and> i < ht_size (dict_ht d (target d))
     | Some ref \<Rightarrow> ref_ok d ref \<and> key_matches t key (dict_deref d ref)"
    using dict_search_spec [OF core hb] by blast
  have "dict_map t d key = map_option (de_val \<circ> dict_deref d) r"
  proof (cases r)
    case None
    then show ?thesis using r(2) dict_map_None [OF inv] by simp
  next
    case (Some ref)
    then have "dict_deref d ref \<in># dict_bag d" using r(2) core by (auto intro: deref_in_bag)
    then show ?thesis using r(2) Some dict_map_Some [OF inv] by auto
  qed
  then show ?thesis using r by (intro exI [of _ r] exI [of _ i]) (cases r; simp)
qed

theorem dictFind_spec:
  assumes inv: "dict_inv t d"
  shows "\<exists>d' r. dictFind t d key = Some (d', r) \<and> dict_inv t d' \<and> dict_bag d' = dict_bag d \<and>
    dict_map t d' = dict_map t d \<and> pauserehash d' = pauserehash d \<and>
    map_option de_val r = dict_map t d key"
proof (cases "dict_bag d = {#}")
  case True
  then have "dictSize d = 0" using inv dict_core_size by (metis dict_inv_core size_empty)
  moreover have "dict_map t d key = None" using True dict_map_None [OF inv] by simp
  ultimately show ?thesis using inv by (simp add: dictFind_def)
next
  case False
  have core: "dict_core t d" using inv by (simp add: dict_inv_core)
  have ne: "dictSize d \<noteq> 0" using False dict_core_size [OF core] by simp
  obtain d' where d': "(if dictIsRehashing d then dictRehashStep_u t d else Some d) = Some d'"
    "dict_core t d'" "dict_bag d' = dict_bag d" "pauserehash d' = pauserehash d"
    using dictRehashStep_core [OF core] by blast
  have inv': "dict_inv t d'" "dict_map t d' = dict_map t d" using dict_inv_same_bag [OF inv d'(2,3)] by auto
  have hb: "has_buckets d'" using has_buckets_bag [OF d'(2)] d'(3) False by simp
  obtain r i where "dict_search t d' key (hashFunction t key) = Some (r, i)"
    "dict_map t d' key = map_option (de_val \<circ> dict_deref d') r"
    using dict_search_map [OF inv'(1) hb, of key] by blast
  then have "dictFind t d key = Some (d', map_option (dict_deref d') r)"
    "map_option de_val (map_option (dict_deref d') r) = dict_map t d key"
    using ne inv'(2) by (simp_all add: dictFind_def d'(1) option.map_comp)
  then show ?thesis
    using inv' d'(3,4) by (intro exI [of _ d'] exI [of _ "map_option (dict_deref d') r"] conjI)
qed


text \<open>Every operation that may rehash a step first keeps the map; this is the state it works on.\<close>

lemma dict_step_state:
  assumes "dict_inv t d"
  obtains d' where "(if dictIsRehashing d then dictRehashStep_u t d else Some d) = Some d'"
    "dict_inv t d'" "dict_map t d' = dict_map t d" "dict_bag d' = dict_bag d" "pauserehash d' = pauserehash d"
    "dictSize d' = dictSize d"
proof -
  have core: "dict_core t d" using assms by (simp add: dict_inv_core)
  obtain d' where d': "(if dictIsRehashing d then dictRehashStep_u t d else Some d) = Some d'"
    "dict_core t d'" "dict_bag d' = dict_bag d" "pauserehash d' = pauserehash d"
    using dictRehashStep_core [OF core] by blast
  moreover have "dictSize d' = dictSize d"
    using dict_core_size [OF core] dict_core_size [OF d'(2)] d'(3) by simp
  ultimately show thesis using that dict_inv_same_bag [OF assms d'(2,3)] by blast
qed

text \<open>Writing through a reference: the chain with one entry replaced.\<close>

lemma ref_index:
  assumes "dict_core t d" "ref_ok d (table, idx, pos)" "e \<in> set (ht_table (dict_ht d table) ! idx)"
  shows "ht_index (hashFunction t (de_key e)) (dict_ht d table) = idx"
  using dict_core_ht [OF assms(1), of table] assms(2,3) by (simp add: ht_wf_def ref_ok_def)

lemma dict_set_val_spec:
  assumes inv: "dict_inv t d" and ref: "ref_ok d ref" and key: "key_matches t k (dict_deref d ref)"
  shows "dict_inv t (dict_set_val t d ref v) \<and>
    dict_map t (dict_set_val t d ref v) = map_put t (dict_map t d) k (dup_val t v) \<and>
    dictSize (dict_set_val t d ref v) = dictSize d \<and> pauserehash (dict_set_val t d ref v) = pauserehash d"
proof -
  obtain table idx pos where r: "ref = (table, idx, pos)" by (cases ref)
  define c where "c = ht_table (dict_ht d table) ! idx"
  define e where "e = c ! pos"
  let ?e = "e\<lparr>de_val := dup_val t v\<rparr>"
  define d' where "d' = dict_ht_update table
      (\<lambda>ht. ht\<lparr>ht_table := (ht_table ht)[idx := c[pos := ?e]], ht_used := ht_used (dict_ht d table)\<rparr>) d"
  have core: "dict_core t d" using inv by (simp add: dict_inv_core)
  have ok: "table \<le> 1" "idx < ht_size (dict_ht d table)" "pos < length c"
    using ref by (simp_all add: r ref_ok_def c_def)
  have ne: "c \<noteq> []" using ok(3) by auto
  have eq: "dict_set_val t d ref v = d'"
    by (simp add: r d'_def dict_set_val_def dict_ht_update_def dict_ht_def c_def e_def dictSetVal_def dup_val_def)
  have idx: "ht_index (hashFunction t (de_key f)) (dict_ht d table) = idx" if "f \<in> set (c[pos := ?e])" for f
  proof -
    have "de_key f \<in> de_key ` set c"
      using that ok(3) set_update_subset_insert [of c pos ?e] by (auto simp: e_def)
    then show ?thesis using ref_index [OF core ref [unfolded r]] by (auto simp: c_def)
  qed
  note ch = dict_set_chain [OF core ok(1,2) disjI1 [OF ne [unfolded c_def]],
      of "c[pos := ?e]" "ht_used (dict_ht d table)", OF idx, folded d'_def c_def]
  have d': "dict_core t d'" "dict_bag d' + mset c = dict_bag d + mset (c[pos := ?e])"
    "pauserehash d' = pauserehash d" using ch by simp_all
  define X where "X = mset c - {#e#}"
  have c: "mset c = add_mset e X" "mset (c[pos := ?e]) = add_mset ?e X"
    using ok(3) by (simp_all add: X_def e_def mset_update)
  have "add_mset e (dict_bag d') + X = add_mset ?e (dict_bag d) + X"
    using d'(2) unfolding c by simp
  then have bag: "add_mset e (dict_bag d') = add_mset ?e (dict_bag d)" by (rule add_right_imp_eq)
  have "e \<in># dict_bag d"
    using deref_in_bag [OF core ref] by (simp add: r e_def c_def dict_deref_def)
  then obtain M where M: "dict_bag d = add_mset e M" by (meson mset_add)
  then have M': "dict_bag d' = add_mset ?e M" using bag by simp
  have "keys_equal t (de_key e) k"
    using key eq_sym by (simp add: r dict_deref_def e_def c_def key_matches_iff)
  from dict_inv_revalue [OF inv d'(1) M M' this] d'(3) show ?thesis
    using M M' dict_core_size [OF core] dict_core_size [OF d'(1)] by (simp add: eq)
qed


text \<open>What \<open>dictAddRaw\<close> does, with room for one more entry.\<close>

lemma dictAddRaw_spec:
  assumes inv: "dict_inv t d" and room: "dictSize d < 2 ^ 60"
  shows "\<exists>d' r. dictAddRaw t can junk d key = Some (d', r) \<and> dict_inv t d' \<and> pauserehash d' = pauserehash d \<and>
    (if dict_map t d key = None
     then (\<exists>ref. r = Added ref \<and> ref_ok d' ref \<and> key_matches t key (dict_deref d' ref)) \<and>
          dict_map t d' = map_put t (dict_map t d) key junk \<and> dictSize d' = dictSize d + 1
     else (\<exists>ref. r = Existing ref \<and> ref_ok d' ref \<and> key_matches t key (dict_deref d' ref)) \<and>
          dict_map t d' = dict_map t d \<and> dictSize d' = dictSize d)"
proof -
  obtain d1 where d1: "(if dictIsRehashing d then dictRehashStep_u t d else Some d) = Some d1"
    "dict_inv t d1" "dict_map t d1 = dict_map t d" "dict_bag d1 = dict_bag d" "pauserehash d1 = pauserehash d"
    "dictSize d1 = dictSize d" using dict_step_state [OF inv] .
  have core1: "dict_core t d1" using d1(2) by (simp add: dict_inv_core)
  obtain d2 ok where e: "dictExpandIfNeeded_u t can d1 = Some (d2, ok)" "dict_core t d2"
    "dict_bag d2 = dict_bag d1" "pauserehash d2 = pauserehash d1" "ok \<longrightarrow> has_buckets d2"
    "dictSize d1 < 2 ^ 60 \<longrightarrow> ok" using dictExpandIfNeeded_spec [OF core1, of can] by (elim exE conjE) rule
  have ok: "ok" "has_buckets d2" using e room d1(6) by simp_all
  have d2: "dict_inv t d2" "dict_map t d2 = dict_map t d" using dict_inv_same_bag [OF d1(2) e(2,3)] d1(3) by auto
  have sz2: "dictSize d2 = dictSize d" using dict_core_size [OF e(2)] dict_core_size [OF core1] e(3) d1(6) by simp
  obtain r i where s: "dict_search t d2 key (hashFunction t key) = Some (r, i)"
    "dict_map t d2 key = map_option (de_val \<circ> dict_deref d2) r"
    "case r of
       None \<Rightarrow> i = ht_index (hashFunction t key) (dict_ht d2 (target d2)) \<and> i < ht_size (dict_ht d2 (target d2))
     | Some ref \<Rightarrow> ref_ok d2 ref \<and> key_matches t key (dict_deref d2 ref)"
    using dict_search_map [OF d2(1) ok(2), of key] by (elim exE conjE) rule
  have ki: "dictKeyIndex_u t can d1 key (hashFunction t key) =
      Some (d2, case r of Some ref \<Rightarrow> ExistingEntry ref | None \<Rightarrow> FreeIndex i)"
    using e(1) ok(1) s(1) by (simp add: dictKeyIndex_u_def)
  show ?thesis
  proof (cases r)
    case (Some ref)
    then have "dictAddRaw t can junk d key = Some (d2, Existing ref)"
      using ki by (simp add: dictAddRaw_def d1(1))
    then show ?thesis using Some s d2 sz2 e(4) d1(5) by (cases ref) auto
  next
    case None
    let ?e = "dictSetKey t \<lparr>de_key = key, de_val = junk\<rparr> key"
    define c where "c = ht_table (dict_ht d2 (target d2)) ! i"
    define d' where "d' = dict_ht_update (target d2) (\<lambda>ht. ht\<lparr>ht_table := (ht_table ht)[i := ?e # c],
        ht_used := ht_used (dict_ht d2 (target d2)) + 1\<rparr>) d2"
    have i: "i < ht_size (dict_ht d2 (target d2))"
      "i = ht_index (hashFunction t key) (dict_ht d2 (target d2))" using s(3) None by simp_all
    have tg: "target d2 \<le> 1" "target d2 = (if dictIsRehashing d2 then 1 else 0)" by (simp_all add: target_def)
    have ek: "de_key ?e = dup_key t key" "de_val ?e = junk" by (simp_all add: dictSetKey_def dup_key_def)
    have idx: "ht_index (hashFunction t (de_key f)) (dict_ht d2 (target d2)) = i" if "f \<in> set (?e # c)" for f
      using that i dict_core_ht [OF e(2), of "target d2"] eq_hash [OF eq_dup [of key]]
      by (auto simp: ek ht_wf_def c_def)
    note ch = dict_set_chain [OF e(2) tg(1) i(1) disjI2 [OF tg(2)],
        of "?e # c" "ht_used (dict_ht d2 (target d2)) + 1", OF idx, folded d'_def c_def]
    have d': "dict_core t d'" "dict_bag d' = add_mset ?e (dict_bag d2)" "pauserehash d' = pauserehash d2"
      using ch by simp_all
    have len: "length (ht_table (dict_ht d2 (target d2))) = ht_size (dict_ht d2 (target d2))"
      using dict_core_ht [OF e(2), of "target d2"] by (simp add: ht_wf_def)
    have raw: "dictAddRaw t can junk d key = Some (d', Added (target d2, i, 0))"
      using ki None i(1) len
      by (simp add: dictAddRaw_def d1(1) bucket_def d'_def c_def target_def dict_ht_update_def dict_ht_def)
    have ref: "ref_ok d' (target d2, i, 0)" "dict_deref d' (target d2, i, 0) = ?e"
      using i(1) len tg(1)
      by (simp_all add: ref_ok_def d'_def dict_ht_update_def dict_ht_def dict_deref_def split: if_splits)
    have new: "dict_map t d2 key = None" using s(2) None by simp
    have "keys_equal t (de_key ?e) key" using eq_dup by (simp add: ek)
    from dict_inv_insert [OF d2(1) d'(1,2) this new]
    have "dict_inv t d' \<and> dict_map t d' = map_put t (dict_map t d) key junk" by (simp add: d2(2) ek)
    moreover have "dictSize d' = dictSize d + 1"
      using dict_core_size [OF d'(1)] dict_core_size [OF e(2)] d'(2) sz2 by simp
    moreover have "key_matches t key (dict_deref d' (target d2, i, 0))"
      unfolding ref(2) key_matches_iff ek using eq_sym [OF eq_dup] .
    ultimately show ?thesis using raw ref(1) new d2(2) d'(3) e(4) d1(5) by simp
  qed
qed


lemma map_put_put: "map_put t (map_put t m k v) k w = map_put t m k w"
  by (auto simp: map_put_def)

text \<open>
  \<open>dictAdd\<close>, \<open>dictReplace\<close> and the deletions as map operations; the added key is never present
  before, the size changes by exactly one, and nothing is done to any other key.
\<close>

lemma dictAdd_spec:
  assumes "dict_inv t d" "dictSize d < 2 ^ 60"
  shows "\<exists>d'. dictAdd t can junk d key v = Some (d', dict_map t d key = None) \<and> dict_inv t d' \<and>
    pauserehash d' = pauserehash d \<and>
    (if dict_map t d key = None
     then dict_map t d' = map_put t (dict_map t d) key (dup_val t v) \<and> dictSize d' = dictSize d + 1
     else dict_map t d' = dict_map t d \<and> dictSize d' = dictSize d)"
proof (cases "dict_map t d key = None")
  case True
  then obtain d1 ref where d1: "dictAddRaw t can junk d key = Some (d1, Added ref)" "dict_inv t d1"
    "pauserehash d1 = pauserehash d" "ref_ok d1 ref" "key_matches t key (dict_deref d1 ref)"
    "dict_map t d1 = map_put t (dict_map t d) key junk" "dictSize d1 = dictSize d + 1"
    using dictAddRaw_spec [OF assms, of can junk key] by auto
  then show ?thesis using True dict_set_val_spec [OF d1(2,4,5), of v]
    by (simp add: dictAdd_def map_put_put)
next
  case False
  then show ?thesis using dictAddRaw_spec [OF assms, of can junk key] by (auto simp: dictAdd_def)
qed

lemma dictReplace_spec:
  assumes "dict_inv t d" "dictSize d < 2 ^ 60"
  shows "\<exists>d'. dictReplace t can junk d key v = Some (d', dict_map t d key = None) \<and> dict_inv t d' \<and>
    pauserehash d' = pauserehash d \<and> dict_map t d' = map_put t (dict_map t d) key (dup_val t v) \<and>
    dictSize d' = dictSize d + (if dict_map t d key = None then 1 else 0)"
proof (cases "dict_map t d key = None")
  case True
  then obtain d1 ref where d1: "dictAddRaw t can junk d key = Some (d1, Added ref)" "dict_inv t d1"
    "pauserehash d1 = pauserehash d" "ref_ok d1 ref" "key_matches t key (dict_deref d1 ref)"
    "dict_map t d1 = map_put t (dict_map t d) key junk" "dictSize d1 = dictSize d + 1"
    using dictAddRaw_spec [OF assms, of can junk key] by auto
  then show ?thesis using True dict_set_val_spec [OF d1(2,4,5), of v]
    by (simp add: dictReplace_def map_put_put)
next
  case False
  then obtain d1 ref where d1: "dictAddRaw t can junk d key = Some (d1, Existing ref)" "dict_inv t d1"
    "pauserehash d1 = pauserehash d" "ref_ok d1 ref" "key_matches t key (dict_deref d1 ref)"
    "dict_map t d1 = dict_map t d" "dictSize d1 = dictSize d"
    using dictAddRaw_spec [OF assms, of can junk key] by auto
  then show ?thesis using False dict_set_val_spec [OF d1(2,4,5), of v]
    by (simp add: dictReplace_def)
qed

text \<open>Unlinking the entry a reference points to.\<close>

lemma dict_unlink_ref:
  assumes inv: "dict_inv t d" and ref: "ref_ok d (table, idx, pos)"
    and key: "key_matches t k (dict_deref d (table, idx, pos))"
  defines "d' \<equiv> dict_ht_update table
      (\<lambda>ht. ht\<lparr>ht_table := (ht_table ht)[idx :=
                  take pos (ht_table ht ! idx) @ drop (Suc pos) (ht_table ht ! idx)],
               ht_used := ht_used ht - 1\<rparr>) d"
  shows "dict_inv t d' \<and> dict_map t d' = map_del t (dict_map t d) k \<and>
    dict_map t d k = Some (de_val (dict_deref d (table, idx, pos))) \<and> dictSize d = dictSize d' + 1 \<and>
    pauserehash d' = pauserehash d"
proof -
  define c where "c = ht_table (dict_ht d table) ! idx"
  define c' where "c' = take pos c @ drop (Suc pos) c"
  have core: "dict_core t d" using inv by (simp add: dict_inv_core)
  have ok: "table \<le> 1" "idx < ht_size (dict_ht d table)" "pos < length c"
    using ref by (simp_all add: ref_ok_def c_def)
  have used: "length c \<le> ht_used (dict_ht d table)"
    unfolding c_def using ok(2) dict_core_ht [OF core] by (rule ht_used_chain)
  have ne: "c \<noteq> []" using ok(3) by auto
  have len: "length c = Suc (length c')" using ok(3) by (simp add: c'_def)
  have eq: "d' = dict_ht_update table
      (\<lambda>ht. ht\<lparr>ht_table := (ht_table ht)[idx := c'], ht_used := ht_used (dict_ht d table) - 1\<rparr>) d"
    by (simp add: d'_def c'_def c_def dict_ht_update_def dict_ht_def)
  have idx: "ht_index (hashFunction t (de_key f)) (dict_ht d table) = idx" if "f \<in> set c'" for f
    using that ref_index [OF core ref, of f] in_set_takeD [of f pos c] in_set_dropD [of f "Suc pos" c]
    by (auto simp: c'_def c_def)
  note ch = dict_set_chain [OF core ok(1,2) disjI1 [OF ne [unfolded c_def]],
      of c' "ht_used (dict_ht d table) - 1", OF idx, folded eq c_def]
  have d': "dict_core t d'" "dict_bag d' + mset c = dict_bag d + mset c'" "pauserehash d' = pauserehash d"
    using ch len used by simp_all
  have "mset c = add_mset (c ! pos) (mset c')"
    using ok(3) id_take_nth_drop [OF ok(3)] unfolding c'_def
    by (metis mset_append mset.simps(2) union_mset_add_mset_right)
  then have "add_mset (c ! pos) (dict_bag d') + mset c' = dict_bag d + mset c'" using d'(2) by simp
  then have bag: "dict_bag d = add_mset (c ! pos) (dict_bag d')" using add_right_imp_eq by metis
  have e: "dict_deref d (table, idx, pos) = c ! pos" by (simp add: dict_deref_def c_def)
  have "keys_equal t (de_key (c ! pos)) k" using key eq_sym by (simp add: e key_matches_iff)
  from dict_inv_remove [OF inv d'(1) bag this] d'(3) show ?thesis
    using dict_core_size [OF core] dict_core_size [OF d'(1)] bag by (simp add: e)
qed

lemma dictGenericDelete_spec:
  assumes inv: "dict_inv t d"
  shows "\<exists>d' r. dictGenericDelete t d key = Some (d', r) \<and> dict_inv t d' \<and>
    pauserehash d' = pauserehash d \<and> map_option de_val r = dict_map t d key \<and>
    dict_map t d' = map_del t (dict_map t d) key \<and>
    dictSize d = dictSize d' + (if dict_map t d key = None then 0 else 1)"
proof (cases "dict_bag d = {#}")
  case True
  then have "dictSize d = 0" using inv dict_core_size by (metis dict_inv_core size_empty)
  moreover have "dict_map t d = (\<lambda>k. None)" using True dict_map_None [OF inv] by auto
  ultimately show ?thesis using inv by (simp add: dictGenericDelete_def dictSize_def map_del_def)
next
  case False
  have nz: "\<not> (ht_used (ht0 d) = 0 \<and> ht_used (ht1 d) = 0)"
    using False dict_core_size [of t d] inv nonempty_has_size [of "dict_bag d"]
    by (auto simp: dictSize_def dict_inv_core)
  obtain d1 where d1: "(if dictIsRehashing d then dictRehashStep_u t d else Some d) = Some d1"
    "dict_inv t d1" "dict_map t d1 = dict_map t d" "dict_bag d1 = dict_bag d" "pauserehash d1 = pauserehash d"
    "dictSize d1 = dictSize d" using dict_step_state [OF inv] .
  have hb: "has_buckets d1" using has_buckets_bag [of t d1] d1(2,4) False by (simp add: dict_inv_core)
  obtain r i where s: "dict_search t d1 key (hashFunction t key) = Some (r, i)"
    "dict_map t d1 key = map_option (de_val \<circ> dict_deref d1) r"
    "case r of
       None \<Rightarrow> i = ht_index (hashFunction t key) (dict_ht d1 (target d1)) \<and> i < ht_size (dict_ht d1 (target d1))
     | Some ref \<Rightarrow> ref_ok d1 ref \<and> key_matches t key (dict_deref d1 ref)"
    using dict_search_map [OF d1(2) hb, of key] by (elim exE conjE) rule
  show ?thesis
  proof (cases r)
    case None
    then have none: "dict_map t d key = None" using s(2) d1(3) by simp
    then have "\<And>k. keys_equal t k key \<Longrightarrow> dict_map t d k = None"
      using dict_map_None [OF inv] match_cong by blast
    then have "map_del t (dict_map t d) key = dict_map t d" by (auto simp: map_del_def)
    moreover have "dictGenericDelete t d key = Some (d1, None)"
      using nz s(1) None by (simp only: dictGenericDelete_def d1(1)) simp
    ultimately show ?thesis using none d1(2,3,5,6) by simp
  next
    case (Some ref)
    obtain table idx pos where ref: "ref = (table, idx, pos)" by (cases ref)
    have ok: "ref_ok d1 (table, idx, pos)" "key_matches t key (dict_deref d1 (table, idx, pos))"
      using s(3) Some ref by simp_all
    note u = dict_unlink_ref [OF d1(2) ok]
    define d2 where "d2 = dict_ht_update table
      (\<lambda>ht. ht\<lparr>ht_table := (ht_table ht)[idx :=
                  take pos (ht_table ht ! idx) @ drop (Suc pos) (ht_table ht ! idx)],
               ht_used := ht_used ht - 1\<rparr>) d1"
    have "dictGenericDelete t d key = Some (d2, Some (dict_deref d1 (table, idx, pos)))"
      using nz s(1) Some ref by (simp only: dictGenericDelete_def d1(1)) (simp add: d2_def)
    then show ?thesis using u [folded d2_def] d1(3,5,6) by simp
  qed
qed


lemma dictRehash_spec:
  assumes "dict_inv t d"
  shows "\<exists>d' b. dictRehash t d n = Some (d', b) \<and> dict_inv t d' \<and> dict_map t d' = dict_map t d \<and>
    dictSize d' = dictSize d \<and> pauserehash d' = pauserehash d \<and> b = dictIsRehashing d' \<and>
    (dictIsRehashing d' \<longrightarrow> ht_size (ht0 d') = ht_size (ht0 d) \<and>
       (0 < n \<longrightarrow> rehashidx d < rehashidx d'))"
proof -
  have core: "dict_core t d" using assms by (simp add: dict_inv_core)
  obtain d' b where d': "dictRehash t d n = Some (d', b)" "dict_core t d'" "dict_bag d' = dict_bag d"
    "pauserehash d' = pauserehash d" "b = dictIsRehashing d'"
    "dictIsRehashing d' \<longrightarrow> dictIsRehashing d \<and> rehashidx d \<le> rehashidx d' \<and>
       (0 < n \<longrightarrow> rehashidx d < rehashidx d') \<and>
       ht_size (ht0 d') = ht_size (ht0 d) \<and> ht_size (ht1 d') = ht_size (ht1 d)"
    using dictRehash_core [OF core, of n] by (elim exE conjE) rule
  have "dict_inv t d' \<and> dict_map t d' = dict_map t d" using dict_inv_same_bag [OF assms d'(2,3)] .
  moreover have "dictSize d' = dictSize d" using dict_core_size [OF core] dict_core_size [OF d'(2)] d'(3) by simp
  ultimately show ?thesis using d'(1,4-6) by auto
qed

text \<open>
  The time-bounded rehash returns after at most one call of \<open>dictRehash\<close> per bucket that is left,
  whatever the clock says.
\<close>

lemma rehash_ms_loop_spec:
  assumes "dict_inv t d"
  shows "\<exists>d' n. rehash_ms_loop t clock start ms d i r = Some (d', n) \<and> dict_inv t d' \<and>
    dict_map t d' = dict_map t d \<and> dictSize d' = dictSize d"
  using assms
proof (induction "nat (int (ht_size (ht0 d)) - rehashidx d)" arbitrary: d i r rule: less_induct)
  case less
  obtain d' b where d': "dictRehash t d 100 = Some (d', b)" "dict_inv t d'" "dict_map t d' = dict_map t d"
    "dictSize d' = dictSize d" "b = dictIsRehashing d'"
    "dictIsRehashing d' \<longrightarrow> ht_size (ht0 d') = ht_size (ht0 d) \<and> ((0 :: nat) < 100 \<longrightarrow> rehashidx d < rehashidx d')"
    using dictRehash_spec [OF less.prems, of 100] by (elim exE conjE) rule
  show ?case
  proof (cases b)
    case True
    then have "rehashidx d' \<le> int (ht_size (ht0 d'))"
      using d'(2,5) by (auto simp: dict_inv_def dictIsRehashing_def rehash_wf_def)
    then have "nat (int (ht_size (ht0 d')) - rehashidx d') < nat (int (ht_size (ht0 d)) - rehashidx d)"
      using True d'(5,6) by auto
    from less.hyps [OF this d'(2), of "i + 1" "r + 100"] show ?thesis
      using True d'(1-4) by (subst (1) rehash_ms_loop.simps) auto
  next
    case False
    then show ?thesis using d'(1-4) by (subst rehash_ms_loop.simps) auto
  qed
qed

end

section \<open>Clearing\<close>

lemma dictClear_loop_concat:
  "used = length (concat table) \<Longrightarrow> dictClear_loop table used = concat table"
  by (induction table arbitrary: used) auto

lemma dictClear_freed:
  assumes "ht_wf t ht" shows "snd (dictClear_u ht) = concat (ht_table ht)"
  using assms dictClear_loop_concat [of "ht_used ht" "ht_table ht"]
  by (simp add: dictClear_u_def ht_wf_def del: length_concat)

lemma dictEmpty_spec:
  assumes "dict_inv t d"
  shows "fst (dictEmpty d) = dictCreate \<and> mset (snd (dictEmpty d)) = dict_bag d"
proof -
  have "ht_wf t (ht0 d)" "ht_wf t (ht1 d)" using assms by (auto simp: dict_inv_def)
  note dictClear_freed [OF this(1)] dictClear_freed [OF this(2)]
  moreover have "fst (dictClear_u ht) = dictReset_u" for ht :: "('a, 'b) dictht"
    by (simp add: dictClear_u_def)
  ultimately show ?thesis
    by (simp add: dictEmpty_def dictCreate_def dictInit_u_def dict_bag_def ht_bag_def case_prod_unfold)
qed

lemma dict_inv_create [simp]: "dict_inv t dictCreate" "dict_map t dictCreate = (\<lambda>k. None)" "dictSize dictCreate = 0"
  by (auto simp: dict_inv_def dictCreate_def dictInit_u_def dict_entries_def distinct_keys_def dict_map_def
      dictSize_def)

section \<open>Reachable dictionaries\<close>

text \<open>
  The states a dictionary can get into by calls of the interface, with any arguments, any setting
  of \<open>dict_can_resize\<close>, any memory pressure and any use of the rehashing pause.
\<close>

inductive dict_step :: "('k, 'v) dictType \<Rightarrow> ('k, 'v) dict \<Rightarrow> ('k, 'v) dict \<Rightarrow> bool" for t where
  step_add: "dictAdd t can junk d key v = Some (d', ok) \<Longrightarrow> dictSize d < 2 ^ 60 \<Longrightarrow> dict_step t d d'"
| step_add_raw: "dictAddRaw t can junk d key = Some (d', r) \<Longrightarrow> dictSize d < 2 ^ 60 \<Longrightarrow> dict_step t d d'"
| step_replace: "dictReplace t can junk d key v = Some (d', ok) \<Longrightarrow> dictSize d < 2 ^ 60 \<Longrightarrow> dict_step t d d'"
| step_delete: "dictGenericDelete t d key = Some (d', r) \<Longrightarrow> dict_step t d d'"
| step_find: "dictFind t d key = Some (d', r) \<Longrightarrow> dict_step t d d'"
| step_expand: "dictExpand_u d sz malloc = Some (d', ok, mf) \<Longrightarrow> dict_step t d d'"
| step_resize: "dictResize can d = Some (d', ok) \<Longrightarrow> dict_step t d d'"
| step_rehash: "dictRehash t d n = Some (d', b) \<Longrightarrow> dict_step t d d'"
| step_rehash_ms: "dictRehashMilliseconds t clock d ms = Some (d', n) \<Longrightarrow> dict_step t d d'"
| step_pause: "dict_step t d (dictPauseRehashing d)"
| step_resume: "dict_step t d (dictResumeRehashing d)"
| step_empty: "dict_step t d (fst (dictEmpty d))"

inductive dict_reachable :: "('k, 'v) dictType \<Rightarrow> ('k, 'v) dict \<Rightarrow> bool" for t where
  reach_create: "dict_reachable t dictCreate"
| reach_step: "dict_reachable t d \<Longrightarrow> dict_step t d d' \<Longrightarrow> dict_reachable t d'"

lemma dict_inv_pause: "dict_inv t (d\<lparr>pauserehash := n\<rparr>) = dict_inv t d"
  by (simp add: dict_inv_def dict_entries_def rehash_wf_def)

context dict_type
begin

lemma dictExpand_inv:
  assumes "dict_inv t d" "dictExpand_u d sz malloc = Some (d', ok, mf)"
  shows "dict_inv t d' \<and> dict_map t d' = dict_map t d"
proof -
  have "dict_core t d" using assms(1) by (simp add: dict_inv_core)
  from dictExpand_u_spec [OF this, of sz malloc] assms(2) have "dict_core t d'" "dict_bag d' = dict_bag d" by auto
  then show ?thesis using dict_inv_same_bag [OF assms(1)] by blast
qed

lemma dictResize_inv:
  assumes "dict_inv t d" "dictResize can d = Some (d', ok)"
  shows "dict_inv t d' \<and> dict_map t d' = dict_map t d"
  using assms dictExpand_inv [OF assms(1)]
  by (auto simp: dictResize_def dictExpand_def Let_def split: if_splits)

lemma dict_step_inv:
  assumes "dict_step t d d'" "dict_inv t d"
  shows "dict_inv t d'"
  using assms
proof cases
  case (step_add can junk key v ok)
  then show ?thesis using dictAdd_spec [OF assms(2) step_add(2), of can junk key v] by auto
next
  case (step_add_raw can junk key r)
  then show ?thesis using dictAddRaw_spec [OF assms(2) step_add_raw(2), of can junk key] by auto
next
  case (step_replace can junk key v ok)
  then show ?thesis using dictReplace_spec [OF assms(2) step_replace(2), of can junk key v] by auto
next
  case (step_delete key r)
  then show ?thesis using dictGenericDelete_spec [OF assms(2), of key] by auto
next
  case (step_find key r)
  then show ?thesis using dictFind_spec [OF assms(2), of key] by auto
next
  case (step_rehash n b)
  then show ?thesis using dictRehash_spec [OF assms(2), of n] by auto
next
  case (step_rehash_ms clock ms n)
  then show ?thesis using rehash_ms_loop_spec [OF assms(2), of clock "clock 0" ms 1 0] assms(2)
    by (auto simp: dictRehashMilliseconds_def split: if_splits)
next
  case step_expand
  then show ?thesis using dictExpand_inv [OF assms(2)] by blast
next
  case step_resize
  then show ?thesis using dictResize_inv [OF assms(2)] by blast
next
  case step_empty
  then show ?thesis using dictEmpty_spec [OF assms(2)] by simp
qed (use assms(2) in \<open>simp_all add: dictPauseRehashing_def dictResumeRehashing_def dict_inv_pause\<close>)

lemma dict_reachable_inv: "dict_reachable t d \<Longrightarrow> dict_inv t d"
  by (induction rule: dict_reachable.induct) (auto intro: dict_step_inv)

end

end
