(* ===== verification/Siphash.thy ===== *)
theory Siphash
  imports Redis_Prelude
begin

text \<open>
  The keyed hash function of the dictionaries (\<open>siphash.c\<close>), in its variant with one compression
  and two finalization rounds, and its case-insensitive version. The input is the list of its
  bytes, the key a list of 16 bytes.
\<close>

definition siptlw :: "byte \<Rightarrow> byte" where
  "siptlw c = (if 65 \<le> c \<and> c \<le> 90 then c + (97 - 65) else c)"

definition ROTL :: "u64 \<Rightarrow> nat \<Rightarrow> u64" where
  "ROTL x b = push_bit b x OR drop_bit (64 - b) x"

definition U8TO64_LE :: "byte list \<Rightarrow> u64" where
  "U8TO64_LE p =
     ucast (p ! 0) OR push_bit 8 (ucast (p ! 1)) OR push_bit 16 (ucast (p ! 2)) OR
     push_bit 24 (ucast (p ! 3)) OR push_bit 32 (ucast (p ! 4)) OR push_bit 40 (ucast (p ! 5)) OR
     push_bit 48 (ucast (p ! 6)) OR push_bit 56 (ucast (p ! 7))"

definition U8TO64_LE_NOCASE :: "byte list \<Rightarrow> u64" where
  "U8TO64_LE_NOCASE p =
     ucast (siptlw (p ! 0)) OR push_bit 8 (ucast (siptlw (p ! 1))) OR
     push_bit 16 (ucast (siptlw (p ! 2))) OR push_bit 24 (ucast (siptlw (p ! 3))) OR
     push_bit 32 (ucast (siptlw (p ! 4))) OR push_bit 40 (ucast (siptlw (p ! 5))) OR
     push_bit 48 (ucast (siptlw (p ! 6))) OR push_bit 56 (ucast (siptlw (p ! 7)))"

type_synonym sip_state = "u64 \<times> u64 \<times> u64 \<times> u64"

definition SIPROUND :: "sip_state \<Rightarrow> sip_state" where
  "SIPROUND s =
     (let (v0, v1, v2, v3) = s;
          v0 = v0 + v1; v1 = ROTL v1 13; v1 = v1 XOR v0; v0 = ROTL v0 32;
          v2 = v2 + v3; v3 = ROTL v3 16; v3 = v3 XOR v2;
          v0 = v0 + v3; v3 = ROTL v3 21; v3 = v3 XOR v0;
          v2 = v2 + v1; v1 = ROTL v1 17; v1 = v1 XOR v2; v2 = ROTL v2 32
      in (v0, v1, v2, v3))"

definition sip_init :: "byte list \<Rightarrow> sip_state" where
  "sip_init k =
     (let k0 = U8TO64_LE k; k1 = U8TO64_LE (drop 8 k)
      in (0x736f6d6570736575 XOR k0, 0x646f72616e646f6d XOR k1,
          0x6c7967656e657261 XOR k0, 0x7465646279746573 XOR k1))"

text \<open>The rounds over the whole 8-byte blocks, and what is done with the last partial block.\<close>

definition sip_compress :: "sip_state \<Rightarrow> u64 \<Rightarrow> sip_state" where
  "sip_compress s m =
     (let (v0, v1, v2, v3) = s; (v0, v1, v2, v3) = SIPROUND (v0, v1, v2, v3 XOR m)
      in (v0 XOR m, v1, v2, v3))"

definition sip_finish :: "sip_state \<Rightarrow> u64 \<Rightarrow> u64" where
  "sip_finish s b =
     (let (v0, v1, v2, v3) = sip_compress s b;
          (v0, v1, v2, v3) = SIPROUND (SIPROUND (v0, v1, v2 XOR 0xff, v3))
      in v0 XOR v1 XOR v2 XOR v3)"

primrec siphash_blocks :: "nat \<Rightarrow> byte list \<Rightarrow> sip_state \<Rightarrow> sip_state" where
  "siphash_blocks 0 inp s = s"
| "siphash_blocks (Suc n) inp s = siphash_blocks n (drop 8 inp) (sip_compress s (U8TO64_LE inp))"

definition siphash_tail :: "byte list \<Rightarrow> nat \<Rightarrow> u64 \<Rightarrow> u64" where
  "siphash_tail inp left b =
     (let b = (if left \<ge> 7 then b OR push_bit 48 (ucast (inp ! 6)) else b);
          b = (if left \<ge> 6 then b OR push_bit 40 (ucast (inp ! 5)) else b);
          b = (if left \<ge> 5 then b OR push_bit 32 (ucast (inp ! 4)) else b);
          b = (if left \<ge> 4 then b OR push_bit 24 (ucast (inp ! 3)) else b);
          b = (if left \<ge> 3 then b OR push_bit 16 (ucast (inp ! 2)) else b);
          b = (if left \<ge> 2 then b OR push_bit 8 (ucast (inp ! 1)) else b);
          b = (if left \<ge> 1 then b OR ucast (inp ! 0) else b)
      in b)"

definition siphash :: "byte list \<Rightarrow> byte list \<Rightarrow> u64" where
  "siphash inp k =
     (let n = length inp div 8; left = length inp mod 8; b = push_bit 56 (of_nat (length inp));
          s = siphash_blocks n inp (sip_init k)
      in sip_finish s (siphash_tail (drop (8 * n) inp) left b))"

primrec siphash_nocase_blocks :: "nat \<Rightarrow> byte list \<Rightarrow> sip_state \<Rightarrow> sip_state" where
  "siphash_nocase_blocks 0 inp s = s"
| "siphash_nocase_blocks (Suc n) inp s =
     siphash_nocase_blocks n (drop 8 inp) (sip_compress s (U8TO64_LE_NOCASE inp))"

definition siphash_nocase_tail :: "byte list \<Rightarrow> nat \<Rightarrow> u64 \<Rightarrow> u64" where
  "siphash_nocase_tail inp left b =
     (let b = (if left \<ge> 7 then b OR push_bit 48 (ucast (siptlw (inp ! 6))) else b);
          b = (if left \<ge> 6 then b OR push_bit 40 (ucast (siptlw (inp ! 5))) else b);
          b = (if left \<ge> 5 then b OR push_bit 32 (ucast (siptlw (inp ! 4))) else b);
          b = (if left \<ge> 4 then b OR push_bit 24 (ucast (siptlw (inp ! 3))) else b);
          b = (if left \<ge> 3 then b OR push_bit 16 (ucast (siptlw (inp ! 2))) else b);
          b = (if left \<ge> 2 then b OR push_bit 8 (ucast (siptlw (inp ! 1))) else b);
          b = (if left \<ge> 1 then b OR ucast (siptlw (inp ! 0)) else b)
      in b)"

definition siphash_nocase :: "byte list \<Rightarrow> byte list \<Rightarrow> u64" where
  "siphash_nocase inp k =
     (let n = length inp div 8; left = length inp mod 8; b = push_bit 56 (of_nat (length inp));
          s = siphash_nocase_blocks n inp (sip_init k)
      in sip_finish s (siphash_nocase_tail (drop (8 * n) inp) left b))"

section \<open>The case-insensitive hash is the hash of the lower-case string\<close>

lemma load_nocase:
  assumes "8 \<le> length p" shows "U8TO64_LE_NOCASE p = U8TO64_LE (map siptlw p)"
proof -
  have "map siptlw p ! 0 = siptlw (p ! 0)" using assms by (intro nth_map) auto
  then show ?thesis using assms by (simp add: U8TO64_LE_NOCASE_def U8TO64_LE_def)
qed

lemma blocks_nocase:
  "8 * n \<le> length inp \<Longrightarrow> siphash_nocase_blocks n inp s = siphash_blocks n (map siptlw inp) s"
  by (induction n arbitrary: inp s) (auto simp: load_nocase drop_map)

lemma tail_nocase:
  assumes "left \<le> length inp"
  shows "siphash_nocase_tail inp left b = siphash_tail (map siptlw inp) left b"
proof -
  have "map siptlw inp ! 0 = siptlw (inp ! 0)" if "Suc 0 \<le> left" using assms that by (intro nth_map) auto
  then show ?thesis using assms by (simp add: siphash_nocase_tail_def siphash_tail_def Let_def)
qed

lemma siphash_nocase_lower: "siphash_nocase inp k = siphash (map siptlw inp) k"
proof -
  have "8 * (length inp div 8) \<le> length inp" by simp
  moreover have "length inp mod 8 = length (drop (8 * (length inp div 8)) inp)"
    by (simp add: minus_mult_div_eq_mod)
  ultimately show ?thesis
    by (simp add: siphash_nocase_def siphash_def Let_def blocks_nocase tail_nocase drop_map)
qed

end
