(* ===== verification/Util_Num.thy ===== *)
theory Util_Num
  imports Redis_Prelude
begin

text \<open>
  The conversions between integers and strings of \<open>util.c\<close>. Strings are lists of bytes; a buffer
  of \<open>dstlen\<close> bytes is the list of its contents, and a write outside it is \<open>None\<close>. The functions
  of the C library that the code calls (\<open>strtoull\<close>, \<open>strtoll\<close>, \<open>strcasecmp\<close>, in the C locale) are
  modelled on the strings the code passes to them, without the terminating null byte.
\<close>

abbreviation LLONG_MAX :: int where "LLONG_MAX \<equiv> 2 ^ 63 - 1"
abbreviation LLONG_MIN :: int where "LLONG_MIN \<equiv> - (2 ^ 63)"
abbreviation ULLONG_MAX :: nat where "ULLONG_MAX \<equiv> 2 ^ 64 - 1"

definition str :: "string \<Rightarrow> byte list" where
  "str s = map of_char s"

section \<open>Lengths of decimal representations\<close>

fun digits10 :: "nat \<Rightarrow> nat" where
  "digits10 v =
     (if v < 10 then 1 else if v < 100 then 2 else if v < 1000 then 3
      else if v < 1000000000000 then
        (if v < 100000000 then
           (if v < 1000000 then (if v < 10000 then 4 else 5 + (if v \<ge> 100000 then 1 else 0))
            else 7 + (if v \<ge> 10000000 then 1 else 0))
         else if v < 10000000000 then 9 + (if v \<ge> 1000000000 then 1 else 0)
         else 11 + (if v \<ge> 100000000000 then 1 else 0))
      else 12 + digits10 (v div 1000000000000))"

declare digits10.simps [simp del]

definition sdigits10 :: "int \<Rightarrow> nat" where
  "sdigits10 v =
     (if v < 0 then
        (let uv = (if v \<noteq> LLONG_MIN then nat (- v) else nat LLONG_MAX + 1) in digits10 uv + 1)
      else digits10 (nat v))"

section \<open>Printing\<close>

definition digits_table :: "byte list" where
  "digits_table = str
    (''0001020304050607080910111213141516171819'' @
     ''2021222324252627282930313233343536373839'' @
     ''4041424344454647484950515253545556575859'' @
     ''6061626364656667686970717273747576777879'' @
     ''8081828384858687888990919293949596979899'')"

text \<open>Writing one byte; the index is an integer, so that one below the buffer is outside it.\<close>

definition put_byte :: "byte list \<Rightarrow> int \<Rightarrow> byte \<Rightarrow> byte list option" where
  "put_byte dst i b = (if 0 \<le> i \<and> i < int (length dst) then Some (dst[nat i := b]) else None)"

function ll2string_loop :: "byte list \<Rightarrow> int \<Rightarrow> nat \<Rightarrow> (byte list \<times> int \<times> nat) option" where
  "ll2string_loop dst next_u value =
     (if value \<ge> 100 then
        (let i = (value mod 100) * 2; value = value div 100 in do {
           dst \<leftarrow> put_byte dst next_u (digits_table ! (i + 1));
           dst \<leftarrow> put_byte dst (next_u - 1) (digits_table ! i);
           ll2string_loop dst (next_u - 2) value })
      else Some (dst, next_u, value))"
  by pat_completeness auto
termination by (relation "measure (\<lambda>(dst, n, v). v)") auto

declare ll2string_loop.simps [simp del]

definition ll2string :: "byte list \<Rightarrow> int \<Rightarrow> (byte list \<times> nat) option" where
  "ll2string dst svalue =
     (let value = (if svalue < 0 then (if svalue \<noteq> LLONG_MIN then nat (- svalue) else nat LLONG_MAX + 1)
                   else nat svalue);
          negative = (if svalue < 0 then 1 else 0);
          len = digits10 value + negative
      in if len \<ge> length dst then Some (dst, 0)
         else do {
           dst \<leftarrow> put_byte dst (int len) 0;
           (dst, nxt, value) \<leftarrow> ll2string_loop dst (int len - 1) value;
           dst \<leftarrow> (if value < 10 then put_byte dst nxt (48 + of_nat value)
                   else do {
                     dst \<leftarrow> put_byte dst nxt (digits_table ! (value * 2 + 1));
                     put_byte dst (nxt - 1) (digits_table ! (value * 2)) });
           dst \<leftarrow> (if negative = 1 then put_byte dst 0 45 else Some dst);
           Some (dst, len) })"

section \<open>Parsing\<close>

definition is_digit :: "byte \<Rightarrow> bool" where
  "is_digit c \<longleftrightarrow> 48 \<le> c \<and> c \<le> 57"

text \<open>The loop over the digits after the first; the rest of the string is what it did not use.\<close>

fun string2ll_digits :: "nat \<Rightarrow> byte list \<Rightarrow> (nat \<times> byte list) option" where
  "string2ll_digits v [] = Some (v, [])"
| "string2ll_digits v (c # p) =
     (if is_digit c then
        (if v > ULLONG_MAX div 10 then None
         else if v * 10 > ULLONG_MAX - unat (c - 48) then None
         else string2ll_digits (v * 10 + unat (c - 48)) p)
      else Some (v, c # p))"

definition string2ll :: "byte list \<Rightarrow> int option" where
  "string2ll s =
     (if s = [] then None
      else if length s = 1 \<and> hd s = 48 then Some 0
      else
        (let negative = (hd s = 45); p = (if negative then tl s else s)
         in if p = [] then None
            else if \<not> (49 \<le> hd p \<and> hd p \<le> 57) then None
            else do {
              (v, rest) \<leftarrow> string2ll_digits (unat (hd p - 48)) (tl p);
              if rest \<noteq> [] then None
              else if negative then (if v > nat (- (LLONG_MIN + 1)) + 1 then None else Some (- int v))
              else (if v > nat LLONG_MAX then None else Some (int v)) }))"

definition string2l :: "byte list \<Rightarrow> int option" where
  "string2l s = do {
     llval \<leftarrow> string2ll s;
     if llval < LLONG_MIN \<or> llval > LLONG_MAX then None else Some llval }"

text \<open>\<open>strtoull\<close> and \<open>strtoll\<close> in base 10: value, rest of the string, and whether \<open>ERANGE\<close> is set.\<close>

definition is_space :: "byte \<Rightarrow> bool" where
  "is_space c \<longleftrightarrow> c = 32 \<or> 9 \<le> c \<and> c \<le> 13"

definition digits_val :: "byte list \<Rightarrow> nat" where
  "digits_val ds = foldl (\<lambda>v c. v * 10 + unat (c - 48)) 0 ds"

definition scan_number :: "byte list \<Rightarrow> bool \<times> byte list \<times> byte list" where
  "scan_number s =
     (let s = dropWhile is_space s;
          negative = (s \<noteq> [] \<and> hd s = 45);
          s = (if s \<noteq> [] \<and> (hd s = 45 \<or> hd s = 43) then tl s else s)
      in (negative, takeWhile is_digit s, dropWhile is_digit s))"

definition strtoull :: "byte list \<Rightarrow> nat \<times> byte list \<times> bool" where
  "strtoull s =
     (let (negative, ds, rest) = scan_number s; v = digits_val ds
      in if ds = [] then (0, s, False)
         else if v > ULLONG_MAX then (ULLONG_MAX, rest, True)
         else (if negative then (2 ^ 64 - v) mod 2 ^ 64 else v, rest, False))"

definition strtoll :: "byte list \<Rightarrow> int \<times> byte list \<times> bool" where
  "strtoll s =
     (let (negative, ds, rest) = scan_number s; v = (if negative then - int (digits_val ds) else int (digits_val ds))
      in if ds = [] then (0, s, False)
         else if v > LLONG_MAX then (LLONG_MAX, rest, True)
         else if v < LLONG_MIN then (LLONG_MIN, rest, True)
         else (v, rest, False))"

definition string2ull :: "byte list \<Rightarrow> nat option" where
  "string2ull s =
     (case string2ll s of
        Some ll \<Rightarrow> if ll < 0 then None else Some (nat ll)
      | None \<Rightarrow>
          (let (value, endptr, erange) = strtoull s
           in if erange \<or> \<not> (s \<noteq> [] \<and> endptr = []) then None else Some value))"

text \<open>
  \<open>memtoll\<close>: the result is the value and the error flag; \<open>None\<close> is the signed overflow of the
  multiplication. A C library may or may not set \<open>EINVAL\<close> when there are no digits: that is the
  argument \<open>einval\<close>.
\<close>

definition tolower :: "byte \<Rightarrow> byte" where
  "tolower c = (if 65 \<le> c \<and> c \<le> 90 then c + 32 else c)"

definition strcaseeq :: "byte list \<Rightarrow> byte list \<Rightarrow> bool" where
  "strcaseeq a b \<longleftrightarrow>
     map tolower (takeWhile (\<lambda>c. c \<noteq> 0) a) = map tolower (takeWhile (\<lambda>c. c \<noteq> 0) b)"

definition memtoll :: "bool \<Rightarrow> byte list \<Rightarrow> (int \<times> bool) option" where
  "memtoll einval p =
     (let sign = (if p \<noteq> [] \<and> hd p = 45 then [45] else []);
          ds = takeWhile is_digit (drop (length sign) p);
          u = dropWhile is_digit (drop (length sign) p);
          mul = (if u = [] \<or> strcaseeq u (str ''b'') then Some 1
                 else if strcaseeq u (str ''k'') then Some 1000
                 else if strcaseeq u (str ''kb'') then Some 1024
                 else if strcaseeq u (str ''m'') then Some (1000 * 1000)
                 else if strcaseeq u (str ''mb'') then Some (1024 * 1024)
                 else if strcaseeq u (str ''g'') then Some (1000 * 1000 * 1000)
                 else if strcaseeq u (str ''gb'') then Some (1024 * 1024 * 1024)
                 else None)
      in case mul of
           None \<Rightarrow> Some (0, True)
         | Some mul \<Rightarrow>
             (if length (sign @ ds) \<ge> 128 then Some (0, True)
              else
                (let (val, endptr, _) = strtoll (sign @ ds)
                 in if (val = 0 \<and> ds = [] \<and> einval) \<or> endptr \<noteq> [] then Some (0, True)
                    else if int_range 64 (val * mul) then Some (val * mul, False) else None)))"


section \<open>Decimal representations\<close>

fun dec :: "nat \<Rightarrow> byte list" where
  "dec v = (if v < 10 then [48 + of_nat v] else dec (v div 10) @ [48 + of_nat (v mod 10)])"

declare dec.simps [simp del]

definition print_int :: "int \<Rightarrow> byte list" where
  "print_int v = (if v < 0 then 45 # dec (nat (- v)) else dec (nat v))"

lemma length_dec_pos: "0 < length (dec v)"
  by (subst dec.simps) simp

lemma dec_split: "0 < k \<Longrightarrow> 10 ^ k \<le> v \<Longrightarrow> length (dec v) = k + length (dec (v div 10 ^ k))"
proof (induction k arbitrary: v)
  case (Suc k)
  have "(10 :: nat) ^ 1 \<le> 10 ^ Suc k" by (intro power_increasing) auto
  from le_trans [OF this Suc.prems(2)] have "10 \<le> v" by simp
  then have v: "length (dec v) = Suc (length (dec (v div 10)))" by (subst dec.simps) simp
  show ?case
  proof (cases "k = 0")
    case True
    then show ?thesis using v by simp
  next
    case False
    have "10 ^ k \<le> v div 10" using Suc.prems(2) by (simp add: less_eq_div_iff_mult_less_eq mult.commute)
    then show ?thesis using Suc.IH [of "v div 10"] False v by (simp add: div_mult2_eq)
  qed
qed simp

lemma length_dec_small: "v < 10 \<Longrightarrow> length (dec v) = 1"
  by (subst dec.simps) simp

lemma length_dec_le: "0 < k \<Longrightarrow> n < 10 ^ k \<Longrightarrow> length (dec n) \<le> k"
proof (induction k arbitrary: n)
  case (Suc k)
  show ?case
  proof (cases "n < 10")
    case False
    then have "0 < k" using Suc.prems by (cases k) auto
    moreover have "n div 10 < 10 ^ k" using Suc.prems by (simp add: less_mult_imp_div_less mult.commute)
    ultimately show ?thesis using Suc.IH [of "n div 10"] False by (simp add: dec.simps [of n])
  qed (simp add: dec.simps)
qed simp

lemma length_print_int:
  assumes "int64 v" shows "length (print_int v) \<le> 20"
proof -
  have "nat \<bar>v\<bar> < 10 ^ 19" using assms by (simp add: int_range_def) linarith
  then have "length (dec (nat \<bar>v\<bar>)) \<le> 19" by (intro length_dec_le) simp
  then show ?thesis by (auto simp: print_int_def)
qed

lemma digits10_length: "digits10 v = length (dec v)"
proof (induction v rule: digits10.induct)
  case (1 v)
  have len: "length (dec v) = k + 1" if "10 ^ k \<le> v" "v < 10 ^ (k + 1)" for k
  proof (cases "k = 0")
    case False
    have "v div 10 ^ k < 10" using that(2) by (simp add: less_mult_imp_div_less)
    then show ?thesis using dec_split [of k v] False that(1) by (simp add: length_dec_small)
  qed (use that in \<open>simp add: length_dec_small\<close>)
  consider (c0) "v < 10" | (c1) "10 \<le> v" "v < 100" | (c2) "100 \<le> v" "v < 1000" | (c3) "1000 \<le> v" "v < 10000"
    | (c4) "10000 \<le> v" "v < 100000" | (c5) "100000 \<le> v" "v < 1000000" | (c6) "1000000 \<le> v" "v < 10000000"
    | (c7) "10000000 \<le> v" "v < 100000000" | (c8) "100000000 \<le> v" "v < 1000000000"
    | (c9) "1000000000 \<le> v" "v < 10000000000" | (c10) "10000000000 \<le> v" "v < 100000000000"
    | (c11) "100000000000 \<le> v" "v < 1000000000000" | (c12) "1000000000000 \<le> v"
    unfolding not_less [symmetric] by blast
  then show ?case
  proof cases
    case c0 then show ?thesis by (simp add: digits10.simps [of v] length_dec_small)
  next
    case c1 then show ?thesis using len [of 1] by (simp add: digits10.simps [of v])
  next
    case c2 then show ?thesis using len [of 2] by (simp add: digits10.simps [of v])
  next
    case c3 then show ?thesis using len [of 3] by (simp add: digits10.simps [of v])
  next
    case c4 then show ?thesis using len [of 4] by (simp add: digits10.simps [of v])
  next
    case c5 then show ?thesis using len [of 5] by (simp add: digits10.simps [of v])
  next
    case c6 then show ?thesis using len [of 6] by (simp add: digits10.simps [of v])
  next
    case c7 then show ?thesis using len [of 7] by (simp add: digits10.simps [of v])
  next
    case c8 then show ?thesis using len [of 8] by (simp add: digits10.simps [of v])
  next
    case c9 then show ?thesis using len [of 9] by (simp add: digits10.simps [of v])
  next
    case c10 then show ?thesis using len [of 10] by (simp add: digits10.simps [of v])
  next
    case c11 then show ?thesis using len [of 11] by (simp add: digits10.simps [of v])
  next
    case c12 then show ?thesis using 1 dec_split [of 12 v] by (simp add: digits10.simps [of v])
  qed
qed

section \<open>Printing is exact\<close>

lemma digits_table_pairs:
  "digits_table = concat (map (\<lambda>n. [48 + of_nat (n div 10), 48 + of_nat (n mod 10)]) [0..<100])"
proof -
  have "[0..<100] = 0 # 1 # [2..<100 :: nat]"
    using upt_conv_Cons [of 0 100] upt_conv_Cons [of 1 100] by (simp add: numeral_2_eq_2 del: upt_conv_Cons upt_rec_numeral)
  then show ?thesis by (simp only:) (simp add: digits_table_def str_def of_char_def)
qed

lemma digits_table_nth:
  assumes "n < 100"
  shows "digits_table ! (n * 2) = 48 + of_nat (n div 10)" "digits_table ! (n * 2 + 1) = 48 + of_nat (n mod 10)"
proof -
  let ?f = "\<lambda>n. [48 + of_nat (n div 10), 48 + of_nat (n mod 10)] :: byte list"
  have "concat (map ?f xs) ! (k * 2) = 48 + of_nat (xs ! k div 10) \<and>
      concat (map ?f xs) ! (k * 2 + 1) = 48 + of_nat (xs ! k mod 10)" if "k < length xs" for xs :: "nat list" and k
    using that
  proof (induction xs arbitrary: k)
    case (Cons x xs)
    then show ?case by (cases k) auto
  qed simp
  from this [of n "[0..<100]"] assms
  show "digits_table ! (n * 2) = 48 + of_nat (n div 10)" "digits_table ! (n * 2 + 1) = 48 + of_nat (n mod 10)"
    unfolding digits_table_pairs by (simp_all del: upt_rec_numeral)
qed

lemma dec_last_two:
  assumes "100 \<le> v"
  shows "dec v = dec (v div 100) @ [48 + of_nat (v mod 100 div 10), 48 + of_nat (v mod 100 mod 10)]"
proof -
  have "v mod 100 div 10 = v div 10 mod 10" "v mod 100 mod 10 = v mod 10"
    using mod_mult2_eq [of v 10 10] by (simp_all add: mod_mod_cancel)
  moreover have "\<not> v div 10 < 10" using assms by linarith
  ultimately show ?thesis using assms by (simp add: dec.simps [of v] dec.simps [of "v div 10"] div_mult2_eq [symmetric])
qed

lemma ll2string_loop_spec:
  assumes "off + length (dec u) \<le> length dst"
  shows "\<exists>dst' v. ll2string_loop dst (int (off + length (dec u)) - 1) u =
      Some (dst', int (off + length (dec v)) - 1, v) \<and> v < 100 \<and> length dst' = length dst \<and> length (dec v) \<le> length (dec u) \<and>
    take (off + length (dec v)) dst' = take (off + length (dec v)) dst \<and>
    dec v @ drop (off + length (dec v)) dst' = dec u @ drop (off + length (dec u)) dst"
  using assms
proof (induction u arbitrary: dst rule: less_induct)
  case (less u)
  show ?case
  proof (cases "100 \<le> u")
    case False
    then show ?thesis by (subst ll2string_loop.simps) auto
  next
    case True
    define w where "w = u div 100"
    define a b :: byte where "a = 48 + of_nat (u mod 100 div 10)" and "b = 48 + of_nat (u mod 100 mod 10)"
    have dv: "dec u = dec w @ [a, b]" using dec_last_two [OF True] by (simp add: w_def a_def b_def)
    let ?n = "off + length (dec w)"
    let ?d = "dst[?n + 1 := b, ?n := a]"
    have n: "?n + 1 < length dst" using less.prems dv by simp
    have step: "ll2string_loop dst (int (off + length (dec u)) - 1) u = ll2string_loop ?d (int ?n - 1) w"
    proof -
      have i: "int (off + length (dec u)) - 1 = int (?n + 1)" using dv by simp
      have t: "digits_table ! (u mod 100 * 2) = a" "digits_table ! Suc (u mod 100 * 2) = b"
        using digits_table_nth [of "u mod 100"] by (simp_all add: a_def b_def)
      show ?thesis unfolding i using True n
        by (subst ll2string_loop.simps) (simp add: Let_def put_byte_def t w_def nat_add_distrib)
    qed
    have "w < u" using True by (simp add: w_def)
    then obtain dst' v where IH: "ll2string_loop ?d (int ?n - 1) w = Some (dst', int (off + length (dec v)) - 1, v)"
      "v < 100" "length dst' = length ?d" "take (off + length (dec v)) dst' = take (off + length (dec v)) ?d"
      "dec v @ drop (off + length (dec v)) dst' = dec w @ drop ?n ?d" and le: "length (dec v) \<le> length (dec w)"
      using less.IH [of w ?d] n by auto
    have d: "drop ?n ?d = a # b # drop (?n + 2) dst"
      using n by (simp add: drop_update_swap drop_update_cancel Cons_nth_drop_Suc [symmetric])
    have "take (off + length (dec v)) ?d = take (off + length (dec v)) dst" using le by simp
    then show ?thesis using step IH d dv le by (intro exI [of _ dst'] exI [of _ v]) simp
  qed
qed


lemma dec_two_digits:
  assumes "v < 100"
  shows "dec v = (if v < 10 then [48 + of_nat v] else [digits_table ! (v * 2), digits_table ! (v * 2 + 1)])"
  using assms digits_table_nth [of v] by (auto simp: dec.simps [of v] dec.simps [of "v div 10"])

lemma ll2string_last:
  assumes "v < 100" "off + length (dec v) \<le> length dst"
  shows "(if v < 10 then put_byte dst (int (off + length (dec v)) - 1) (48 + of_nat v)
          else do {
            dst \<leftarrow> put_byte dst (int (off + length (dec v)) - 1) (digits_table ! (v * 2 + 1));
            put_byte dst (int (off + length (dec v)) - 1 - 1) (digits_table ! (v * 2)) }) =
    Some (take off dst @ dec v @ drop (off + length (dec v)) dst)"
proof (cases "v < 10")
  case True
  then show ?thesis using assms dec_two_digits [OF assms(1)] by (simp add: put_byte_def upd_conv_take_nth_drop)
next
  case False
  let ?a = "digits_table ! (v * 2)" and ?b = "digits_table ! (v * 2 + 1)"
  have v: "dec v = [?a, ?b]" using False dec_two_digits [OF assms(1)] by simp
  then have off: "Suc off < length dst" using assms by simp
  have "dst[Suc off := ?b, off := ?a] = take off dst @ [?a, ?b] @ drop (off + 2) dst"
    using off by (auto simp: list_eq_iff_nth_eq nth_append nth_Cons' nth_list_update intro!: arg_cong [of _ _ "(!) dst"])
  moreover have "nat (int (Suc (Suc off)) - 1) = Suc off" "nat (int (Suc (Suc off)) - 2) = off" by simp_all
  ultimately show ?thesis using off False unfolding v by (simp add: put_byte_def del: of_nat_Suc)
qed

definition sign_len :: "int \<Rightarrow> nat" where
  "sign_len v = (if v < 0 then 1 else 0)"

lemma ll2string_spec:
  assumes "int_range 64 v"
  shows "ll2string dst v =
    (if length dst \<le> length (print_int v) then Some (dst, 0)
     else Some (print_int v @ 0 # drop (Suc (length (print_int v))) dst, length (print_int v)))"
proof -
  define u where "u = nat \<bar>v\<bar>"
  define off where "off = sign_len v"
  have u: "(if v < 0 then (if v \<noteq> LLONG_MIN then nat (- v) else nat LLONG_MAX + 1) else nat v) = u"
    by (auto simp: u_def)
  have p: "print_int v = replicate off 45 @ dec u" by (auto simp: print_int_def off_def sign_len_def u_def)
  define len where "len = off + length (dec u)"
  have len: "digits10 u + (if v < 0 then 1 else 0) = len" "length (print_int v) = len"
    by (simp_all add: digits10_length off_def sign_len_def len_def p)
  show ?thesis
  proof (cases "length dst \<le> len")
    case True
    then show ?thesis unfolding ll2string_def Let_def u len by simp
  next
    case False
    let ?d = "dst[len := 0]"
    obtain d' w where L: "ll2string_loop ?d (int len - 1) u = Some (d', int (off + length (dec w)) - 1, w)" "w < 100"
      "length d' = length ?d" "take (off + length (dec w)) d' = take (off + length (dec w)) ?d"
      "dec w @ drop (off + length (dec w)) d' = dec u @ drop len ?d" and le: "length (dec w) \<le> length (dec u)"
      using ll2string_loop_spec [of off u ?d] False unfolding len_def by auto
    have "off + length (dec w) \<le> length d'" using False L(3) le by (simp add: len_def)
    note last = ll2string_last [OF L(2) this]
    have t: "take off d' = take off dst"
      using arg_cong [OF L(4), of "take off"] by (simp add: min_def len_def)
    have d: "drop len ?d = 0 # drop (Suc len) dst" using False by (simp add: Cons_nth_drop_Suc [symmetric])
    have r: "take off d' @ dec w @ drop (off + length (dec w)) d' = take off dst @ dec u @ 0 # drop (Suc len) dst"
      using t d L(5) by simp
    have put: "put_byte dst (int len) 0 = Some ?d" using False by (simp add: put_byte_def)
    have sign: "v < 0 \<Longrightarrow> put_byte (take off dst @ xs) 0 45 = Some (replicate off 45 @ xs)"
      "\<not> v < 0 \<Longrightarrow> take off dst = replicate off 45" for xs
      using False by (cases dst; simp add: off_def sign_len_def put_byte_def)+
    show ?thesis unfolding ll2string_def Let_def u len put
      using False by (simp add: L(1) last r sign p del: of_nat_add of_nat_diff)
  qed
qed

section \<open>Parsing is exact\<close>

definition acc_digit :: "nat \<Rightarrow> byte \<Rightarrow> nat" where
  "acc_digit v c = v * 10 + unat (c - 48)"

lemma digits_val_foldl: "digits_val = foldl acc_digit 0"
  unfolding digits_val_def acc_digit_def by simp

lemma acc_digit_mono: "v \<le> foldl acc_digit v p"
proof (induction p arbitrary: v)
  case (Cons c p)
  have "v \<le> acc_digit v c" by (simp add: acc_digit_def)
  then show ?case using Cons [of "acc_digit v c"] by simp
qed simp

lemma is_digit_val: "is_digit c \<Longrightarrow> unat (c - 48) < 10"
  unfolding is_digit_def by (auto simp: unat_sub word_le_nat_alt)

lemma string2ll_digits_spec:
  "v \<le> ULLONG_MAX \<Longrightarrow>
   string2ll_digits v p = Some (w, []) \<longleftrightarrow> list_all is_digit p \<and> w = foldl acc_digit v p \<and> w \<le> ULLONG_MAX"
proof (induction p arbitrary: v)
  case (Cons c p)
  show ?case
  proof (cases "is_digit c")
    case True
    note d = is_digit_val [OF True]
    have "string2ll_digits v (c # p) = (if acc_digit v c \<le> ULLONG_MAX then string2ll_digits (acc_digit v c) p else None)"
      using True d by (auto simp: acc_digit_def)
    moreover have "acc_digit v c \<le> foldl acc_digit v (c # p)" using acc_digit_mono [of "acc_digit v c" p] by simp
    ultimately show ?thesis using Cons.IH [of "acc_digit v c"] True by auto
  qed simp
qed auto

lemma unat_digit: "d < 10 \<Longrightarrow> unat (48 + of_nat d :: byte) = 48 + d"
  by (simp add: unat_word_ariths unat_of_nat)

lemma is_digit_digit: "d < 10 \<Longrightarrow> is_digit (48 + of_nat d)"
  by (simp add: is_digit_def word_le_nat_alt unat_digit)

lemma digit_val: "d < 10 \<Longrightarrow> unat (of_nat d :: byte) = d"
  by (simp add: unat_of_nat)

lemma digit_of_val: "is_digit c \<Longrightarrow> 48 + of_nat (unat (c - 48)) = c" 
  by simp

lemma dec_digits: "list_all is_digit (dec v) \<and> dec v \<noteq> [] \<and> digits_val (dec v) = v \<and> (v \<noteq> 0 \<longrightarrow> hd (dec v) \<noteq> 48)"
proof (induction v rule: dec.induct)
  case (1 v)
  show ?case
  proof (cases "v < 10")
    case True
    have "(48 + of_nat v :: byte) \<noteq> 48" if "v \<noteq> 0"
    proof
      assume "(48 + of_nat v :: byte) = 48"
      then show False using unat_digit [OF True] that by simp
    qed
    then show ?thesis using True
      by (simp add: dec.simps [of v] is_digit_digit digits_val_def digit_val)
  next
    case False
    then show ?thesis using 1 False
      by (auto simp: dec.simps [of v] is_digit_digit digits_val_foldl acc_digit_def digit_val)
  qed
qed

lemma digits_val_pos: "list_all is_digit p \<Longrightarrow> p \<noteq> [] \<Longrightarrow> hd p \<noteq> 48 \<Longrightarrow> 0 < digits_val p"
proof (cases p)
  case (Cons c q)
  assume "hd p \<noteq> 48"
  then have "unat (c - 48) \<noteq> 0" using Cons by (simp add: unat_eq_0)
  then show ?thesis using acc_digit_mono [of "unat (c - 48)" q] Cons by (simp add: digits_val_foldl acc_digit_def)
qed simp

lemma dec_digits_val: "list_all is_digit p \<Longrightarrow> p \<noteq> [] \<Longrightarrow> hd p \<noteq> 48 \<Longrightarrow> dec (digits_val p) = p"
proof (induction p rule: rev_induct)
  case (snoc c p)
  have c: "unat (c - 48) < 10" "48 + of_nat (unat (c - 48)) = c" using snoc.prems(1) is_digit_val by auto
  show ?case
  proof (cases "p = []")
    case True
    then show ?thesis using c by (simp add: dec.simps digits_val_def)
  next
    case False
    then have "0 < digits_val p" "dec (digits_val p) = p" using snoc digits_val_pos [of p] by auto
    moreover have "digits_val (p @ [c]) = digits_val p * 10 + unat (c - 48)" by (simp add: digits_val_foldl acc_digit_def)
    ultimately show ?thesis using c by (subst dec.simps) simp
  qed
qed simp

lemma string2ll_Some:
  "p \<noteq> [] \<Longrightarrow> (49 \<le> hd p \<and> hd p \<le> 57) \<and> string2ll_digits (unat (hd p - 48)) (tl p) = Some (w, []) \<longleftrightarrow>
     p = dec w \<and> 0 < w \<and> w \<le> ULLONG_MAX"
proof (cases p)
  case (Cons c q)
  have c: "49 \<le> c \<and> c \<le> 57 \<longleftrightarrow> is_digit c \<and> c \<noteq> 48"
    unfolding is_digit_def by (auto simp: word_le_nat_alt unat_arith_simps)
  have "string2ll_digits (unat (c - 48)) q = Some (w, []) \<longleftrightarrow> list_all is_digit q \<and> w = digits_val p \<and> w \<le> ULLONG_MAX"
    if "is_digit c" using is_digit_val [OF that] Cons
    by (subst string2ll_digits_spec) (auto simp: digits_val_foldl acc_digit_def)
  then have "?thesis \<longleftrightarrow> (list_all is_digit p \<and> hd p \<noteq> 48 \<and> w = digits_val p \<and> w \<le> ULLONG_MAX \<longleftrightarrow>
      p = dec w \<and> 0 < w \<and> w \<le> ULLONG_MAX)"
    using c Cons by auto
  moreover have "list_all is_digit p \<and> hd p \<noteq> 48 \<and> w = digits_val p \<longleftrightarrow> p = dec w \<and> 0 < w"
    using dec_digits [of w] dec_digits_val [of p] digits_val_pos [of p] Cons by (metis list.discI not_gr_zero)
  ultimately show ?thesis by blast
qed simp

lemma dec_not_Nil [simp]: "dec w \<noteq> []" "[] \<noteq> dec w"
  using dec_digits [of w] by auto

lemma dec_zero [simp]: "dec 0 = [48]"
  by (simp add: dec.simps)

definition nonzero_number :: "byte list \<Rightarrow> nat \<Rightarrow> bool" where
  "nonzero_number p w \<longleftrightarrow> p = dec w \<and> 0 < w \<and> w \<le> ULLONG_MAX"

lemma bind_all_used:
  "(do { (v, rest) \<leftarrow> D; if rest \<noteq> [] then None else f v }) = Some r \<longleftrightarrow> (\<exists>w. D = Some (w, []) \<and> f w = Some r)"
  by (cases D) (auto split: if_splits)

lemma string2ll_body:
  "(if p = [] then None
    else if \<not> (49 \<le> hd p \<and> hd p \<le> 57) then None
    else do { (v, rest) \<leftarrow> string2ll_digits (unat (hd p - 48)) (tl p); if rest \<noteq> [] then None else f v }) = Some r \<longleftrightarrow>
   (\<exists>w. nonzero_number p w \<and> f w = Some r)"
proof (cases "p = []")
  case True
  then show ?thesis by (auto simp: nonzero_number_def)
next
  case False
  have "(\<exists>w. nonzero_number p w \<and> f w = Some r) \<longleftrightarrow>
    (\<exists>w. (49 \<le> hd p \<and> hd p \<le> 57) \<and> string2ll_digits (unat (hd p - 48)) (tl p) = Some (w, []) \<and> f w = Some r)"
    using string2ll_Some [OF False] unfolding nonzero_number_def by blast
  moreover have g: "(if \<not> c then None else X) = Some r \<longleftrightarrow> c \<and> X = Some r" for c and X :: "'a option" by simp
  ultimately show ?thesis unfolding if_not_P [OF False] g bind_all_used by simp
qed

lemma string2ll_unfold:
  "string2ll s = Some v \<longleftrightarrow>
     (if s = [48] then v = 0
      else if s \<noteq> [] \<and> hd s = 45 then \<exists>w. nonzero_number (tl s) w \<and> w \<le> 2 ^ 63 \<and> v = - int w
      else \<exists>w. nonzero_number s w \<and> w < 2 ^ 63 \<and> v = int w)"
proof -
  have one: "length s = 1 \<and> hd s = 48 \<longleftrightarrow> s = [48]" by (cases s) auto
  have "nat (- (LLONG_MIN + 1)) + 1 = 2 ^ 63" "nat LLONG_MAX = 2 ^ 63 - 1" by simp_all
  then have m: "(if w > nat (- (LLONG_MIN + 1)) + 1 then None else Some (- int w)) = Some v \<longleftrightarrow> w \<le> 2 ^ 63 \<and> v = - int w"
    "(if w > nat LLONG_MAX then None else Some (int w)) = Some v \<longleftrightarrow> w < 2 ^ 63 \<and> v = int w" for w
    by auto
  show ?thesis
  proof (cases "s = [] \<or> s = [48]")
    case True
    then show ?thesis by (auto simp: string2ll_def nonzero_number_def)
  next
    case False
    then have s: "s \<noteq> []" "s \<noteq> [48]" by auto
    have "string2ll s = Some v \<longleftrightarrow> (\<exists>w. nonzero_number (if hd s = 45 then tl s else s) w \<and>
        (if hd s = 45 then if w > nat (- (LLONG_MIN + 1)) + 1 then None else Some (- int w)
         else if w > nat LLONG_MAX then None else Some (int w)) = Some v)"
      unfolding string2ll_def Let_def one if_not_P [OF s(1)] if_not_P [OF s(2)] by (rule string2ll_body)
    then show ?thesis using s m by (cases "hd s = 45") (simp_all only: if_True if_False simp_thms)
  qed
qed

lemma is_digit_45: "\<not> is_digit 45"
  by (simp add: is_digit_def)

lemma string2ll_spec: "string2ll s = Some v \<longleftrightarrow> s = print_int v \<and> int_range 64 v"
proof -
  have "is_digit (hd (dec w))" for w using dec_digits [of w] by (simp add: list_all_iff)
  then have n: "hd (dec w) \<noteq> 45" "0 < w \<Longrightarrow> dec w \<noteq> [48]" for w
    by (metis is_digit_45) (use dec_digits [of w] in auto)
  show ?thesis
  proof
    assume "string2ll s = Some v"
    then show "s = print_int v \<and> int_range 64 v" unfolding string2ll_unfold nonzero_number_def
      by (cases s) (auto simp: print_int_def int_range_def split: if_splits)
  next
    assume "s = print_int v \<and> int_range 64 v"
    then have s: "s = print_int v" and v: "- (2 ^ 63) \<le> v" "v < 2 ^ 63" by (simp_all add: int_range_def)
    consider "v = 0" | "v < 0" | "0 < v" by linarith
    then show "string2ll s = Some v"
    proof cases
      case 1
      then show ?thesis by (simp add: s print_int_def string2ll_def)
    next
      case 2
      then show ?thesis unfolding string2ll_unfold nonzero_number_def s using v
        by (auto simp: print_int_def intro!: exI [of _ "nat (- v)"])
    next
      case 3
      then show ?thesis unfolding string2ll_unfold nonzero_number_def s using v n [of "nat v"]
        by (auto simp: print_int_def intro!: exI [of _ "nat v"])
    qed
  qed
qed

section \<open>Properties\<close>

text \<open>
  C36. For every 64-bit value, \<open>ll2string\<close> either finds the buffer too small and returns 0 with the
  buffer untouched, or writes exactly the decimal representation followed by a null byte, returns
  its length, and changes nothing after the null byte. No write is outside the buffer.
\<close>

theorem ll2string_correct:
  assumes "int64 v"
  shows "ll2string dst v =
    (if length dst \<le> length (print_int v) then Some (dst, 0)
     else Some (print_int v @ 0 # drop (Suc (length (print_int v))) dst, length (print_int v)))"
  using assms by (rule ll2string_spec)

theorem ll2string_correct_witness:
  "ll2string (replicate 8 1) (- 1205) = Some (str ''-1205'' @ [0, 1, 1], 5)"
proof -
  have "print_int (- 1205) = str ''-1205''"
    by (simp add: print_int_def str_def dec.simps of_char_def)
  then show ?thesis using ll2string_correct [of "- 1205" "replicate 8 1"]
    by (simp add: int_range_def str_def numeral_eq_Suc)
qed

text \<open>
  C28. \<open>string2ll\<close> accepts exactly the canonical decimal representations of the 64-bit integers: a
  string is accepted with a value if and only if it is the representation that printing the value
  gives. Leading zeros, plus signs, spaces, \<open>-0\<close>, trailing characters and values outside the range
  are all refused.
\<close>

theorem string2ll_exact: "string2ll s = Some v \<longleftrightarrow> s = print_int v \<and> int64 v"
  by (rule string2ll_spec)

text \<open>
  C29. Printing and parsing are inverse: what \<open>ll2string\<close> writes in a large enough buffer is read back by
  \<open>string2ll\<close> as the same value, for every 64-bit value including \<open>LLONG_MIN\<close>.
\<close>

theorem string2ll_ll2string:
  assumes "int64 v" "length (print_int v) < length dst"
  shows "\<exists>dst' n. ll2string dst v = Some (dst', n) \<and> string2ll (take n dst') = Some v"
  using assms by (simp add: ll2string_spec string2ll_spec)

theorem string2ll_ll2string_witness:
  "\<exists>dst' n. ll2string (replicate 21 0) LLONG_MIN = Some (dst', n) \<and> string2ll (take n dst') = Some LLONG_MIN"
  by (rule string2ll_ll2string) (simp_all add: int_range_def print_int_def dec.simps)

lemma sdigits10_correct: "int64 v \<Longrightarrow> sdigits10 v = length (print_int v)"
  by (simp add: sdigits10_def print_int_def digits10_length int_range_def)

lemma takeWhile_digits: "list_all is_digit ds \<Longrightarrow> takeWhile is_digit ds = ds" "list_all is_digit ds \<Longrightarrow> dropWhile is_digit ds = []"
  by (simp_all add: list_all_iff takeWhile_eq_all_conv dropWhile_eq_Nil_conv)

text \<open>
  C37. \<open>string2ull\<close> means to refuse negative numbers, and does so for the canonical ones. A negative
  number after a space is not canonical, so it reaches \<open>strtoull\<close>, which negates it modulo \<open>2^64\<close>:
  the string is accepted with a huge positive value.
\<close>

theorem string2ull_negative:
  assumes "0 < n" "n < 2 ^ 63"
  shows "string2ull (45 # dec n) = None \<and> string2ull (32 # 45 # dec n) = Some (2 ^ 64 - n)"
proof
  have c: "string2ll (45 # dec n) = Some (- int n)" using assms by (simp add: string2ll_spec print_int_def int_range_def)
  then show "string2ull (45 # dec n) = None" using assms by (simp add: string2ull_def)
  have "string2ll (32 # 45 # dec n) = None"
  proof (cases "string2ll (32 # 45 # dec n)")
    case (Some v)
    then have "32 # 45 # dec n = print_int v" by (simp add: string2ll_spec)
    moreover have "is_digit (hd (dec (nat v)))" using dec_digits [of "nat v"] by (simp add: list_all_iff)
    ultimately show ?thesis by (auto simp: print_int_def is_digit_def split: if_splits dest!: arg_cong [of _ _ hd])
  qed
  then show "string2ull (32 # 45 # dec n) = Some (2 ^ 64 - n)"
    using assms dec_digits [of n]
    by (simp add: string2ull_def strtoull_def scan_number_def is_space_def Let_def takeWhile_digits)
qed

theorem string2ull_negative_witness: "string2ull (str '' -7'') = Some 18446744073709551609"
  using string2ull_negative [of 7] by (simp add: str_def dec.simps of_char_def)

text \<open>
  C38. \<open>memtoll\<close> neither looks at \<open>ERANGE\<close> nor checks its multiplication: a number of digits above the
  64-bit range is accepted as \<open>LLONG_MAX\<close> without an error, and a number of gigabytes from \<open>2^33\<close> on
  overflows the signed multiplication.
\<close>

theorem memtoll_overflow:
  assumes "length (dec n) < 128"
  shows "(n > 2 ^ 63 - 1 \<longrightarrow> memtoll e (dec n) = Some (LLONG_MAX, False)) \<and>
    (2 ^ 33 \<le> n \<and> n < 2 ^ 63 \<longrightarrow> memtoll e (dec n @ str ''gb'') = None)"
proof -
  have d: "list_all is_digit (dec n)" "digits_val (dec n) = n" using dec_digits [of n] by auto
  have h: "hd (dec n) \<noteq> 45" "\<not> is_space (hd (dec n))" "hd (dec n) \<noteq> 43"
  proof -
    have "is_digit (hd (dec n))" using d(1) by (simp add: list_all_iff)
    then show "hd (dec n) \<noteq> 45" "\<not> is_space (hd (dec n))" "hd (dec n) \<noteq> 43"
      by (auto simp: is_digit_def is_space_def word_le_nat_alt)
  qed
  obtain c cs where c: "dec n = c # cs" using dec_not_Nil(1) [of n] by (cases "dec n") auto
  have sc: "scan_number (dec n) = (False, dec n, [])"
    using h d(1) c takeWhile_digits [OF d(1)] unfolding scan_number_def by (simp add: Let_def)
  have sat: "memtoll e (dec n) = Some (LLONG_MAX, False)" if "n > 2 ^ 63 - 1"
    using assms that h d d(1) [unfolded list_all_iff]
    by (simp add: memtoll_def strtoll_def sc Let_def int_range_def takeWhile_digits [OF d(1)])
  have app: "takeWhile is_digit (dec n @ str ''gb'') = dec n" "dropWhile is_digit (dec n @ str ''gb'') = str ''gb''"
    using d(1) by (simp_all add: list_all_iff str_def is_digit_def of_char_def)
  have u: "str ''gb'' \<noteq> []" "strcaseeq (str ''gb'') (str ''gb'')" "\<not> strcaseeq (str ''gb'') (str ''b'')"
    "\<not> strcaseeq (str ''gb'') (str ''k'')" "\<not> strcaseeq (str ''gb'') (str ''kb'')" "\<not> strcaseeq (str ''gb'') (str ''m'')"
    "\<not> strcaseeq (str ''gb'') (str ''mb'')" "\<not> strcaseeq (str ''gb'') (str ''g'')"
    by (simp_all add: strcaseeq_def str_def of_char_def tolower_def)
  have "memtoll e (dec n @ str ''gb'') = None" if "2 ^ 33 \<le> n" "n < 2 ^ 63"
  proof -
    have "(9223372036854775808 :: int) \<le> int n * 1073741824" using that by simp
    then show ?thesis using assms that h(1) d
      unfolding memtoll_def by (simp add: app u strtoll_def sc Let_def int_range_def del: dropWhile_eq_Nil_conv)
  qed
  with sat show ?thesis by blast
qed

theorem memtoll_overflow_witness:
  "memtoll True (str ''99999999999999999999'') = Some (LLONG_MAX, False) \<and> memtoll True (str ''8589934592gb'') = None"
  using memtoll_overflow [of 99999999999999999999 True] memtoll_overflow [of 8589934592 True]
  by (simp add: str_def dec.simps of_char_def)

end
