(* ===== verification/Dict_Types.thy ===== *)
theory Dict_Types
  imports Dict Siphash Util_Num
begin

text \<open>
  The dictionary types of \<open>server.c\<close>: their hash and comparison callbacks, the laws of
  \<^term>\<open>dict_type\<close> for each of them, the policy that resizes the tables of a database, and the
  background rehashing. An sds string is the list of its bytes (shorter than \<open>2 ^ 31\<close> bytes, so that
  its length is an \<open>int\<close>). The seed of the hash functions, a global of \<open>dict.c\<close>, is the argument
  \<open>seed\<close>.
\<close>

type_synonym sds = "byte list"

section \<open>Hash functions and comparisons\<close>

definition dictGenHashFunction :: "byte list \<Rightarrow> byte list \<Rightarrow> u64" where
  "dictGenHashFunction seed key = siphash key seed"

definition dictGenCaseHashFunction :: "byte list \<Rightarrow> byte list \<Rightarrow> u64" where
  "dictGenCaseHashFunction seed buf = siphash_nocase buf seed"

definition dictSdsKeyCompare :: "sds \<Rightarrow> sds \<Rightarrow> bool" where
  "dictSdsKeyCompare key1 key2 = (if length key1 \<noteq> length key2 then False else key1 = key2)"

definition dictSdsKeyCaseCompare :: "sds \<Rightarrow> sds \<Rightarrow> bool" where
  "dictSdsKeyCaseCompare key1 key2 = strcaseeq key1 key2"

definition dictSdsHash :: "byte list \<Rightarrow> sds \<Rightarrow> u64" where
  "dictSdsHash seed key = dictGenHashFunction seed key"

definition dictSdsCaseHash :: "byte list \<Rightarrow> sds \<Rightarrow> u64" where
  "dictSdsCaseHash seed key = dictGenCaseHashFunction seed key"

text \<open>
  String objects as keys: the sds encodings hold a string, the encoding \<open>OBJ_ENCODING_INT\<close> a long in
  the pointer field. The objects with a static reference count are sds-encoded, for which decoding
  is the identity, so that the count is not part of the model. The buffer \<open>ll2string\<close> writes to has
  indeterminate contents, given by the argument \<open>junk\<close>.
\<close>

datatype strobj = SdsObj sds | IntObj "64 word"

definition char32 :: "(nat \<Rightarrow> byte) \<Rightarrow> byte list" where
  "char32 junk = map junk [0..<32]"

definition getDecodedObject :: "(nat \<Rightarrow> byte) \<Rightarrow> strobj \<Rightarrow> sds option" where
  "getDecodedObject junk obj =
     (case obj of
        SdsObj s \<Rightarrow> Some s
      | IntObj v \<Rightarrow> do { (buf, _) \<leftarrow> ll2string (char32 junk) (sint v); Some (takeWhile (\<lambda>c. c \<noteq> 0) buf) })"

definition dictObjHash :: "byte list \<Rightarrow> sds \<Rightarrow> u64" where
  "dictObjHash seed ptr = dictGenHashFunction seed ptr"

definition dictObjKeyCompare :: "sds \<Rightarrow> sds \<Rightarrow> bool" where
  "dictObjKeyCompare ptr1 ptr2 = dictSdsKeyCompare ptr1 ptr2"

definition dictEncObjKeyCompare :: "(nat \<Rightarrow> byte) \<Rightarrow> strobj \<Rightarrow> strobj \<Rightarrow> bool" where
  "dictEncObjKeyCompare junk o1 o2 =
     (case (o1, o2) of
        (IntObj v1, IntObj v2) \<Rightarrow> v1 = v2
      | _ \<Rightarrow> (case (getDecodedObject junk o1, getDecodedObject junk o2) of
                (Some s1, Some s2) \<Rightarrow> dictSdsKeyCompare s1 s2
              | _ \<Rightarrow> False))"

definition dictEncObjHash :: "byte list \<Rightarrow> (nat \<Rightarrow> byte) \<Rightarrow> strobj \<Rightarrow> u64" where
  "dictEncObjHash seed junk obj =
     (case obj of
        SdsObj s \<Rightarrow> dictGenHashFunction seed s
      | IntObj v \<Rightarrow> (case ll2string (char32 junk) (sint v) of
                       Some (buf, len) \<Rightarrow> dictGenHashFunction seed (take len buf)
                     | None \<Rightarrow> 0))"

section \<open>Memory limit\<close>

text \<open>
  The used ratio of \<open>expandAllowed\<close> is the pair of the used and the total slots. The product is the
  exact value of the comparison with \<open>1.618\<close>; the division of doubles decides the same for tables of
  fewer than \<open>2 ^ 40\<close> slots. \<open>mem_used\<close> and \<open>overhead\<close> are the readings of the allocator and of
  \<open>freeMemoryGetNotCountedMemory\<close>.
\<close>

record mem_state =
  maxmemory :: nat
  mem_used :: nat
  mem_overhead :: nat

definition overMaxmemoryAfterAlloc :: "mem_state \<Rightarrow> nat \<Rightarrow> bool" where
  "overMaxmemoryAfterAlloc mem moremem =
     (if maxmemory mem = 0 then False
      else if (mem_used mem + moremem) mod 2 ^ 64 \<le> maxmemory mem then False
      else
        (let used = (if mem_used mem > mem_overhead mem then mem_used mem - mem_overhead mem else 0)
         in (used + moremem) mod 2 ^ 64 > maxmemory mem))"

definition dictExpandAllowed :: "mem_state \<Rightarrow> nat \<Rightarrow> nat \<times> nat \<Rightarrow> bool" where
  "dictExpandAllowed mem moreMem usedRatio =
     (if fst usedRatio * 1000 \<le> 1618 * snd usedRatio then \<not> overMaxmemoryAfterAlloc mem moreMem else True)"

section \<open>The dictionary types\<close>

definition objectKeyPointerValueDictType :: "byte list \<Rightarrow> (nat \<Rightarrow> byte) \<Rightarrow> (strobj, 'v) dictType" where
  "objectKeyPointerValueDictType seed junk =
     \<lparr>hashFunction = dictEncObjHash seed junk, keyDup = None, valDup = None,
      keyCompare = Some (dictEncObjKeyCompare junk), expandAllowed = None\<rparr>"

definition objectKeyHeapPointerValueDictType :: "byte list \<Rightarrow> (nat \<Rightarrow> byte) \<Rightarrow> (strobj, 'v) dictType" where
  "objectKeyHeapPointerValueDictType seed junk =
     \<lparr>hashFunction = dictEncObjHash seed junk, keyDup = None, valDup = None,
      keyCompare = Some (dictEncObjKeyCompare junk), expandAllowed = None\<rparr>"

definition setDictType :: "byte list \<Rightarrow> (sds, 'v) dictType" where
  "setDictType seed =
     \<lparr>hashFunction = dictSdsHash seed, keyDup = None, valDup = None,
      keyCompare = Some dictSdsKeyCompare, expandAllowed = None\<rparr>"

definition zsetDictType :: "byte list \<Rightarrow> (sds, 'v) dictType" where
  "zsetDictType seed =
     \<lparr>hashFunction = dictSdsHash seed, keyDup = None, valDup = None,
      keyCompare = Some dictSdsKeyCompare, expandAllowed = None\<rparr>"

definition dbDictType :: "byte list \<Rightarrow> mem_state \<Rightarrow> (sds, 'v) dictType" where
  "dbDictType seed mem =
     \<lparr>hashFunction = dictSdsHash seed, keyDup = None, valDup = None,
      keyCompare = Some dictSdsKeyCompare, expandAllowed = Some (dictExpandAllowed mem)\<rparr>"

definition shaScriptObjectDictType :: "byte list \<Rightarrow> (sds, 'v) dictType" where
  "shaScriptObjectDictType seed =
     \<lparr>hashFunction = dictSdsCaseHash seed, keyDup = None, valDup = None,
      keyCompare = Some dictSdsKeyCaseCompare, expandAllowed = None\<rparr>"

definition dbExpiresDictType :: "byte list \<Rightarrow> mem_state \<Rightarrow> (sds, 'v) dictType" where
  "dbExpiresDictType seed mem =
     \<lparr>hashFunction = dictSdsHash seed, keyDup = None, valDup = None,
      keyCompare = Some dictSdsKeyCompare, expandAllowed = Some (dictExpandAllowed mem)\<rparr>"

definition commandTableDictType :: "byte list \<Rightarrow> (sds, 'v) dictType" where
  "commandTableDictType seed =
     \<lparr>hashFunction = dictSdsCaseHash seed, keyDup = None, valDup = None,
      keyCompare = Some dictSdsKeyCaseCompare, expandAllowed = None\<rparr>"

definition hashDictType :: "byte list \<Rightarrow> (sds, 'v) dictType" where
  "hashDictType seed =
     \<lparr>hashFunction = dictSdsHash seed, keyDup = None, valDup = None,
      keyCompare = Some dictSdsKeyCompare, expandAllowed = None\<rparr>"

definition sdsReplyDictType :: "byte list \<Rightarrow> (sds, 'v) dictType" where
  "sdsReplyDictType seed =
     \<lparr>hashFunction = dictSdsHash seed, keyDup = None, valDup = None,
      keyCompare = Some dictSdsKeyCompare, expandAllowed = None\<rparr>"

definition keylistDictType :: "byte list \<Rightarrow> (sds, 'v) dictType" where
  "keylistDictType seed =
     \<lparr>hashFunction = dictObjHash seed, keyDup = None, valDup = None,
      keyCompare = Some dictObjKeyCompare, expandAllowed = None\<rparr>"

definition clusterNodesDictType :: "byte list \<Rightarrow> (sds, 'v) dictType" where
  "clusterNodesDictType seed =
     \<lparr>hashFunction = dictSdsHash seed, keyDup = None, valDup = None,
      keyCompare = Some dictSdsKeyCompare, expandAllowed = None\<rparr>"

definition clusterNodesBlackListDictType :: "byte list \<Rightarrow> (sds, 'v) dictType" where
  "clusterNodesBlackListDictType seed =
     \<lparr>hashFunction = dictSdsCaseHash seed, keyDup = None, valDup = None,
      keyCompare = Some dictSdsKeyCaseCompare, expandAllowed = None\<rparr>"

definition modulesDictType :: "byte list \<Rightarrow> (sds, 'v) dictType" where
  "modulesDictType seed =
     \<lparr>hashFunction = dictSdsCaseHash seed, keyDup = None, valDup = None,
      keyCompare = Some dictSdsKeyCaseCompare, expandAllowed = None\<rparr>"

definition migrateCacheDictType :: "byte list \<Rightarrow> (sds, 'v) dictType" where
  "migrateCacheDictType seed =
     \<lparr>hashFunction = dictSdsHash seed, keyDup = None, valDup = None,
      keyCompare = Some dictSdsKeyCompare, expandAllowed = None\<rparr>"

definition replScriptCacheDictType :: "byte list \<Rightarrow> (sds, 'v) dictType" where
  "replScriptCacheDictType seed =
     \<lparr>hashFunction = dictSdsCaseHash seed, keyDup = None, valDup = None,
      keyCompare = Some dictSdsKeyCaseCompare, expandAllowed = None\<rparr>"

section \<open>Resizing and background rehashing of a database\<close>

definition HASHTABLE_MIN_FILL :: nat where "HASHTABLE_MIN_FILL = 10"

definition htNeedsResize :: "('k, 'v) dict \<Rightarrow> bool" where
  "htNeedsResize d \<longleftrightarrow>
     dictSlots d > DICT_HT_INITIAL_SIZE \<and> dictSize d * 100 div dictSlots d < HASHTABLE_MIN_FILL"

record ('v, 'w) redisDb =
  db_dict :: "(sds, 'v) dict"
  db_expires :: "(sds, 'w) dict"

definition tryResizeHashTables :: "bool \<Rightarrow> ('v, 'w) redisDb \<Rightarrow> ('v, 'w) redisDb option" where
  "tryResizeHashTables can_resize db = do {
     db \<leftarrow> (if htNeedsResize (db_dict db)
            then do { (d, _) \<leftarrow> dictResize can_resize (db_dict db); Some (db\<lparr>db_dict := d\<rparr>) } else Some db);
     (if htNeedsResize (db_expires db)
      then do { (d, _) \<leftarrow> dictResize can_resize (db_expires db); Some (db\<lparr>db_expires := d\<rparr>) } else Some db) }"

definition incrementallyRehash ::
  "byte list \<Rightarrow> mem_state \<Rightarrow> (nat \<Rightarrow> int) \<Rightarrow> ('v, 'w) redisDb \<Rightarrow> (('v, 'w) redisDb \<times> bool) option" where
  "incrementallyRehash seed mem clock db =
     (if dictIsRehashing (db_dict db) then do {
        (d, _) \<leftarrow> dictRehashMilliseconds (dbDictType seed mem) clock (db_dict db) 1;
        Some (db\<lparr>db_dict := d\<rparr>, True) }
      else if dictIsRehashing (db_expires db) then do {
        (d, _) \<leftarrow> dictRehashMilliseconds (dbExpiresDictType seed mem) clock (db_expires db) 1;
        Some (db\<lparr>db_expires := d\<rparr>, True) }
      else Some (db, False))"

definition updateDictResizePolicy :: "bool \<Rightarrow> bool" where
  "updateDictResizePolicy active_child = (if \<not> active_child then True else False)"

section \<open>The laws of the dictionary types\<close>

lemmas sds_type_defs = setDictType_def zsetDictType_def dbDictType_def dbExpiresDictType_def hashDictType_def
  sdsReplyDictType_def clusterNodesDictType_def migrateCacheDictType_def keylistDictType_def

lemma sds_dict_type:
  assumes "keyCompare t = Some (=)" "keyDup t = None"
  shows "dict_type t"
  using assms by unfold_locales (auto simp: keys_equal_def dictCompareKeys_def dup_key_def)

lemma dictSdsKeyCompare_eq [simp]: "dictSdsKeyCompare = (=)" "dictObjKeyCompare = (=)"
  by (auto simp: dictSdsKeyCompare_def dictObjKeyCompare_def fun_eq_iff)

interpretation set_type: dict_type "setDictType seed" for seed
  by (rule sds_dict_type) (simp_all add: sds_type_defs)

interpretation zset_type: dict_type "zsetDictType seed" for seed
  by (rule sds_dict_type) (simp_all add: sds_type_defs)

interpretation db_type: dict_type "dbDictType seed mem" for seed mem
  by (rule sds_dict_type) (simp_all add: sds_type_defs)

interpretation expires_type: dict_type "dbExpiresDictType seed mem" for seed mem
  by (rule sds_dict_type) (simp_all add: sds_type_defs)

interpretation hash_type: dict_type "hashDictType seed" for seed
  by (rule sds_dict_type) (simp_all add: sds_type_defs)

interpretation keylist_type: dict_type "keylistDictType seed" for seed
  by (rule sds_dict_type) (simp_all add: sds_type_defs)

text \<open>An object compares and hashes as the decimal representation of its integer.\<close>

definition obj_string :: "strobj \<Rightarrow> sds" where
  "obj_string obj = (case obj of SdsObj s \<Rightarrow> s | IntObj v \<Rightarrow> print_int (sint v))"

lemma sint_int64: "int64 (sint (v :: 64 word))"
  using sint_range_size [of v] by (simp add: int_range_def word_size)

lemma print_int_nul_free: "c \<in> set (print_int v) \<Longrightarrow> c \<noteq> 0"
  using dec_digits [of "nat v"] dec_digits [of "nat (- v)"]
  by (auto simp: print_int_def list_all_iff is_digit_def split: if_splits)

lemma print_int_inj: "int64 v \<Longrightarrow> int64 w \<Longrightarrow> print_int v = print_int w \<longleftrightarrow> v = w"
  using string2ll_spec [of "print_int v" v] string2ll_spec [of "print_int v" w] by auto

lemma ll2string_char32:
  "ll2string (char32 junk) (sint (v :: 64 word)) =
     Some (print_int (sint v) @ 0 # drop (Suc (length (print_int (sint v)))) (char32 junk), length (print_int (sint v)))"
  using ll2string_spec [OF sint_int64, of "char32 junk" v] length_print_int [OF sint_int64 [of v]]
  by (simp add: char32_def)

lemma getDecodedObject_string: "getDecodedObject junk obj = Some (obj_string obj)"
  using print_int_nul_free
  by (auto simp: getDecodedObject_def obj_string_def ll2string_char32 takeWhile_append split: strobj.split)

lemma dictEncObjKeyCompare_string: "dictEncObjKeyCompare junk a b \<longleftrightarrow> obj_string a = obj_string b"
  by (cases a; cases b)
    (auto simp: dictEncObjKeyCompare_def getDecodedObject_string, auto simp: obj_string_def print_int_inj sint_int64 intro: signed_word_eqI)

lemma dictEncObjHash_string: "dictEncObjHash seed junk obj = dictGenHashFunction seed (obj_string obj)"
  by (cases obj) (simp_all add: dictEncObjHash_def ll2string_char32 obj_string_def)

interpretation obj_type: dict_type "objectKeyPointerValueDictType seed junk" for seed junk
  by unfold_locales (auto simp: objectKeyPointerValueDictType_def keys_equal_def dictCompareKeys_def dup_key_def
      dictEncObjKeyCompare_string dictEncObjHash_string)

interpretation obj_heap_type: dict_type "objectKeyHeapPointerValueDictType seed junk" for seed junk
  by unfold_locales (auto simp: objectKeyHeapPointerValueDictType_def keys_equal_def dictCompareKeys_def dup_key_def
      dictEncObjKeyCompare_string dictEncObjHash_string)

text \<open>
  The case-insensitive types compare C strings, up to the first null byte, and hash the whole sds
  string. Their laws hold for keys without null bytes.
\<close>

lemma siptlw_tolower: "siptlw = tolower"
  by (simp add: siptlw_def tolower_def fun_eq_iff)

lemma cstring_nul_free: "0 \<notin> set a \<Longrightarrow> takeWhile (\<lambda>c. c \<noteq> 0) a = a"
  by (auto simp: takeWhile_eq_all_conv)

lemma case_hash_law:
  assumes "0 \<notin> set a" "0 \<notin> set b" "dictSdsKeyCaseCompare a b"
  shows "dictSdsCaseHash seed a = dictSdsCaseHash seed b"
proof -
  have "map tolower a = map tolower b"
    using assms by (simp add: dictSdsKeyCaseCompare_def strcaseeq_def cstring_nul_free)
  then show ?thesis by (simp add: dictSdsCaseHash_def dictGenCaseHashFunction_def
        siphash_nocase_lower siptlw_tolower)
qed

section \<open>The first insertion\<close>

lemma unat_and3: "unat (h AND 3 :: u64) < 4"
proof -
  have "h AND 3 \<le> 3" by (rule word_and_le1)
  then show ?thesis by (simp add: word_le_nat_alt)
qed

lemma dictNextPower_4 [simp]: "dictNextPower_u 4 = Some 4"
  by (simp add: dictNextPower_u_def DICT_HT_INITIAL_SIZE_def dictNextPower_loop.simps)

text \<open>The dictionary with one entry.\<close>

definition singleton_dict :: "('k, 'v) dictType \<Rightarrow> 'k \<Rightarrow> 'v \<Rightarrow> ('k, 'v) dict" where
  "singleton_dict t k v =
     \<lparr>ht0 = \<lparr>ht_table = (replicate 4 [])[unat (hashFunction t k AND 3) := [\<lparr>de_key = k, de_val = v\<rparr>]],
             ht_size = 4, ht_sizemask = 3, ht_used = 1\<rparr>,
      ht1 = dictReset_u, rehashidx = -1, pauserehash = 0\<rparr>"

lemma dictAdd_first:
  assumes "keyDup t = None" "valDup t = None"
  shows "dictAdd t can junk dictCreate k v = Some (singleton_dict t k v, True)"
  using unat_and3 [of "hashFunction t k"] assms
  by (simp add: dictAdd_def dictAddRaw_def dictCreate_def dictInit_u_def dictReset_u_def dictIsRehashing_def
      dictKeyIndex_u_def dictExpandIfNeeded_u_def dictExpand_def dictExpand_u_def DICT_HT_INITIAL_SIZE_def
      dict_search_def ht_index_def bucket_def dict_ht_def dict_ht_update_def dict_set_val_def dict_deref_def
      dictSetVal_def dictSetKey_def Let_def singleton_dict_def)

lemma dictFetchValue_first:
  "dictFetchValue t (singleton_dict t k v) key =
     Some (singleton_dict t k v,
       if hashFunction t key AND 3 = hashFunction t k AND 3 \<and> keys_equal t key k then Some v else None)"
proof -
  have "hashFunction t key AND 3 = hashFunction t k AND 3 \<longleftrightarrow>
      unat (hashFunction t key AND 3) = unat (hashFunction t k AND 3)" by (auto intro: unsigned_word_eqI)
  then show ?thesis using unat_and3 [of "hashFunction t key"] unat_and3 [of "hashFunction t k"]
    by (auto simp: dictFetchValue_def dictFind_def dictSize_def dictIsRehashing_def dict_search_def ht_index_def bucket_def
      dict_deref_def dict_ht_def key_matches_iff Let_def singleton_dict_def dictReset_u_def nth_list_update)
qed

section \<open>Properties\<close>




text \<open>
  C34. When \<open>htNeedsResize\<close> holds for a table that is not being rehashed, \<open>dictResize\<close> starts
  rehashing to a table that is strictly smaller and still large enough for all entries, and the
  dictionary keeps its contents.
\<close>

theorem resize_shrinks:
  assumes "dict_type t" "dict_inv t d" "htNeedsResize d" "\<not> dictIsRehashing d"
  shows "\<exists>d'. dictResize True d = Some (d', True) \<and> dictIsRehashing d' \<and> dict_inv t d' \<and>
    dict_map t d' = dict_map t d \<and> ht_size (ht1 d') < ht_size (ht0 d) \<and> dictSize d \<le> ht_size (ht1 d')"
proof -
  define n where "n = ht_size (ht0 d)"
  define used where "used = ht_used (ht0 d)"
  define mn where "mn = (if used < 4 then 4 else used)"
  have nr: "ht1 d = dictReset_u" "ht_wf t (ht0 d)" "rehashidx d = -1"
    using assms(2,4) by (auto simp: dict_inv_def dictIsRehashing_def)
  have sz: "dictSize d = used" "dictSlots d = n" by (simp_all add: dictSize_def dictSlots_def nr dictReset_u_def n_def used_def)
  have n: "4 < n" "used * 100 div n < 10"
    using assms(3) sz by (simp_all add: htNeedsResize_def DICT_HT_INITIAL_SIZE_def HASHTABLE_MIN_FILL_def)
  have u: "used * 10 < n"
  proof -
    have "used * 100 < 10 * n" using n by (simp add: div_less_iff_less_mult)
    then show ?thesis by simp
  qed
  have big: "n \<le> 2 ^ 60"
  proof -
    obtain x where "n = 2 ^ x" "x \<le> 60" using nr(2) n(1) by (auto simp: ht_wf_def n_def)
    then show ?thesis by (simp only: power_increasing_iff one_less_numeral_iff semiring_norm)
  qed
  obtain m where m: "dictNextPower_u mn = Some (2 ^ m)" "m \<le> 63" "mn < 2 ^ 63 \<Longrightarrow> mn \<le> 2 ^ m"
    "mn < 2 ^ 63 - 1 \<Longrightarrow> m = 2 \<or> 2 ^ m < 2 * mn"
    by (rule dictNextPower_spec [of mn]) blast
  have mn: "mn < 2 ^ 63 - 1" using u big by (simp add: mn_def)
  have le: "mn \<le> 2 ^ m" using m(3) mn by linarith
  have small: "2 ^ m < n"
  proof (cases "m = 2")
    case True
    then show ?thesis using n(1) by simp
  next
    case False
    then have b: "2 ^ m < 2 * mn" using m(4) mn by blast
    show ?thesis
    proof (cases "used < 4")
      case True
      then have "(2 :: nat) ^ m < 2 ^ 3" using b by (simp add: mn_def)
      then have "m < 3" by (rule power_less_imp_less_exp [rotated]) simp
      moreover have "(2 :: nat) ^ 2 \<le> 2 ^ m" using le True by (simp add: mn_def)
      then have "2 \<le> m" by (simp only: power_increasing_iff one_less_numeral_iff semiring_norm)
      ultimately show ?thesis using False by simp
    next
      case False
      then show ?thesis using b u by (simp add: mn_def)
    qed
  qed
  have "\<not> 60 < m"
  proof
    assume "60 < m"
    then have "(2 :: nat) ^ 60 < 2 ^ m" by (intro power_strict_increasing) simp_all
    then show False using small big by linarith
  qed
  then have ov: "\<not> (2 :: nat) ^ m * 8 mod 2 ^ 64 < 2 ^ m" using pow2_overflow [OF m(2)] by simp
  have ne: "ht_table (ht0 d) \<noteq> []" using nr(2) n(1) by (auto simp: ht_wf_def n_def)
  let ?n = "\<lparr>ht_table = replicate (2 ^ m) [], ht_size = 2 ^ m, ht_sizemask = of_nat (2 ^ m - 1), ht_used = 0\<rparr>"
  have r: "dictResize True d = Some (d\<lparr>ht1 := ?n, rehashidx := 0\<rparr>, True)"
  proof -
    have "dictExpand_u d mn None = Some (d\<lparr>ht1 := ?n, rehashidx := 0\<rparr>, True, False)"
      unfolding dictExpand_u_def m(1) using assms(4) le ov small ne by (simp add: mn_def used_def n_def)
    moreover have "dictResize True d = dictExpand d mn"
      using assms(4) by (simp add: dictResize_def mn_def used_def DICT_HT_INITIAL_SIZE_def)
    ultimately show ?thesis by (simp add: dictExpand_def)
  qed
  show ?thesis using dict_type.dictResize_inv [OF assms(1,2) r] r small le sz
    by (intro exI [of _ "d\<lparr>ht1 := ?n, rehashidx := 0\<rparr>"]) (simp add: dictIsRehashing_def n_def mn_def split: if_splits)
qed

theorem resize_shrinks_witness:
  "\<exists>d'. dictResize True (dictCreate\<lparr>ht0 := \<lparr>ht_table = replicate 16 [], ht_size = 16, ht_sizemask = 15, ht_used = 0\<rparr>\<rparr>
      :: (sds, unit) dict) = Some (d', True) \<and> ht_size (ht1 d') < 16"
proof -
  let ?d = "dictCreate\<lparr>ht0 := \<lparr>ht_table = replicate 16 [], ht_size = 16, ht_sizemask = 15, ht_used = 0\<rparr>\<rparr> :: (sds, unit) dict"
  have "(16 :: nat) \<in> (\<lambda>k. 2 ^ k) ` {2..60}" by (rule image_eqI [of _ _ 4]) simp_all
  then have "dict_inv (setDictType []) ?d"
    by (auto simp: dict_inv_def ht_wf_def dictCreate_def dictInit_u_def dictReset_u_def distinct_keys_def dict_entries_def)
  then show ?thesis
    using resize_shrinks [OF set_type.dict_type_axioms, of "[]" ?d]
    by (auto simp: htNeedsResize_def dictSlots_def dictSize_def dictIsRehashing_def dictCreate_def dictInit_u_def
        dictReset_u_def DICT_HT_INITIAL_SIZE_def HASHTABLE_MIN_FILL_def)
qed

end
