(* ===== verification/Dict_Rev.thy ===== *)
theory Dict_Rev
  imports Redis_Prelude
begin

text \<open>
  The bit reversal of \<open>dict.c\<close> (\<open>rev\<close>, the parallel algorithm with masks), and that it is the
  reversal of the 64 bits of a word.
\<close>

section \<open>Reversing the bits of a cursor\<close>

text \<open>The assignment in the loop of \<open>rev\<close>, and the loop.\<close>

definition rev_round :: "nat \<Rightarrow> u64 \<Rightarrow> u64 \<Rightarrow> u64" where
  "rev_round s m v = (drop_bit s v AND m) OR (push_bit s v AND NOT m)"

function rev_loop :: "nat \<Rightarrow> u64 \<Rightarrow> u64 \<Rightarrow> u64" where
  "rev_loop s m v =
     (let s' = s div 2 in
      if s' > 0 then (let m' = m XOR push_bit s' m in rev_loop s' m' (rev_round s' m' v)) else v)"
  by pat_completeness auto
termination by (relation "measure fst") auto

definition rev_u :: "u64 \<Rightarrow> u64" where
  "rev_u v = rev_loop 64 (NOT 0) v"

declare rev_loop.simps [simp del]

text \<open>One round exchanges neighbouring groups of \<open>s\<close> bits.\<close>

definition swap_pos :: "nat \<Rightarrow> nat \<Rightarrow> nat" where
  "swap_pos s n = (if even (n div s) then n + s else n - s)"

lemma bit_rev_round:
  assumes "bit m n \<longleftrightarrow> even (n div s)" "n < 64" "0 < s"
  shows "bit (rev_round s m v) n \<longleftrightarrow> bit v (swap_pos s n)"
proof -
  have "s \<le> n" if "odd (n div s)" using that by (cases "n < s") auto
  then show ?thesis using assms by (auto simp: rev_round_def bit_simps swap_pos_def add.commute)
qed

text \<open>The mask of a round selects every other group of \<open>s\<close> bits.\<close>

definition group_mask :: "u64 \<Rightarrow> nat \<Rightarrow> bool" where
  "group_mask m s \<longleftrightarrow> (\<forall>n < 64. bit m n \<longleftrightarrow> even (n div s))"

lemma even_div_half:
  fixes n s :: nat
  assumes "0 < s"
  shows "even (n div s) \<longleftrightarrow> even (n div (2 * s)) \<noteq> (s \<le> n \<and> even ((n - s) div (2 * s)))"
proof -
  define q r where "q = n div (2 * s)" and "r = n mod (2 * s)"
  have n: "n = 2 * s * q + r" "r < 2 * s" using assms by (simp_all add: q_def r_def)
  show ?thesis
  proof (cases "r < s")
    case True
    then have "n div s = 2 * q" unfolding n(1) using assms by (intro div_nat_eqI) (auto simp: algebra_simps)
    moreover have "(n - s) div (2 * s) = q - 1" if "s \<le> n"
    proof -
      have "0 < q" using that True n(1) by (cases q) auto
      then show ?thesis unfolding n(1) using True assms
        by (intro div_nat_eqI) (auto simp: algebra_simps gr0_conv_Suc)
    qed
    moreover have "s \<le> n \<longleftrightarrow> q \<noteq> 0" unfolding n(1) using True by (cases q) auto
    ultimately show ?thesis unfolding q_def [symmetric] by (cases q) auto
  next
    case False
    then have "n div s = 2 * q + 1" unfolding n(1) using assms n(2) by (intro div_nat_eqI) (auto simp: algebra_simps)
    moreover have "(n - s) div (2 * s) = q"
      unfolding n(1) using False assms n(2) by (intro div_nat_eqI) (auto simp: algebra_simps)
    moreover have "s \<le> n" using False n(1) by simp
    ultimately show ?thesis unfolding q_def [symmetric] by simp
  qed
qed

lemma group_mask_next:
  assumes "group_mask m (2 * s)" "0 < s"
  shows "group_mask (m XOR push_bit s m) s"
  using assms by (auto simp: group_mask_def bit_simps even_div_half [OF assms(2)])

text \<open>A round moves bit \<open>n\<close> to the position with one bit of \<open>n\<close> flipped; all six flips make \<open>63 - n\<close>.\<close>

lemma swap_pos_flip: "swap_pos (2 ^ k) n = flip_bit k n"
proof -
  have "unset_bit k n = n - 2 ^ k" if "bit n k"
  proof -
    have "set_bit k (unset_bit k n) = n" using that by (intro bit_eqI) (auto simp: bit_simps)
    then show ?thesis unfolding set_bit_eq [of k "unset_bit k n"] by (simp add: bit_simps)
  qed
  then show ?thesis using bit_iff_odd [of n k] by (auto simp: swap_pos_def flip_bit_eq_if set_bit_eq)
qed

lemma swap_pos_flips:
  "swap_pos 32 n = flip_bit 5 n" "swap_pos 16 n = flip_bit 4 n" "swap_pos 8 n = flip_bit 3 n"
  "swap_pos 4 n = flip_bit 2 n" "swap_pos 2 n = flip_bit 1 n" "swap_pos 1 n = flip_bit 0 n"
  using swap_pos_flip [of 5 n] swap_pos_flip [of 4 n] swap_pos_flip [of 3 n] swap_pos_flip [of 2 n]
    swap_pos_flip [of 1 n] swap_pos_flip [of 0 n] by simp_all

lemma swap_all_eq:
  assumes "n < 64"
  shows "swap_pos 32 (swap_pos 16 (swap_pos 8 (swap_pos 4 (swap_pos 2 (swap_pos 1 n))))) = 63 - n"
proof -
  have n: "bit n k \<Longrightarrow> k < 6" for k
    using assms bit_take_bit_iff [of 6 n k] by (simp add: take_bit_nat_eq_self)
  have "take_bit 6 (NOT (int n)) = 63 - int n"
    using assms by (simp add: take_bit_not_eq_mask_diff mask_numeral take_bit_int_eq_self)
  moreover have "int (flip_bit 5 (flip_bit 4 (flip_bit 3 (flip_bit 2 (flip_bit 1 (flip_bit 0 n)))))) =
      take_bit 6 (NOT (int n))"
    using n by (intro bit_eqI) (auto simp: bit_simps less_Suc_eq numeral_eq_Suc)
  ultimately show ?thesis unfolding swap_pos_flips by linarith
qed

lemma flip_less:
  assumes "n < 64" "k < 6" shows "flip_bit k n < (64 :: nat)"
proof -
  have "bit n i \<Longrightarrow> i < 6" for i
    using assms(1) bit_take_bit_iff [of 6 n i] by (simp add: take_bit_nat_eq_self)
  then have "take_bit 6 (flip_bit k n) = flip_bit k n"
    using assms(2) by (intro bit_eqI) (auto simp: bit_simps)
  then show ?thesis using take_bit_nat_less_exp [of 6 "flip_bit k n"] by simp
qed

lemma swap_less: "n < 64 \<Longrightarrow> s \<in> {32, 16, 8, 4, 2, 1} \<Longrightarrow> swap_pos s n < 64"
  by (elim insertE emptyE) (simp_all add: swap_pos_flips flip_less del: One_nat_def)

lemma rev_loop_round:
  assumes "0 < s" "group_mask m (2 * s)"
  obtains m' where "group_mask m' s" "rev_loop (2 * s) m v = rev_loop s m' (rev_round s m' v)"
  using assms group_mask_next by (subst (asm) rev_loop.simps) (auto simp: Let_def)

theorem rev_u_reverse: "rev_u v = word_reverse v"
proof (rule bit_word_eqI)
  fix n assume "n < LENGTH(64)"
  then have n: "n < 64" by simp
  have "group_mask (NOT 0) (2 * 32)" by (auto simp: group_mask_def bit_simps)
  from rev_loop_round [OF _ this, of v] obtain m1 where
    m1: "group_mask m1 32" "rev_u v = rev_loop 32 m1 (rev_round 32 m1 v)" by (auto simp: rev_u_def)
  from rev_loop_round [of 16 m1 "rev_round 32 m1 v"] m1 obtain m2 where
    m2: "group_mask m2 16" "rev_u v = rev_loop 16 m2 (rev_round 16 m2 (rev_round 32 m1 v))" by auto
  from rev_loop_round [of 8 m2 "rev_round 16 m2 (rev_round 32 m1 v)"] m2 obtain m3 where
    m3: "group_mask m3 8" "rev_u v = rev_loop 8 m3 (rev_round 8 m3 (rev_round 16 m2 (rev_round 32 m1 v)))"
    by auto
  define w where "w = rev_round 8 m3 (rev_round 16 m2 (rev_round 32 m1 v))"
  from rev_loop_round [of 4 m3 w] m3 obtain m4 where
    m4: "group_mask m4 4" "rev_u v = rev_loop 4 m4 (rev_round 4 m4 w)" by (auto simp: w_def)
  from rev_loop_round [of 2 m4 "rev_round 4 m4 w"] m4 obtain m5 where
    m5: "group_mask m5 2" "rev_u v = rev_loop 2 m5 (rev_round 2 m5 (rev_round 4 m4 w))" by auto
  from rev_loop_round [of 1 m5 "rev_round 2 m5 (rev_round 4 m4 w)"] m5 obtain m6 where
    m6: "group_mask m6 1" "rev_u v = rev_loop 1 m6 (rev_round 1 m6 (rev_round 2 m5 (rev_round 4 m4 w)))"
    by auto
  have "rev_u v = rev_round 1 m6 (rev_round 2 m5 (rev_round 4 m4 w))"
    using m6(2) by (simp add: rev_loop.simps [of 1] rev_loop.simps [of "Suc 0"])
  moreover have "bit (rev_round s m x) i \<longleftrightarrow> bit x (swap_pos s i)" if "group_mask m s" "i < 64" "0 < s" for m s i x
    using that by (intro bit_rev_round) (auto simp: group_mask_def)
  ultimately have "bit (rev_u v) n \<longleftrightarrow>
      bit v (swap_pos 32 (swap_pos 16 (swap_pos 8 (swap_pos 4 (swap_pos 2 (swap_pos 1 n))))))"
    unfolding w_def using n m1(1) m2(1) m3(1) m4(1) m5(1) m6(1) by (simp add: swap_less del: One_nat_def)
  then show "bit (rev_u v) n = bit (word_reverse v) n"
    using n by (simp only: swap_all_eq) (simp add: bit_word_reverse_iff)
qed

end
