(* ===== verification/Dict_Scan.thy ===== *)
theory Dict_Scan
  imports Dict Dict_Rev
begin

text \<open>
  The stateless iteration of dictionaries (\<open>dictScan\<close>), for a callback that records the entries it
  is given and no bucket callback. The cursor is incremented from its highest bit down; reversed,
  it is a position on a line on which every bucket of every power-of-two table is an interval, so
  one call covers the interval from the cursor to the next, whatever the tables look like, and a
  sequence of calls misses no key that was there all the time.
\<close>

section \<open>The cursor\<close>

text \<open>The statements that set the unmasked bits and increment the reversed cursor.\<close>

definition scan_next :: "u64 \<Rightarrow> u64 \<Rightarrow> u64" where
  "scan_next m v = rev_u (rev_u (v OR NOT m) + 1)"

text \<open>The loop over the buckets of the larger table that expand the bucket of the smaller one.\<close>

partial_function (option) scan_expansions ::
  "('k, 'v) dictht \<Rightarrow> u64 \<Rightarrow> u64 \<Rightarrow> u64 \<Rightarrow> ('k, 'v) dictEntry list
     \<Rightarrow> (('k, 'v) dictEntry list \<times> u64) option" where
  [code]: "scan_expansions t1 m0 m1 v out = do {
     de \<leftarrow> bucket t1 (unat (v AND m1));
     let v' = scan_next m1 v;
     if v' AND (m0 XOR m1) \<noteq> 0 then scan_expansions t1 m0 m1 v' (out @ de)
     else Some (out @ de, v') }"

definition dictScan :: "('k, 'v) dict \<Rightarrow> u64 \<Rightarrow> (('k, 'v) dictEntry list \<times> u64) option" where
  "dictScan d v =
     (if dictSize d = 0 then Some ([], 0)
      else if \<not> dictIsRehashing d then
        (let m0 = ht_sizemask (ht0 d) in do {
           de \<leftarrow> bucket (ht0 d) (unat (v AND m0));
           Some (de, scan_next m0 v) })
      else
        (let (t0, t1) = (if ht_size (ht0 d) > ht_size (ht1 d) then (ht1 d, ht0 d) else (ht0 d, ht1 d));
             m0 = ht_sizemask t0; m1 = ht_sizemask t1
         in do {
           de \<leftarrow> bucket t0 (unat (v AND m0));
           scan_expansions t1 m0 m1 v de }))"

section \<open>Cursors as positions on a line\<close>

definition scan_pos :: "u64 \<Rightarrow> nat" where
  "scan_pos v = unat (rev_u v)"

lemma scan_pos_less: "scan_pos v < 2 ^ 64"
  using unsigned_less [of "rev_u v"] by (simp add: scan_pos_def)

lemma scan_pos_0: "scan_pos v = 0 \<longleftrightarrow> v = 0"
proof -
  have "word_reverse (0 :: u64) = 0" by (rule bit_word_eqI) (simp add: bit_simps)
  then have "word_reverse v = 0 \<longleftrightarrow> v = 0" by (metis word_rev_rev)
  then show ?thesis by (simp add: scan_pos_def rev_u_reverse unat_eq_0)
qed

lemma nat_or_mask: "(n :: nat) OR mask j = (n div 2 ^ j) * 2 ^ j + (2 ^ j - 1)"
proof -
  have "n OR mask j = push_bit j (drop_bit j n) OR mask j"
    by (rule bit_eqI) (auto simp: bit_simps)
  also have "\<dots> = push_bit j (drop_bit j n) + mask j"
    by (rule disjunctive_add [symmetric]) (auto simp: bit_simps)
  finally show ?thesis by (simp add: push_bit_eq_mult drop_bit_eq_div mask_eq_exp_minus_1)
qed

lemma rev_or_mask:
  assumes "k \<le> 64"
  shows "rev_u (v OR NOT (mask k)) = rev_u v OR mask (64 - k)"
  unfolding rev_u_reverse by (rule bit_word_eqI) (use assms in \<open>auto simp: bit_simps\<close>)

lemma scan_pos_next:
  assumes "k \<le> 64"
  shows "scan_pos (scan_next (mask k) v) = (scan_pos v div 2 ^ (64 - k) + 1) * 2 ^ (64 - k) mod 2 ^ 64"
proof -
  let ?B = "2 ^ (64 - k) :: nat"
  have "unat (mask (64 - k) :: u64) = mask (64 - k)" by (rule bit_eqI) (auto simp: bit_simps)
  then have "unat (rev_u v OR mask (64 - k)) = scan_pos v div ?B * ?B + (?B - 1)"
    by (simp add: unsigned_or_eq scan_pos_def nat_or_mask)
  then have "unat (rev_u (v OR NOT (mask k)) + 1) = (scan_pos v div ?B * ?B + (?B - 1) + 1) mod 2 ^ 64"
    using assms by (simp add: rev_or_mask unat_word_ariths)
  then show ?thesis
    by (simp add: scan_pos_def scan_next_def rev_u_reverse algebra_simps)
qed

text \<open>Two hashes share a bucket exactly when their positions share the block.\<close>

lemma scan_pos_bucket:
  assumes "k \<le> 64"
  shows "h AND mask k = v AND mask k \<longleftrightarrow> scan_pos h div 2 ^ (64 - k) = scan_pos v div 2 ^ (64 - k)"
proof -
  have "h AND mask k = v AND mask k \<longleftrightarrow> (\<forall>n < k. bit h n = bit v n)"
    using assms by (simp add: bit_eq_iff bit_simps) (meson less_le_trans)
  also have "\<dots> \<longleftrightarrow> drop_bit (64 - k) (rev_u h) = drop_bit (64 - k) (rev_u v)"
  proof -
    have "(\<forall>n < k. bit h n = bit v n) \<longleftrightarrow> (\<forall>n < k. bit h (k - 1 - n) = bit v (k - 1 - n))"
    proof
      assume *: "\<forall>n < k. bit h (k - 1 - n) = bit v (k - 1 - n)"
      have "bit h n = bit v n" if "n < k" for n
        using spec [OF *, of "k - 1 - n"] that by simp
      then show "\<forall>n < k. bit h n = bit v n" by simp
    qed simp
    also have bitd: "bit (drop_bit (64 - k) (rev_u w)) n \<longleftrightarrow> n < k \<and> bit w (k - 1 - n)" for w n
      using assms by (auto simp: bit_simps rev_u_reverse)
    have "(\<forall>n < k. bit h (k - 1 - n) = bit v (k - 1 - n)) \<longleftrightarrow>
        drop_bit (64 - k) (rev_u h) = drop_bit (64 - k) (rev_u v)"
    proof
      assume "drop_bit (64 - k) (rev_u h) = drop_bit (64 - k) (rev_u v)"
      then show "\<forall>n < k. bit h (k - 1 - n) = bit v (k - 1 - n)" using bitd by metis
    next
      assume "\<forall>n < k. bit h (k - 1 - n) = bit v (k - 1 - n)"
      then show "drop_bit (64 - k) (rev_u h) = drop_bit (64 - k) (rev_u v)"
        by (intro bit_word_eqI) (simp only: bitd, blast)
    qed
    finally show ?thesis .
  qed
  also have "\<dots> \<longleftrightarrow> scan_pos h div 2 ^ (64 - k) = scan_pos v div 2 ^ (64 - k)"
    unfolding scan_pos_def word_unat_eq_iff
    using take_bit_nat_eq_self [OF scan_pos_less [unfolded scan_pos_def]]
    by (simp only: unsigned_drop_bit_eq) (simp add: drop_bit_eq_div)
  finally show ?thesis .
qed


lemma scan_pos_mask_bits:
  assumes "k0 \<le> k1" "k1 \<le> 64" "scan_pos v mod 2 ^ (64 - k1) = 0"
  shows "v AND (mask k0 XOR mask k1) = 0 \<longleftrightarrow> scan_pos v mod 2 ^ (64 - k0) = 0"
proof -
  have z: "scan_pos v mod 2 ^ j = 0 \<longleftrightarrow> (\<forall>n < j. \<not> (n < 64 \<and> bit v (63 - n)))" for j
  proof -
    have "scan_pos v mod 2 ^ j = take_bit j (scan_pos v)" by (simp add: take_bit_eq_mod)
    also have "\<dots> = 0 \<longleftrightarrow> (\<forall>n < j. \<not> bit (scan_pos v) n)"
      by (auto simp: bit_eq_iff bit_simps)
    finally show ?thesis by (simp add: scan_pos_def rev_u_reverse bit_simps)
  qed
  have "v AND (mask k0 XOR mask k1) = 0 \<longleftrightarrow> (\<forall>n < k1. k0 \<le> n \<longrightarrow> \<not> bit v n)"
    using assms(1,2) by (simp add: bit_eq_iff bit_simps) (meson less_le_trans not_le)
  also have "\<dots> \<longleftrightarrow> (\<forall>n < 64 - k0. 64 - k1 \<le> n \<longrightarrow> \<not> bit v (63 - n))"
  proof
    assume *: "\<forall>n < 64 - k0. 64 - k1 \<le> n \<longrightarrow> \<not> bit v (63 - n)"
    have "\<not> bit v n" if "n < k1" "k0 \<le> n" for n
      using spec [OF *, of "63 - n"] that assms by auto
    then show "\<forall>n < k1. k0 \<le> n \<longrightarrow> \<not> bit v n" by simp
  qed (use assms in auto)
  also have "\<dots> \<longleftrightarrow> scan_pos v mod 2 ^ (64 - k0) = 0"
    using assms(3) unfolding z by (meson diff_le_self le_less_trans less_le_trans not_le)
  finally show ?thesis .
qed


section \<open>What one call emits\<close>

definition entry_pos :: "('k, 'v) dictType \<Rightarrow> ('k, 'v) dictEntry \<Rightarrow> nat" where
  "entry_pos t e = scan_pos (hashFunction t (de_key e))"

lemma ht_wf_mask:
  assumes "ht_wf t ht" "0 < ht_size ht"
  obtains k where "2 \<le> k" "k \<le> 60" "ht_size ht = 2 ^ k" "ht_sizemask ht = mask k"
  using assms mask_pow2 by (auto simp: ht_wf_def split: if_splits)

lemma scan_bucket:
  assumes wf: "ht_wf t ht" and k: "k \<le> 60" "ht_size ht = 2 ^ k" "ht_sizemask ht = mask k"
  shows "\<exists>c. bucket ht (unat (v AND mask k)) = Some c \<and> set c \<subseteq> set_mset (ht_bag ht) \<and>
    (\<forall>e \<in># ht_bag ht. entry_pos t e div 2 ^ (64 - k) = scan_pos v div 2 ^ (64 - k) \<longrightarrow> e \<in> set c)"
proof -
  let ?i = "unat (v AND mask k)"
  have i: "?i < ht_size ht" using ht_wf_index [OF wf, of v] k by (simp add: ht_index_def)
  have "e \<in> set (ht_table ht ! ?i)"
    if e: "e \<in># ht_bag ht" "entry_pos t e div 2 ^ (64 - k) = scan_pos v div 2 ^ (64 - k)" for e
  proof -
    obtain j where j: "j < ht_size ht" "e \<in> set (ht_table ht ! j)"
      using e(1) wf by (auto simp: ht_bag_def ht_wf_def in_set_conv_nth [of _ "ht_table ht"])
    then have "ht_index (hashFunction t (de_key e)) ht = j" using wf by (simp add: ht_wf_def)
    then have "j = unat (hashFunction t (de_key e) AND mask k)" by (simp add: ht_index_def k(3))
    then show ?thesis using j e(2) scan_pos_bucket [of k "hashFunction t (de_key e)" v] k(1)
      by (simp add: entry_pos_def)
  qed
  moreover have "set (ht_table ht ! ?i) \<subseteq> set_mset (ht_bag ht)"
    using set_mset_mono [OF ht_chain_bag [OF i wf]] by simp
  ultimately show ?thesis using ht_wf_bucket [OF wf i] by blast
qed

text \<open>The end of the block of size \<open>b\<close> a position is in.\<close>

definition block_end :: "nat \<Rightarrow> nat \<Rightarrow> nat" where
  "block_end b r = (r div b + 1) * b"

lemma block_end_gr: "0 < b \<Longrightarrow> r < block_end b r"
  using dividend_less_div_times [of b r] by (simp add: block_end_def algebra_simps)

lemma block_end_dvd: "b dvd block_end b r"
  by (simp add: block_end_def)

lemma same_block:
  assumes "0 < b" "r \<le> x" "x < block_end b r"
  shows "x div b = r div b"
proof (rule antisym)
  show "r div b \<le> x div b" using assms(2) by (rule div_le_mono)
  show "x div b \<le> r div b" using assms(1,3) by (simp add: block_end_def less_Suc_eq_le flip: less_mult_imp_div_less)
      (metis Suc_eq_plus1 add.commute less_Suc_eq_le less_mult_imp_div_less mult.commute mult_Suc_right)
qed

lemma block_end_least:
  assumes "0 < b" "b dvd n" "r < n"
  shows "block_end b r \<le> n"
proof -
  obtain m where m: "n = b * m" using assms(2) by blast
  then have "r div b < m" using assms(3) less_mult_imp_div_less [of r m b] by (simp add: mult.commute)
  then have "(r div b + 1) * b \<le> m * b" by (intro mult_le_mono1) simp
  then show ?thesis by (simp add: block_end_def m mult.commute)
qed

lemma block_dvd_64: "2 ^ (64 - k) dvd (2 ^ 64 :: nat)"
  by (rule le_imp_power_dvd) simp

lemma block_end_64:
  assumes "k \<le> 64" shows "block_end (2 ^ (64 - k)) (scan_pos v) \<le> 2 ^ 64"
  by (rule block_end_least [OF _ le_imp_power_dvd scan_pos_less]) simp_all

lemma scan_expansions_spec:
  assumes wf: "ht_wf t t1" and k: "k0 \<le> k1" "k1 \<le> 60" "ht_size t1 = 2 ^ k1" "ht_sizemask t1 = mask k1"
  defines "N \<equiv> block_end (2 ^ (64 - k0))"
  shows "\<exists>es v'. scan_expansions t1 (mask k0) (mask k1) v out = Some (out @ es, v') \<and>
    scan_pos v' = N (scan_pos v) mod 2 ^ 64 \<and> set es \<subseteq> set_mset (ht_bag t1) \<and>
    (\<forall>e \<in># ht_bag t1. scan_pos v \<le> entry_pos t e \<and> entry_pos t e < N (scan_pos v) \<longrightarrow> e \<in> set es)"
proof (induction "N (scan_pos v) - scan_pos v" arbitrary: v out rule: less_induct)
  case less
  let ?B0 = "2 ^ (64 - k0) :: nat" and ?B1 = "2 ^ (64 - k1) :: nat"
  define r where "r = scan_pos v"
  define r1 where "r1 = block_end ?B1 r"
  define v' where "v' = scan_next (mask k1) v"
  have B: "?B1 dvd ?B0" using k(1) by (intro le_imp_power_dvd) simp
  have rN: "r < N r" unfolding N_def by (rule block_end_gr) simp
  have r1N: "r1 \<le> N r" unfolding r1_def
    using rN dvd_trans [OF B block_end_dvd] by (intro block_end_least) (auto simp: N_def)
  have rr1: "r < r1" unfolding r1_def by (rule block_end_gr) simp
  have N64: "N r \<le> 2 ^ 64" unfolding N_def r_def using k by (intro block_end_64) simp
  have pos': "scan_pos v' = r1 mod 2 ^ 64"
    using scan_pos_next [of k1 v] k(2) by (simp add: v'_def r1_def r_def block_end_def)
  have "?B1 dvd scan_pos v'"
    unfolding pos' r1_def by (rule dvd_mod [OF block_end_dvd block_dvd_64])
  then have m1: "scan_pos v' mod ?B1 = 0" by simp
  have cont: "v' AND (mask k0 XOR mask k1) = 0 \<longleftrightarrow> scan_pos v' mod ?B0 = 0"
    using k m1 by (intro scan_pos_mask_bits) auto
  obtain c where c: "bucket t1 (unat (v AND mask k1)) = Some c" "set c \<subseteq> set_mset (ht_bag t1)"
    "\<forall>e \<in># ht_bag t1. entry_pos t e div ?B1 = r div ?B1 \<longrightarrow> e \<in> set c"
    using scan_bucket [OF wf k(2-4), of v] by (auto simp: r_def)
  have c': "e \<in> set c" if "e \<in># ht_bag t1" "r \<le> entry_pos t e" "entry_pos t e < r1" for e
    using c(3) that same_block [of ?B1 r "entry_pos t e"] by (simp add: r1_def)
  show ?case
  proof (cases "r1 = N r")
    case True
    have "?B0 dvd scan_pos v'"
      unfolding pos' True N_def by (rule dvd_mod [OF block_end_dvd block_dvd_64])
    then have "scan_expansions t1 (mask k0) (mask k1) v out = Some (out @ c, v')"
      using c(1) cont by (subst scan_expansions.simps) (simp add: v'_def)
    then show ?thesis using pos' True c(2) c' by (intro exI [of _ c] exI [of _ v']) (auto simp: r_def)
  next
    case False
    then have less1: "r1 < N r" using r1N by simp
    then have p: "scan_pos v' = r1" using pos' N64 by simp
    have blk: "r1 div ?B0 = r div ?B0" using less1 rr1 same_block [of ?B0 r r1] by (simp add: N_def)
    then have N1: "N r1 = N r" by (simp add: N_def block_end_def)
    have "r1 mod ?B0 \<noteq> 0"
    proof
      assume "r1 mod ?B0 = 0"
      then have "r1 = r div ?B0 * ?B0" using blk by (metis add.right_neutral div_mult_mod_eq)
      then show False using rr1 by (metis div_times_less_eq_dividend not_le)
    qed
    then have "scan_expansions t1 (mask k0) (mask k1) v out = scan_expansions t1 (mask k0) (mask k1) v' (out @ c)"
      using c(1) cont p by (subst scan_expansions.simps) (simp add: v'_def)
    moreover have dec: "N (scan_pos v') - scan_pos v' < N (scan_pos v) - scan_pos v"
      using less1 rr1 unfolding p N1 r_def [symmetric] by linarith
    obtain es v'' where "scan_expansions t1 (mask k0) (mask k1) v' (out @ c) = Some ((out @ c) @ es, v'')"
      "scan_pos v'' = N r mod 2 ^ 64" "set es \<subseteq> set_mset (ht_bag t1)"
      "\<forall>e \<in># ht_bag t1. r1 \<le> entry_pos t e \<and> entry_pos t e < N r \<longrightarrow> e \<in> set es"
      using less.hyps [OF dec, of "out @ c"] unfolding p N1 by auto
    ultimately show ?thesis using c(2) c'
      by (intro exI [of _ "c @ es"] exI [of _ v'']) (auto simp: r_def [symmetric] not_le [symmetric])
  qed
qed


text \<open>
  One call advances the position to the end \<open>N\<close> of a block and emits every entry in between; the
  block is at least as long as the larger table allows.
\<close>

definition max_slots :: "('k, 'v) dict \<Rightarrow> nat" where
  "max_slots d = max (ht_size (ht0 d)) (ht_size (ht1 d))"

lemma scan_single:
  assumes core: "dict_core t d" and nr: "\<not> dictIsRehashing d" and ne: "dict_bag d \<noteq> {#}"
  shows "\<exists>es v' k. dictScan d v = Some (es, v') \<and> k \<le> 60 \<and> 2 ^ k \<le> max_slots d \<and>
    scan_pos v' = block_end (2 ^ (64 - k)) (scan_pos v) mod 2 ^ 64 \<and> set es \<subseteq> set_mset (dict_bag d) \<and>
    (\<forall>e \<in># dict_bag d. scan_pos v \<le> entry_pos t e \<and> entry_pos t e < block_end (2 ^ (64 - k)) (scan_pos v)
       \<longrightarrow> e \<in> set es)"
proof -
  have wf: "ht_wf t (ht0 d)" "0 < ht_size (ht0 d)" and reset: "ht1 d = dictReset_u"
    using core nr has_buckets_bag [OF core ne] by (auto simp: dict_core_def dictIsRehashing_def has_buckets_def)
  obtain k where k: "k \<le> 60" "ht_size (ht0 d) = 2 ^ k" "ht_sizemask (ht0 d) = mask k"
    using ht_wf_mask [OF wf] by blast
  have bag: "dict_bag d = ht_bag (ht0 d)" using reset by (simp add: dict_bag_def)
  obtain c where c: "bucket (ht0 d) (unat (v AND mask k)) = Some c" "set c \<subseteq> set_mset (ht_bag (ht0 d))"
    "\<forall>e \<in># ht_bag (ht0 d). entry_pos t e div 2 ^ (64 - k) = scan_pos v div 2 ^ (64 - k) \<longrightarrow> e \<in> set c"
    using scan_bucket [OF wf(1) k, of v] by blast
  have "dictSize d \<noteq> 0" using dict_core_size [OF core] ne by simp
  then have "dictScan d v = Some (c, scan_next (mask k) v)"
    using nr c(1) by (simp add: dictScan_def k(3))
  moreover have "scan_pos (scan_next (mask k) v) = block_end (2 ^ (64 - k)) (scan_pos v) mod 2 ^ 64"
    using scan_pos_next [of k v] k(1) by (simp add: block_end_def)
  moreover have "e \<in> set c" if "e \<in># dict_bag d" "scan_pos v \<le> entry_pos t e"
      "entry_pos t e < block_end (2 ^ (64 - k)) (scan_pos v)" for e
    using c(3) that same_block [of "2 ^ (64 - k)" "scan_pos v" "entry_pos t e"] by (simp add: bag)
  ultimately show ?thesis using c(2) k(1,2) by (intro exI [of _ c] exI exI [of _ k]) (simp add: bag max_slots_def)
qed

lemma scan_double:
  assumes core: "dict_core t d" and re: "dictIsRehashing d" and ne: "dict_bag d \<noteq> {#}"
  shows "\<exists>es v' k. dictScan d v = Some (es, v') \<and> k \<le> 60 \<and> 2 ^ k \<le> max_slots d \<and>
    scan_pos v' = block_end (2 ^ (64 - k)) (scan_pos v) mod 2 ^ 64 \<and> set es \<subseteq> set_mset (dict_bag d) \<and>
    (\<forall>e \<in># dict_bag d. scan_pos v \<le> entry_pos t e \<and> entry_pos t e < block_end (2 ^ (64 - k)) (scan_pos v)
       \<longrightarrow> e \<in> set es)"
proof -
  have wf: "ht_wf t (ht0 d)" "ht_wf t (ht1 d)" "0 < ht_size (ht0 d)" "0 < ht_size (ht1 d)"
    using core re by (auto simp: dict_core_def dictIsRehashing_def rehash_wf_def)
  define sm where "sm = (if ht_size (ht0 d) > ht_size (ht1 d) then ht1 d else ht0 d)"
  define la where "la = (if ht_size (ht0 d) > ht_size (ht1 d) then ht0 d else ht1 d)"
  have wf': "ht_wf t sm" "ht_wf t la" "0 < ht_size sm" "0 < ht_size la"
    using wf by (auto simp: sm_def la_def)
  obtain k where k: "k \<le> 60" "ht_size sm = 2 ^ k" "ht_sizemask sm = mask k" using ht_wf_mask [OF wf'(1,3)] by blast
  obtain l where l: "l \<le> 60" "ht_size la = 2 ^ l" "ht_sizemask la = mask l" using ht_wf_mask [OF wf'(2,4)] by blast
  have "ht_size sm \<le> ht_size la" by (simp add: sm_def la_def)
  then have kl: "k \<le> l" using k(2) l(2) by simp
  have bag: "dict_bag d = ht_bag sm + ht_bag la" by (simp add: dict_bag_def sm_def la_def ac_simps)
  obtain c where c: "bucket sm (unat (v AND mask k)) = Some c" "set c \<subseteq> set_mset (ht_bag sm)"
    "\<forall>e \<in># ht_bag sm. entry_pos t e div 2 ^ (64 - k) = scan_pos v div 2 ^ (64 - k) \<longrightarrow> e \<in> set c"
    using scan_bucket [OF wf'(1) k, of v] by blast
  let ?N = "block_end (2 ^ (64 - k)) (scan_pos v)"
  obtain es v' where e: "scan_expansions la (mask k) (mask l) v c = Some (c @ es, v')"
    "scan_pos v' = ?N mod 2 ^ 64" "set es \<subseteq> set_mset (ht_bag la)"
    "\<forall>e \<in># ht_bag la. scan_pos v \<le> entry_pos t e \<and> entry_pos t e < ?N \<longrightarrow> e \<in> set es"
    using scan_expansions_spec [OF wf'(2) kl l, of v c] by blast
  have "dictSize d \<noteq> 0" using dict_core_size [OF core] ne by simp
  then have "dictScan d v = Some (c @ es, v')"
    using re c(1) e(1) k(3) l(3) by (simp add: dictScan_def sm_def la_def Let_def split: if_splits)
  moreover have "e \<in> set c" if "e \<in># ht_bag sm" "scan_pos v \<le> entry_pos t e" "entry_pos t e < ?N" for e
    using c(3) that same_block [of "2 ^ (64 - k)" "scan_pos v" "entry_pos t e"] by simp
  moreover have "2 ^ k \<le> max_slots d" using k(2) by (simp add: max_slots_def sm_def split: if_splits)
  ultimately show ?thesis using c(2) k(1) e(2-4)
    by (intro exI [of _ "c @ es"] exI [of _ v'] exI [of _ k]) (auto simp: bag)
qed

lemma dictScan_step:
  assumes core: "dict_core t d"
  shows "\<exists>es v' n. dictScan d v = Some (es, v') \<and> scan_pos v < n \<and> n \<le> 2 ^ 64 \<and> scan_pos v' = n mod 2 ^ 64 \<and>
    set es \<subseteq> set_mset (dict_bag d) \<and>
    (\<forall>e \<in># dict_bag d. scan_pos v \<le> entry_pos t e \<and> entry_pos t e < n \<longrightarrow> e \<in> set es) \<and>
    (\<forall>m \<le> 64. max_slots d \<le> 2 ^ m \<longrightarrow> block_end (2 ^ (64 - m)) (scan_pos v) \<le> n)"
proof (cases "dict_bag d = {#}")
  case True
  then have "dictScan d v = Some ([], 0)" using dict_core_size [OF core] by (simp add: dictScan_def)
  then show ?thesis using True scan_pos_less [of v] scan_pos_0 [of 0] block_end_64
    by (intro exI [of _ "[]"] exI [of _ 0] exI [of _ "2 ^ 64"] conjI) simp_all
next
  case False
  obtain es v' k where s: "dictScan d v = Some (es, v')" "k \<le> 60" "2 ^ k \<le> max_slots d"
    "scan_pos v' = block_end (2 ^ (64 - k)) (scan_pos v) mod 2 ^ 64" "set es \<subseteq> set_mset (dict_bag d)"
    "\<forall>e \<in># dict_bag d. scan_pos v \<le> entry_pos t e \<and> entry_pos t e < block_end (2 ^ (64 - k)) (scan_pos v)
       \<longrightarrow> e \<in> set es"
    using scan_single [OF core _ False, of v] scan_double [OF core _ False, of v] by blast
  have "block_end (2 ^ (64 - m)) (scan_pos v) \<le> block_end (2 ^ (64 - k)) (scan_pos v)"
    if "m \<le> 64" "max_slots d \<le> 2 ^ m" for m
  proof -
    have "(2 :: nat) ^ k \<le> 2 ^ m" using s(3) that(2) by (rule order_trans)
    then have "k \<le> m" by simp
    then have "2 ^ (64 - m) dvd (2 :: nat) ^ (64 - k)" by (intro le_imp_power_dvd) simp
    then show ?thesis
      by (intro block_end_least block_end_gr dvd_trans [OF _ block_end_dvd]) simp_all
  qed
  moreover have "block_end (2 ^ (64 - k)) (scan_pos v) \<le> 2 ^ 64" using s(2) by (intro block_end_64) simp
  ultimately show ?thesis using s(1,4-6) block_end_gr [of "2 ^ (64 - k)" "scan_pos v"]
    by (intro exI [of _ es] exI [of _ v'] exI [of _ "block_end (2 ^ (64 - k)) (scan_pos v)"] conjI) simp_all
qed


section \<open>A whole scan\<close>

text \<open>
  A client calls \<open>dictScan\<close> with the cursor of the call before until it gets zero; between the
  calls the dictionary may change, so the calls see a list of states.
\<close>

fun scan_run :: "('k, 'v) dict list \<Rightarrow> u64 \<Rightarrow> (('k, 'v) dictEntry list \<times> u64) option" where
  "scan_run [] v = Some ([], v)"
| "scan_run (d # ds) v = do {
     (es, v') \<leftarrow> dictScan d v;
     if v' = 0 then Some (es, 0)
     else do {
       (fs, w) \<leftarrow> scan_run ds v';
       Some (es @ fs, w) } }"

lemma scan_run_reaches:
  assumes "\<And>d. d \<in> set ds \<Longrightarrow> dict_core t d"
    and "\<And>d. d \<in> set ds \<Longrightarrow> \<exists>e \<in># dict_bag d. P e \<and> entry_pos t e = p"
    and "scan_pos v \<le> p" "p < 2 ^ 64" "ds \<noteq> []" "scan_run ds v = Some (es, 0)"
  shows "\<exists>e \<in> set es. P e"
  using assms
proof (induction ds arbitrary: v es)
  case (Cons d ds)
  obtain fs v' n where s: "dictScan d v = Some (fs, v')" "scan_pos v' = n mod 2 ^ 64"
    "\<forall>e \<in># dict_bag d. scan_pos v \<le> entry_pos t e \<and> entry_pos t e < n \<longrightarrow> e \<in> set fs" "n \<le> 2 ^ 64"
    "scan_pos v < n"
    using dictScan_step [OF Cons.prems(1) [of d], of v] by auto
  obtain gs where es: "es = fs @ gs" "v' \<noteq> 0 \<Longrightarrow> scan_run ds v' = Some (gs, 0)"
    using Cons.prems(6) s(1) by (auto split: if_splits bind_splits)
  show ?case
  proof (cases "p < n")
    case True
    then show ?thesis using s(3) Cons.prems(2) [of d] Cons.prems(3) es(1) by auto
  next
    case False
    then have p': "scan_pos v' = n" using s(2) Cons.prems(4) by simp
    then have "v' \<noteq> 0" using s(5) scan_pos_0 [of v'] by auto
    then have "scan_run ds v' = Some (gs, 0)" "ds \<noteq> []" using es(2) by auto
    then show ?thesis using Cons.IH [of v' gs] Cons.prems(1,2,4) p' False es(1) by auto
  qed
qed simp

lemma scan_run_ends:
  assumes "\<And>d. d \<in> set ds \<Longrightarrow> dict_core t d" "\<And>d. d \<in> set ds \<Longrightarrow> max_slots d \<le> 2 ^ m" "m \<le> 64"
    and "2 ^ m \<le> scan_pos v div 2 ^ (64 - m) + length ds"
  shows "\<exists>es. scan_run ds v = Some (es, 0)"
  using assms
proof (induction ds arbitrary: v)
  case Nil
  have "(2 :: nat) ^ m * 2 ^ (64 - m) = 2 ^ 64" using Nil(3) by (simp flip: power_add)
  then have "scan_pos v div 2 ^ (64 - m) < 2 ^ m"
    using scan_pos_less [of v] by (metis less_mult_imp_div_less)
  then show ?case using Nil(4) by simp
next
  case (Cons d ds)
  obtain fs v' n where s: "dictScan d v = Some (fs, v')" "scan_pos v' = n mod 2 ^ 64" "n \<le> 2 ^ 64"
    "\<forall>m \<le> 64. max_slots d \<le> 2 ^ m \<longrightarrow> block_end (2 ^ (64 - m)) (scan_pos v) \<le> n"
    using dictScan_step [OF Cons.prems(1) [of d], of v] by auto
  show ?case
  proof (cases "v' = 0")
    case False
    then have "n \<noteq> 2 ^ 64" using s(2) scan_pos_0 [of v'] by auto
    then have "scan_pos v' = n" using s(2,3) by simp
    moreover have "block_end (2 ^ (64 - m)) (scan_pos v) \<le> n" using s(4) Cons.prems(2,3) by simp
    then have "block_end (2 ^ (64 - m)) (scan_pos v) div 2 ^ (64 - m) \<le> n div 2 ^ (64 - m)" by (rule div_le_mono)
    then have "scan_pos v div 2 ^ (64 - m) + 1 \<le> n div 2 ^ (64 - m)" by (simp add: block_end_def)
    ultimately show ?thesis using Cons.IH [of v'] Cons.prems s(1) False by auto
  qed (use s(1) in auto)
qed

end
