(* ===== verification/Dict_Iter.thy ===== *)
theory Dict_Iter
  imports Dict
begin

text \<open>
  Iterators over a dictionary, safe and unsafe, with the fingerprint that detects misuse of the
  unsafe ones; and the random choices \<open>dictGetRandomKey\<close> and \<open>dictGetSomeKeys\<close>. A pointer into a
  chain is the rest of the chain from there on, which is the memory it reaches as long as the
  chain is not changed; the iteration lemmas are about dictionaries that are not changed during
  the iteration, as the unsafe iterators require. The addresses of the two tables, which enter the
  fingerprint, and the random numbers are arguments.
\<close>

section \<open>Fingerprints\<close>

definition fingerprint_mix :: "u64 \<Rightarrow> u64 \<Rightarrow> u64" where
  "fingerprint_mix hash integer =
     (let hash = hash + integer;
          hash = NOT hash + push_bit 21 hash;
          hash = hash XOR signed_drop_bit 24 hash;
          hash = (hash + push_bit 3 hash) + push_bit 8 hash;
          hash = hash XOR signed_drop_bit 14 hash;
          hash = (hash + push_bit 2 hash) + push_bit 4 hash;
          hash = hash XOR signed_drop_bit 28 hash
      in hash + push_bit 31 hash)"

definition dictFingerprint :: "u64 \<times> u64 \<Rightarrow> ('k, 'v) dict \<Rightarrow> u64" where
  "dictFingerprint addr d =
     foldl fingerprint_mix 0
       [fst addr, of_nat (ht_size (ht0 d)), of_nat (ht_used (ht0 d)),
        snd addr, of_nat (ht_size (ht1 d)), of_nat (ht_used (ht1 d))]"

section \<open>Iterators\<close>

record ('k, 'v) dictIterator =
  it_index :: int
  it_table :: nat
  it_safe :: bool
  it_entry :: "('k, 'v) dictEntry list"
  it_nextEntry :: "('k, 'v) dictEntry list"
  it_fingerprint :: u64

definition dictGetIterator :: "u64 \<Rightarrow> ('k, 'v) dictIterator" where
  "dictGetIterator junk =
     \<lparr>it_index = -1, it_table = 0, it_safe = False, it_entry = [], it_nextEntry = [], it_fingerprint = junk\<rparr>"

definition dictGetSafeIterator :: "u64 \<Rightarrow> ('k, 'v) dictIterator" where
  "dictGetSafeIterator junk = (dictGetIterator junk)\<lparr>it_safe := True\<rparr>"

text \<open>
  The part of the loop body that moves to the next bucket: the first call pauses rehashing or
  takes the fingerprint; \<open>None\<close> as the chain is the \<open>break\<close>.
\<close>

definition dictNext_bucket ::
  "u64 \<times> u64 \<Rightarrow> ('k, 'v) dict \<Rightarrow> ('k, 'v) dictIterator
    \<Rightarrow> (('k, 'v) dict \<times> ('k, 'v) dictIterator \<times> ('k, 'v) dictEntry list option) option" where
  "dictNext_bucket addr d iter =
     (let first = (it_index iter = -1 \<and> it_table iter = 0);
          d' = (if first \<and> it_safe iter then dictPauseRehashing d else d);
          iter = (if first \<and> \<not> it_safe iter then iter\<lparr>it_fingerprint := dictFingerprint addr d\<rparr> else iter);
          ht = dict_ht d' (it_table iter);
          iter = iter\<lparr>it_index := it_index iter + 1\<rparr>
      in if it_index iter \<ge> int (ht_size ht) then
           (if dictIsRehashing d' \<and> it_table iter = 0
            then map_option (\<lambda>c. (d', iter\<lparr>it_table := 1, it_index := 0, it_entry := c\<rparr>, Some c))
                   (bucket (ht1 d') 0)
            else Some (d', iter, None))
         else map_option (\<lambda>c. (d', iter\<lparr>it_entry := c\<rparr>, Some c)) (bucket ht (nat (it_index iter))))"

partial_function (option) dictNext ::
  "u64 \<times> u64 \<Rightarrow> ('k, 'v) dict \<Rightarrow> ('k, 'v) dictIterator
    \<Rightarrow> (('k, 'v) dict \<times> ('k, 'v) dictIterator \<times> ('k, 'v) dictEntry option) option" where
  [code]: "dictNext addr d iter = do {
     (d, iter, c) \<leftarrow> (if it_entry iter = [] then dictNext_bucket addr d iter
                     else Some (d, iter\<lparr>it_entry := it_nextEntry iter\<rparr>, Some (it_nextEntry iter)));
     (case c of
        None \<Rightarrow> Some (d, iter, None)
      | Some [] \<Rightarrow> dictNext addr d iter
      | Some (e # nxt) \<Rightarrow> Some (d, iter\<lparr>it_nextEntry := nxt\<rparr>, Some e)) }"

definition dictReleaseIterator ::
  "u64 \<times> u64 \<Rightarrow> ('k, 'v) dict \<Rightarrow> ('k, 'v) dictIterator \<Rightarrow> ('k, 'v) dict option" where
  "dictReleaseIterator addr d iter =
     (if \<not> (it_index iter = -1 \<and> it_table iter = 0)
      then (if it_safe iter then Some (dictResumeRehashing d)
            else if it_fingerprint iter = dictFingerprint addr d then Some d else None)
      else Some d)"

text \<open>The iteration of a client: \<open>while ((de = dictNext(di)) != NULL)\<close>, then the release.\<close>

partial_function (option) dict_iterate ::
  "u64 \<times> u64 \<Rightarrow> ('k, 'v) dict \<Rightarrow> ('k, 'v) dictIterator
    \<Rightarrow> (('k, 'v) dict \<times> ('k, 'v) dictEntry list) option" where
  [code]: "dict_iterate addr d iter = do {
     (d, iter, e) \<leftarrow> dictNext addr d iter;
     (case e of
        None \<Rightarrow> do { d' \<leftarrow> dictReleaseIterator addr d iter; Some (d', []) }
      | Some de \<Rightarrow> do { (d', es) \<leftarrow> dict_iterate addr d iter; Some (d', de # es) }) }"

section \<open>An iteration meets every entry once\<close>

text \<open>The entries in the buckets an iterator has not come to, and all it still has to return.\<close>

definition buckets_rest :: "('k, 'v) dict \<Rightarrow> ('k, 'v) dictIterator \<Rightarrow> ('k, 'v) dictEntry list list" where
  "buckets_rest d iter =
     drop (nat (it_index iter + 1)) (ht_table (dict_ht d (it_table iter))) @
     (if it_table iter = 0 then ht_table (ht1 d) else [])"

definition iter_rest :: "('k, 'v) dict \<Rightarrow> ('k, 'v) dictIterator \<Rightarrow> ('k, 'v) dictEntry list" where
  "iter_rest d iter = (if it_entry iter = [] then [] else it_nextEntry iter) @ concat (buckets_rest d iter)"

definition iter_ok :: "u64 \<times> u64 \<Rightarrow> ('k, 'v) dict \<Rightarrow> ('k, 'v) dict \<Rightarrow> ('k, 'v) dictIterator \<Rightarrow> bool" where
  "iter_ok addr d0 d iter \<longleftrightarrow>
     it_table iter \<le> 1 \<and> - 1 \<le> it_index iter \<and>
     (it_table iter = 1 \<longrightarrow> dictIsRehashing d0 \<and> 0 \<le> it_index iter) \<and>
     (if it_index iter = -1
      then d = d0 \<and> it_entry iter = []
      else it_index iter < int (ht_size (dict_ht d0 (it_table iter))) \<and>
        (if it_safe iter then d = dictPauseRehashing d0
         else d = d0 \<and> it_fingerprint iter = dictFingerprint addr d0))"

lemma pause_simps [simp]:
  "ht0 (dictPauseRehashing d) = ht0 d" "ht1 (dictPauseRehashing d) = ht1 d"
  "dictIsRehashing (dictPauseRehashing d) = dictIsRehashing d" "dict_ht (dictPauseRehashing d) = dict_ht d"
  "dictResumeRehashing (dictPauseRehashing d) = d"
  by (simp_all add: dictPauseRehashing_def dictResumeRehashing_def dictIsRehashing_def dict_ht_def fun_eq_iff)

lemma iter_ok_dict: "iter_ok addr d0 d iter \<Longrightarrow> dict_ht d = dict_ht d0 \<and> ht1 d = ht1 d0 \<and> dictIsRehashing d = dictIsRehashing d0"
  by (auto simp: iter_ok_def split: if_splits)

text \<open>The state after the first statement of the bucket step.\<close>

definition iter_started :: "u64 \<times> u64 \<Rightarrow> ('k, 'v) dict \<Rightarrow> ('k, 'v) dict \<Rightarrow> ('k, 'v) dictIterator \<Rightarrow> bool" where
  "iter_started addr d0 d iter \<longleftrightarrow>
     (if it_safe iter then d = dictPauseRehashing d0 else d = d0 \<and> it_fingerprint iter = dictFingerprint addr d0)"

lemma release_started:
  "iter_started addr d0 d iter \<Longrightarrow> it_index iter \<noteq> -1 \<or> it_table iter \<noteq> 0 \<Longrightarrow> dictReleaseIterator addr d iter = Some d0"
  by (auto simp: iter_started_def dictReleaseIterator_def split: if_splits)

lemma dictNext_bucket_spec:
  assumes core: "dict_core t d0" and ok: "iter_ok addr d0 d iter" and emp: "it_entry iter = []"
  shows "\<exists>d' iter' c. dictNext_bucket addr d iter = Some (d', iter', c) \<and> it_safe iter' = it_safe iter \<and>
    iter_started addr d0 d' iter' \<and>
    (case c of
       None \<Rightarrow> buckets_rest d0 iter = [] \<and> it_index iter' \<noteq> -1
     | Some chain \<Rightarrow> iter_ok addr d0 d' iter' \<and> it_entry iter' = chain \<and>
         buckets_rest d0 iter = chain # buckets_rest d0 iter')"
proof -
  define T where "T = ht_table (dict_ht d0 (it_table iter))"
  define i where "i = it_index iter + 1"
  define first where "first \<longleftrightarrow> it_index iter = -1 \<and> it_table iter = 0"
  define d' where "d' = (if first \<and> it_safe iter then dictPauseRehashing d else d)"
  define it' where "it' = (if first \<and> \<not> it_safe iter then iter\<lparr>it_fingerprint := dictFingerprint addr d\<rparr> else iter)"
  have wf: "ht_wf t (dict_ht d0 (it_table iter))" "ht_wf t (ht1 d0)"
    using core by (auto simp: dict_core_def dict_ht_def)
  have len: "length T = ht_size (dict_ht d0 (it_table iter))" using wf(1) by (simp add: T_def ht_wf_def)
  have i0: "0 \<le> i" using ok by (simp add: i_def iter_ok_def)
  have d': "dict_ht d' = dict_ht d0" "ht1 d' = ht1 d0" "dictIsRehashing d' = dictIsRehashing d0"
    using iter_ok_dict [OF ok] by (simp_all add: d'_def)
  have it': "it_index it' = it_index iter" "it_table it' = it_table iter" "it_safe it' = it_safe iter"
    by (simp_all add: it'_def)
  have started: "iter_started addr d0 d' it'"
    using ok by (auto simp: iter_started_def d'_def it'_def first_def iter_ok_def split: if_splits)
  have eq: "dictNext_bucket addr d iter =
      (if i \<ge> int (ht_size (dict_ht d0 (it_table iter))) then
         (if dictIsRehashing d0 \<and> it_table iter = 0
          then map_option (\<lambda>c. (d', it'\<lparr>it_table := 1, it_index := 0, it_entry := c\<rparr>, Some c)) (bucket (ht1 d0) 0)
          else Some (d', it'\<lparr>it_index := i\<rparr>, None))
       else map_option (\<lambda>c. (d', it'\<lparr>it_index := i, it_entry := c\<rparr>, Some c)) (bucket (dict_ht d0 (it_table iter)) (nat i)))"
    by (simp add: dictNext_bucket_def Let_def d' it' i_def flip: first_def d'_def it'_def)
  consider (move) "i < int (ht_size (dict_ht d0 (it_table iter)))"
    | (second) "i \<ge> int (ht_size (dict_ht d0 (it_table iter)))" "dictIsRehashing d0" "it_table iter = 0"
    | (last) "i \<ge> int (ht_size (dict_ht d0 (it_table iter)))" "\<not> (dictIsRehashing d0 \<and> it_table iter = 0)"
    by linarith
  then show ?thesis
  proof cases
    case move
    then have ni: "nat i < length T" using i0 len by linarith
    have "buckets_rest d0 iter = T ! nat i # buckets_rest d0 (it'\<lparr>it_index := i, it_entry := T ! nat i\<rparr>)"
    proof -
      have "buckets_rest d0 iter = drop (nat i) T @ (if it_table iter = 0 then ht_table (ht1 d0) else [])"
        by (simp add: buckets_rest_def T_def i_def)
      moreover have "nat (i + 1) = Suc (nat i)" using i0 by simp
      then have "buckets_rest d0 (it'\<lparr>it_index := i, it_entry := T ! nat i\<rparr>) =
          drop (Suc (nat i)) T @ (if it_table iter = 0 then ht_table (ht1 d0) else [])"
        by (simp add: buckets_rest_def T_def it')
      ultimately show ?thesis using Cons_nth_drop_Suc [OF ni] by simp
    qed
    then show ?thesis using move started ok i0 ni
      by (auto simp: eq bucket_def T_def [symmetric] iter_started_def iter_ok_def it' i_def [symmetric])
  next
    case second
    have "0 < ht_size (ht1 d0)" using core second(2) by (simp add: dict_core_def dictIsRehashing_def rehash_wf_def)
    then have ne: "ht_table (ht1 d0) \<noteq> []" using ht_wf_table_empty [OF wf(2)] by simp
    have "drop (nat i) T = []" using second(1) len by simp
    then have "buckets_rest d0 iter = ht_table (ht1 d0) ! 0 #
        buckets_rest d0 (it'\<lparr>it_table := 1, it_index := 0, it_entry := ht_table (ht1 d0) ! 0\<rparr>)"
      using second(3) ne by (cases "ht_table (ht1 d0)") (simp_all add: buckets_rest_def T_def i_def dict_ht_def)
    then show ?thesis using second started ne \<open>0 < ht_size (ht1 d0)\<close>
      by (auto simp: eq bucket_def iter_started_def iter_ok_def it' dict_ht_def)
  next
    case last
    have "ht1 d0 = dictReset_u" if "it_table iter = 0"
      using that last(2) core by (simp add: dict_core_def dictIsRehashing_def)
    then have "buckets_rest d0 iter = []" using last(1) len by (auto simp: buckets_rest_def T_def i_def)
    then show ?thesis using last started i0 it'(3) by (auto simp: eq iter_started_def)
  qed
qed


lemma iter_ok_started: "iter_ok addr d0 d iter \<Longrightarrow> it_entry iter \<noteq> [] \<Longrightarrow> iter_started addr d0 d iter"
  by (auto simp: iter_ok_def iter_started_def split: if_splits)

lemma dictNext_spec:
  assumes "dict_core t d0" "iter_ok addr d0 d iter"
  shows "\<exists>d' iter'. it_safe iter' = it_safe iter \<and>
    (case iter_rest d0 iter of
       [] \<Rightarrow> dictNext addr d iter = Some (d', iter', None) \<and> dictReleaseIterator addr d' iter' = Some d0
     | e # es \<Rightarrow> dictNext addr d iter = Some (d', iter', Some e) \<and> iter_ok addr d0 d' iter' \<and> iter_rest d0 iter' = es)"
  using assms(2)
proof (induction "(length (buckets_rest d0 iter), it_entry iter \<noteq> [])" arbitrary: d iter
    rule: wf_induct_rule [OF wf_lex_prod [OF wf_measure [of "\<lambda>n. n"] wf_measure [of "\<lambda>b. if b then 1 else 0"]]])
  case 1
  note IH = 1(1) and ok = 1(2)
  show ?case
  proof (cases "it_entry iter = []")
    case True
    obtain d' iter' c where b: "dictNext_bucket addr d iter = Some (d', iter', c)" "it_safe iter' = it_safe iter"
      "iter_started addr d0 d' iter'"
      "case c of
         None \<Rightarrow> buckets_rest d0 iter = [] \<and> it_index iter' \<noteq> -1
       | Some chain \<Rightarrow> iter_ok addr d0 d' iter' \<and> it_entry iter' = chain \<and>
           buckets_rest d0 iter = chain # buckets_rest d0 iter'"
      using dictNext_bucket_spec [OF assms(1) ok True] by blast
    show ?thesis
    proof (cases c)
      case None
      then have "dictNext addr d iter = Some (d', iter', None)" using True b(1) by (simp add: dictNext.simps)
      then show ?thesis using None b(2,4) True release_started [OF b(3)] by (auto simp: iter_rest_def)
    next
      case (Some chain)
      show ?thesis
      proof (cases chain)
        case Nil
        then have n: "dictNext addr d iter = dictNext addr d' iter'"
          using True b(1) Some by (subst dictNext.simps) simp
        have r: "iter_rest d0 iter = iter_rest d0 iter'"
          using b(4) Some Nil True by (simp add: iter_rest_def)
        show ?thesis unfolding n r using IH [of iter' d'] b(2,4) Some by simp
      next
        case (Cons e nxt)
        then have "dictNext addr d iter = Some (d', iter'\<lparr>it_nextEntry := nxt\<rparr>, Some e)"
          using True b(1) Some by (subst dictNext.simps) simp
        moreover have "buckets_rest d0 (iter'\<lparr>it_nextEntry := nxt\<rparr>) = buckets_rest d0 iter'"
          by (simp add: buckets_rest_def)
        ultimately show ?thesis using b(2,4) Some Cons True
          by (auto simp: iter_rest_def iter_ok_def)
      qed
    qed
  next
    case False
    let ?it = "iter\<lparr>it_entry := it_nextEntry iter\<rparr>"
    have same: "buckets_rest d0 ?it = buckets_rest d0 iter" by (simp add: buckets_rest_def)
    have ok': "iter_ok addr d0 d ?it" using ok False by (auto simp: iter_ok_def split: if_splits)
    show ?thesis
    proof (cases "it_nextEntry iter")
      case Nil
      then have n: "dictNext addr d iter = dictNext addr d ?it" using False by (subst dictNext.simps) simp
      have r: "iter_rest d0 iter = iter_rest d0 ?it" using Nil same by (simp add: iter_rest_def)
      show ?thesis unfolding n r using IH [of ?it d] ok' Nil same False by simp
    next
      case (Cons e nxt)
      then have "dictNext addr d iter = Some (d, ?it\<lparr>it_nextEntry := nxt\<rparr>, Some e)"
        using False by (subst dictNext.simps) simp
      moreover have "iter_rest d0 (?it\<lparr>it_nextEntry := nxt\<rparr>) = nxt @ concat (buckets_rest d0 iter)"
        using Cons by (simp add: iter_rest_def buckets_rest_def)
      moreover have "iter_ok addr d0 d (?it\<lparr>it_nextEntry := nxt\<rparr>)" using ok' by (auto simp: iter_ok_def split: if_splits)
      moreover have "iter_rest d0 iter = e # nxt @ concat (buckets_rest d0 iter)"
        using Cons False by (simp add: iter_rest_def)
      ultimately show ?thesis by auto
    qed
  qed
qed

lemma dict_iterate_rest:
  assumes "dict_core t d0" "iter_ok addr d0 d iter"
  shows "dict_iterate addr d iter = Some (d0, iter_rest d0 iter)"
  using assms(2)
proof (induction "iter_rest d0 iter" arbitrary: d iter)
  case Nil
  then show ?case using dictNext_spec [OF assms(1) Nil.prems] by (auto simp: dict_iterate.simps [of addr d])
next
  case (Cons e es)
  obtain d' iter' where n: "dictNext addr d iter = Some (d', iter', Some e)" "iter_ok addr d0 d' iter'"
    "iter_rest d0 iter' = es"
    using dictNext_spec [OF assms(1) Cons.prems] unfolding Cons.hyps(2) [symmetric] by auto
  then show ?case using Cons.hyps(1) [of iter' d'] unfolding Cons.hyps(2) [symmetric]
    by (subst dict_iterate.simps) simp
qed

lemma dict_iterate_spec:
  assumes "dict_core t d" "iter = dictGetIterator junk \<or> iter = dictGetSafeIterator junk"
  shows "dict_iterate addr d iter = Some (d, dict_entries d)"
proof -
  have "iter_ok addr d d iter" "iter_rest d iter = dict_entries d"
    using assms(2) by (auto simp: iter_ok_def iter_rest_def buckets_rest_def dict_entries_def dict_ht_def
        dictGetIterator_def dictGetSafeIterator_def)
  then show ?thesis using dict_iterate_rest [OF assms(1), of addr d iter] by simp
qed


section \<open>Random entries\<close>

text \<open>The bucket a random number selects, and the loop until it has an entry.\<close>

definition random_slot :: "('k, 'v) dict \<Rightarrow> u64 \<Rightarrow> ('k, 'v) dictEntry list option" where
  "random_slot d r =
     (if dictIsRehashing d then
        (let h = nat (rehashidx d) + unat r mod (dictSlots d - nat (rehashidx d))
         in if h \<ge> ht_size (ht0 d) then bucket (ht1 d) (h - ht_size (ht0 d)) else bucket (ht0 d) h)
      else bucket (ht0 d) (unat (r AND ht_sizemask (ht0 d))))"

partial_function (option) random_bucket ::
  "('k, 'v) dict \<Rightarrow> (nat \<Rightarrow> u64) \<Rightarrow> nat \<Rightarrow> ('k, 'v) dictEntry list option" where
  [code]: "random_bucket d rnd n = do {
     he \<leftarrow> random_slot d (rnd n);
     if he = [] then random_bucket d rnd (n + 1) else Some he }"

definition dictGetRandomKey ::
  "('k, 'v) dictType \<Rightarrow> (nat \<Rightarrow> u64) \<Rightarrow> nat \<Rightarrow> ('k, 'v) dict
    \<Rightarrow> (('k, 'v) dict \<times> ('k, 'v) dictEntry option) option" where
  "dictGetRandomKey t rnd r d =
     (if dictSize d = 0 then Some (d, None)
      else do {
        d \<leftarrow> (if dictIsRehashing d then dictRehashStep_u t d else Some d);
        he \<leftarrow> random_bucket d rnd 0;
        Some (d, Some (he ! (r mod length he))) })"

text \<open>\<open>dictGetSomeKeys\<close>: the rehashing steps, the body of the loop over the tables, the outer loop.\<close>

primrec some_rehash :: "('k, 'v) dictType \<Rightarrow> nat \<Rightarrow> ('k, 'v) dict \<Rightarrow> ('k, 'v) dict option" where
  "some_rehash t 0 d = Some d"
| "some_rehash t (Suc j) d =
     (if dictIsRehashing d then dictRehashStep_u t d \<bind> some_rehash t j else Some d)"

record ('k, 'v) some_state =
  sk_i :: u64
  sk_emptylen :: nat
  sk_des :: "('k, 'v) dictEntry list"
  sk_rnd :: nat

definition some_table ::
  "('k, 'v) dict \<Rightarrow> (nat \<Rightarrow> u64) \<Rightarrow> nat \<Rightarrow> u64 \<Rightarrow> nat \<Rightarrow> nat \<Rightarrow> ('k, 'v) some_state \<Rightarrow> ('k, 'v) some_state option" where
  "some_table d rnd cnt maxsizemask tables j s =
     (let skip = (tables = 2 \<and> j = 0 \<and> int (unat (sk_i s)) < rehashidx d);
          jump = (skip \<and> unat (sk_i s) \<ge> ht_size (ht1 d));
          s = (if jump then s\<lparr>sk_i := of_int (rehashidx d)\<rparr> else s)
      in if skip \<and> \<not> jump then Some s
         else if unat (sk_i s) \<ge> ht_size (dict_ht d j) then Some s
         else do {
           he \<leftarrow> bucket (dict_ht d j) (unat (sk_i s));
           if he = [] then
             (if sk_emptylen s + 1 \<ge> 5 \<and> sk_emptylen s + 1 > cnt
              then Some (s\<lparr>sk_i := rnd (sk_rnd s) AND maxsizemask, sk_emptylen := 0, sk_rnd := sk_rnd s + 1\<rparr>)
              else Some (s\<lparr>sk_emptylen := sk_emptylen s + 1\<rparr>))
           else Some (s\<lparr>sk_emptylen := 0, sk_des := sk_des s @ take (cnt - length (sk_des s)) he\<rparr>) })"

primrec some_loop ::
  "('k, 'v) dict \<Rightarrow> (nat \<Rightarrow> u64) \<Rightarrow> nat \<Rightarrow> u64 \<Rightarrow> nat \<Rightarrow> nat \<Rightarrow> ('k, 'v) some_state \<Rightarrow> ('k, 'v) some_state option" where
  "some_loop d rnd cnt maxsizemask tables 0 s = Some s"
| "some_loop d rnd cnt maxsizemask tables (Suc maxsteps) s =
     (if length (sk_des s) < cnt then do {
        s \<leftarrow> some_table d rnd cnt maxsizemask tables 0 s;
        if length (sk_des s) = cnt then Some s
        else do {
          s \<leftarrow> (if tables > 1 then some_table d rnd cnt maxsizemask tables 1 s else Some s);
          if length (sk_des s) = cnt then Some s
          else some_loop d rnd cnt maxsizemask tables maxsteps
                 (s\<lparr>sk_i := (sk_i s + 1) AND maxsizemask\<rparr>) } }
      else Some s)"

definition dictGetSomeKeys ::
  "('k, 'v) dictType \<Rightarrow> (nat \<Rightarrow> u64) \<Rightarrow> ('k, 'v) dict \<Rightarrow> nat
    \<Rightarrow> (('k, 'v) dict \<times> ('k, 'v) dictEntry list) option" where
  "dictGetSomeKeys t rnd d cnt =
     (let cnt = (if dictSize d < cnt then dictSize d else cnt);
          maxsteps = cnt * 10 mod 2 ^ 32
      in do {
        d \<leftarrow> some_rehash t cnt d;
        let tables = (if dictIsRehashing d then 2 else 1);
        let maxsizemask = (if tables > 1 \<and> ht_sizemask (ht0 d) < ht_sizemask (ht1 d)
                           then ht_sizemask (ht1 d) else ht_sizemask (ht0 d));
        s \<leftarrow> some_loop d rnd cnt maxsizemask tables maxsteps
              \<lparr>sk_i = rnd 0 AND maxsizemask, sk_emptylen = 0, sk_des = [], sk_rnd = 1\<rparr>;
        Some (d, sk_des s) })"

text \<open>
  \<open>dictGetFairRandomKey\<close>: \<open>rnd\<close> are the random numbers of the sampling, \<open>rnd'\<close> those of the fallback,
  \<open>r\<close> the last random choice of either.
\<close>

definition GETFAIR_NUM_ENTRIES :: nat where "GETFAIR_NUM_ENTRIES = 15"

definition dictGetFairRandomKey ::
  "('k, 'v) dictType \<Rightarrow> (nat \<Rightarrow> u64) \<Rightarrow> (nat \<Rightarrow> u64) \<Rightarrow> nat \<Rightarrow> ('k, 'v) dict
    \<Rightarrow> (('k, 'v) dict \<times> ('k, 'v) dictEntry option) option" where
  "dictGetFairRandomKey t rnd rnd' r d = do {
     (d, entries) \<leftarrow> dictGetSomeKeys t rnd d GETFAIR_NUM_ENTRIES;
     if entries = [] then dictGetRandomKey t rnd' r d
     else Some (d, Some (entries ! (r mod length entries))) }"

lemma bucket_in_bag:
  "dict_core t d \<Longrightarrow> bucket (dict_ht d j) i = Some c \<Longrightarrow> set c \<subseteq> set_mset (dict_bag d)"
  by (auto simp: bucket_def dict_ht_def dict_bag_def ht_bag_def split: if_splits)

lemma some_table_spec:
  assumes core: "dict_core t d" and des: "set (sk_des s) \<subseteq> set_mset (dict_bag d)" "length (sk_des s) \<le> cnt"
  shows "\<exists>s'. some_table d rnd cnt m tables j s = Some s' \<and>
    set (sk_des s') \<subseteq> set_mset (dict_bag d) \<and> length (sk_des s') \<le> cnt"
proof -
  have len: "length (ht_table (dict_ht d j)) = ht_size (dict_ht d j)"
    using dict_core_ht [OF core, of j] by (simp add: ht_wf_def)
  define skip where "skip \<longleftrightarrow> tables = 2 \<and> j = 0 \<and> int (unat (sk_i s)) < rehashidx d"
  define jump where "jump \<longleftrightarrow> skip \<and> unat (sk_i s) \<ge> ht_size (ht1 d)"
  define s1 where "s1 = (if jump then s\<lparr>sk_i := of_int (rehashidx d)\<rparr> else s)"
  have des1: "sk_des s1 = sk_des s" by (simp add: s1_def)
  have defs: "some_table d rnd cnt m tables j s =
      (if skip \<and> \<not> jump then Some s1
       else if unat (sk_i s1) \<ge> ht_size (dict_ht d j) then Some s1
       else do {
         he \<leftarrow> bucket (dict_ht d j) (unat (sk_i s1));
         if he = [] then
           (if sk_emptylen s1 + 1 \<ge> 5 \<and> sk_emptylen s1 + 1 > cnt
            then Some (s1\<lparr>sk_i := rnd (sk_rnd s1) AND m, sk_emptylen := 0, sk_rnd := sk_rnd s1 + 1\<rparr>)
            else Some (s1\<lparr>sk_emptylen := sk_emptylen s1 + 1\<rparr>))
         else Some (s1\<lparr>sk_emptylen := 0, sk_des := sk_des s1 @ take (cnt - length (sk_des s1)) he\<rparr>) })"
    unfolding some_table_def skip_def jump_def s1_def Let_def by (rule refl)
  show ?thesis
  proof (cases "(skip \<and> \<not> jump) \<or> unat (sk_i s1) \<ge> ht_size (dict_ht d j)")
    case True
    then have "some_table d rnd cnt m tables j s = Some s1" by (auto simp: defs)
    then show ?thesis using des des1 by simp
  next
    case False
    then obtain c where c: "bucket (dict_ht d j) (unat (sk_i s1)) = Some c" using len by (simp add: bucket_def)
    then have sub: "set (take n c) \<subseteq> set_mset (dict_bag d)" for n
      using bucket_in_bag [OF core c] set_take_subset [of n c] by blast
    show ?thesis
    proof (cases "c = []")
      case True
      then show ?thesis using False c des des1 by (auto simp: defs)
    next
      case ne: False
      then have "some_table d rnd cnt m tables j s =
          Some (s1\<lparr>sk_emptylen := 0, sk_des := sk_des s1 @ take (cnt - length (sk_des s1)) c\<rparr>)"
        using False c by (auto simp: defs)
      then show ?thesis using des des1 sub by simp
    qed
  qed
qed

lemma some_loop_spec:
  assumes "dict_core t d" "set (sk_des s) \<subseteq> set_mset (dict_bag d)" "length (sk_des s) \<le> cnt"
  shows "\<exists>s'. some_loop d rnd cnt m tables n s = Some s' \<and>
    set (sk_des s') \<subseteq> set_mset (dict_bag d) \<and> length (sk_des s') \<le> cnt"
  using assms(2,3)
proof (induction n arbitrary: s)
  case (Suc n)
  obtain s1 where s1: "some_table d rnd cnt m tables 0 s = Some s1"
    "set (sk_des s1) \<subseteq> set_mset (dict_bag d)" "length (sk_des s1) \<le> cnt"
    using some_table_spec [OF assms(1) Suc.prems] by blast
  obtain s2 where s2: "some_table d rnd cnt m tables 1 s1 = Some s2"
    "set (sk_des s2) \<subseteq> set_mset (dict_bag d)" "length (sk_des s2) \<le> cnt"
    using some_table_spec [OF assms(1) s1(2,3)] by blast
  show ?case
    using Suc.prems s1 s2 Suc.IH [of "s1\<lparr>sk_i := (sk_i s1 + 1) AND m\<rparr>"] Suc.IH [of "s2\<lparr>sk_i := (sk_i s2 + 1) AND m\<rparr>"]
    by auto
qed simp

lemma some_rehash_spec:
  assumes "dict_core t d"
  shows "\<exists>d'. some_rehash t n d = Some d' \<and> dict_core t d' \<and> dict_bag d' = dict_bag d"
  using assms
proof (induction n arbitrary: d)
  case (Suc n)
  then show ?case using dictRehashStep_core [OF Suc.prems] by (auto split: if_splits) metis
qed simp

lemma dictGetSomeKeys_core:
  assumes "dict_core t d"
  shows "\<exists>d' es. dictGetSomeKeys t rnd d cnt = Some (d', es) \<and> dict_core t d' \<and> dict_bag d' = dict_bag d \<and>
    set es \<subseteq> set_mset (dict_bag d) \<and> length es \<le> min cnt (dictSize d)"
proof -
  define c where "c = (if dictSize d < cnt then dictSize d else cnt)"
  obtain d' where d': "some_rehash t c d = Some d'" "dict_core t d'" "dict_bag d' = dict_bag d"
    using some_rehash_spec [OF assms] by blast
  define tb where "tb = (if dictIsRehashing d' then 2 else 1 :: nat)"
  define m where "m = (if tb > 1 \<and> ht_sizemask (ht0 d') < ht_sizemask (ht1 d')
                       then ht_sizemask (ht1 d') else ht_sizemask (ht0 d'))"
  let ?s = "\<lparr>sk_i = rnd 0 AND m, sk_emptylen = 0, sk_des = [], sk_rnd = 1\<rparr>"
  obtain s' where s': "some_loop d' rnd c m tb (c * 10 mod 2 ^ 32) ?s = Some s'"
      "set (sk_des s') \<subseteq> set_mset (dict_bag d')" "length (sk_des s') \<le> c"
    using some_loop_spec [OF d'(2), of ?s c rnd m tb "c * 10 mod 2 ^ 32"] by auto
  have "dictGetSomeKeys t rnd d cnt = Some (d', sk_des s')"
    unfolding dictGetSomeKeys_def Let_def c_def [symmetric] d'(1) Option.bind.simps tb_def [symmetric]
      m_def [symmetric] s'(1) by simp
  then show ?thesis using d'(2,3) s'(2,3) by (auto simp: c_def split: if_splits)
qed

lemma random_slot_spec:
  assumes core: "dict_core t d" and hb: "has_buckets d"
  shows "\<exists>c. random_slot d r = Some c \<and> set c \<subseteq> set_mset (dict_bag d)"
proof (cases "dictIsRehashing d")
  case True
  then have s: "0 < ht_size (ht1 d)" "nat (rehashidx d) \<le> ht_size (ht0 d)"
    using core by (auto simp: dict_core_def dictIsRehashing_def rehash_wf_def)
  have len: "length (ht_table (ht0 d)) = ht_size (ht0 d)" "length (ht_table (ht1 d)) = ht_size (ht1 d)"
    using core by (auto simp: dict_core_def ht_wf_def)
  define h where "h = nat (rehashidx d) + unat r mod (dictSlots d - nat (rehashidx d))"
  have "unat r mod (dictSlots d - nat (rehashidx d)) < dictSlots d - nat (rehashidx d)"
    using s by (intro mod_less_divisor) (simp add: dictSlots_def)
  then have "h < ht_size (ht0 d) + ht_size (ht1 d)" by (simp add: h_def dictSlots_def)
  then show ?thesis using True len bucket_in_bag [OF core, of 0 h] bucket_in_bag [OF core, of 1 "h - ht_size (ht0 d)"]
    by (auto simp: random_slot_def Let_def bucket_def dict_ht_def h_def [symmetric])
next
  case False
  have "ht_index r (ht0 d) < ht_size (ht0 d)"
    using core hb by (intro ht_wf_index) (auto simp: dict_core_def has_buckets_def)
  then show ?thesis using False core bucket_in_bag [OF core, of 0 "ht_index r (ht0 d)"]
    by (auto simp: random_slot_def bucket_def ht_index_def dict_ht_def dict_core_def ht_wf_def)
qed

lemma random_bucket_spec:
  assumes core: "dict_core t d" and hb: "has_buckets d" and hit: "random_slot d (rnd (n + m)) \<noteq> Some []"
  shows "\<exists>c. random_bucket d rnd n = Some c \<and> c \<noteq> [] \<and> set c \<subseteq> set_mset (dict_bag d)"
  using hit
proof (induction m arbitrary: n)
  case 0
  then show ?case using random_slot_spec [OF core hb, of "rnd n"] by (auto simp: random_bucket.simps)
next
  case (Suc m)
  then show ?case using random_slot_spec [OF core hb, of "rnd n"] Suc.IH [of "n + 1"]
    by (subst random_bucket.simps) auto
qed

end
