(* ===== verification/Dict_Props.thy ===== *)
theory Dict_Props
  imports Dict_Types Dict_Scan Dict_Iter
begin

text \<open>
  The properties of the hash tables, for every dictionary type whose callbacks satisfy the laws of
  \<^term>\<open>dict_type\<close>. The theory \<open>Dict_Types\<close> shows these laws for the types of the server, and the
  witnesses use the type of the sets.
\<close>

abbreviation (input) wt :: "(sds, nat) dictType" where "wt \<equiv> setDictType (replicate 16 0)"
abbreviation (input) wd :: "(sds, nat) dict" where "wd \<equiv> singleton_dict wt [97] 7"

lemma wt_dups [simp]: "keyDup (setDictType seed) = None" "valDup (setDictType seed) = None"
  by (simp_all add: setDictType_def)

lemma wt_keys [simp]: "keys_equal (setDictType seed) a b \<longleftrightarrow> a = b"
  by (auto simp: keys_equal_def dictCompareKeys_def setDictType_def)

lemma wd_facts:
  "dict_inv wt wd" "dict_map wt wd = map_put wt (\<lambda>k. None) [97] 7" "dictSize wd = 1"
  using set_type.dictAdd_spec [OF dict_inv_create(1), of "replicate 16 0" True 0 "[97]" "7 :: nat"]
  by (simp_all add: dictAdd_first dup_val_def)

lemma wd_slots: "ht_size (ht0 wd) = 4" "max_slots wd = 4"
  by (simp_all add: singleton_dict_def max_slots_def dictReset_u_def)

section \<open>Invariant and operations\<close>

text \<open>
  C13. Whatever sequence of calls is made, with any arguments, any setting of \<open>dict_can_resize\<close>, any
  memory pressure and any use of the rehashing pause, the dictionary is well formed: both tables
  have power-of-two sizes with matching masks, the counters are exact, every entry is in the bucket
  of its hash, no two entries have equal keys, and while rehashing the buckets before \<open>rehashidx\<close>
  are empty.
\<close>

theorem reachable_invariant:
  assumes "dict_type t" "dict_reachable t d"
  shows "dict_inv t d"
  using dict_type.dict_reachable_inv [OF assms] .

theorem reachable_invariant_witness: "dict_inv wt wd"
proof (rule reachable_invariant [OF set_type.dict_type_axioms])
  have "dictAdd wt True 0 dictCreate [97] 7 = Some (wd, True)" by (simp add: dictAdd_first)
  then show "dict_reachable wt wd"
    by (intro reach_step [OF reach_create] step_add) (simp_all add: dictSize_def dictCreate_def dictInit_u_def dictReset_u_def)
qed

text \<open>
  C6. \<open>dictAdd\<close> returns, keeps the invariant, and refines insertion into a finite map: it succeeds
  exactly when the key is absent, then binds the key and nothing else changes; otherwise the map is
  unchanged. Rehashing steps and expansions on the way are invisible.
\<close>

theorem dictAdd_refines:
  assumes "dict_type t" "dict_inv t d" "dictSize d < 2 ^ 60"
  shows "\<exists>d'. dictAdd t can junk d key v = Some (d', dict_map t d key = None) \<and> dict_inv t d' \<and>
    pauserehash d' = pauserehash d \<and>
    (if dict_map t d key = None
     then dict_map t d' = map_put t (dict_map t d) key (dup_val t v) \<and> dictSize d' = dictSize d + 1
     else dict_map t d' = dict_map t d \<and> dictSize d' = dictSize d)"
  using dict_type.dictAdd_spec [OF assms] .

theorem dictAdd_refines_witness:
  "\<exists>d'. dictAdd wt True 0 wd [98] 8 = Some (d', True) \<and> dict_map wt d' [97] = Some 7 \<and> dict_map wt d' [98] = Some 8"
  using dictAdd_refines [OF set_type.dict_type_axioms wd_facts(1), of True 0 "[98]" 8]
  by (auto simp: wd_facts map_put_def dup_val_def)

text \<open>
  C31. \<open>dictReplace\<close> binds the key to the new value whether or not it was present, reports which, and
  changes nothing else.
\<close>

theorem dictReplace_refines:
  assumes "dict_type t" "dict_inv t d" "dictSize d < 2 ^ 60"
  shows "\<exists>d'. dictReplace t can junk d key v = Some (d', dict_map t d key = None) \<and> dict_inv t d' \<and>
    pauserehash d' = pauserehash d \<and> dict_map t d' = map_put t (dict_map t d) key (dup_val t v) \<and>
    dictSize d' = dictSize d + (if dict_map t d key = None then 1 else 0)"
  using dict_type.dictReplace_spec [OF assms] .

theorem dictReplace_refines_witness:
  "\<exists>d'. dictReplace wt True 0 wd [97] 8 = Some (d', False) \<and> dict_map wt d' [97] = Some 8 \<and> dictSize d' = 1"
  using dictReplace_refines [OF set_type.dict_type_axioms wd_facts(1), of True 0 "[97]" 8]
  by (auto simp: wd_facts map_put_def dup_val_def)

text \<open>
  C7. Deletion returns the entry of the key when there is one, removes exactly that key and keeps the
  invariant; deleting an absent key changes nothing of the map.
\<close>

theorem dictGenericDelete_refines:
  assumes "dict_type t" "dict_inv t d"
  shows "\<exists>d' r. dictGenericDelete t d key = Some (d', r) \<and> dict_inv t d' \<and>
    pauserehash d' = pauserehash d \<and> map_option de_val r = dict_map t d key \<and>
    dict_map t d' = map_del t (dict_map t d) key \<and>
    dictSize d = dictSize d' + (if dict_map t d key = None then 0 else 1)"
  using dict_type.dictGenericDelete_spec [OF assms] .

theorem dictGenericDelete_refines_witness:
  "\<exists>d' r. dictGenericDelete wt wd [97] = Some (d', r) \<and> map_option de_val r = Some 7 \<and> dict_map wt d' [97] = None"
  using dictGenericDelete_refines [OF set_type.dict_type_axioms wd_facts(1), of "[97]"]
  by (auto simp: wd_facts map_put_def map_del_def)

text \<open>
  C14. \<open>dictFind\<close> returns the value the map has for the key. It may move buckets on the way, and
  neither that nor the state of the rehashing can be seen in the result or in the map.
\<close>

theorem dictFind_refines:
  assumes "dict_type t" "dict_inv t d"
  shows "\<exists>d' r. dictFind t d key = Some (d', r) \<and> dict_inv t d' \<and> dict_bag d' = dict_bag d \<and>
    dict_map t d' = dict_map t d \<and> pauserehash d' = pauserehash d \<and> map_option de_val r = dict_map t d key"
  using dict_type.dictFind_spec [OF assms] .

theorem dictFind_refines_witness: "\<exists>d' r. dictFind wt wd [97] = Some (d', r) \<and> map_option de_val r = Some 7"
  using dictFind_refines [OF set_type.dict_type_axioms wd_facts(1), of "[97]"]
  by (auto simp: wd_facts map_put_def)

section \<open>Rehashing\<close>

text \<open>Steps of one bucket, as the operations of the interface make them.\<close>

primrec rehash_steps :: "('k, 'v) dictType \<Rightarrow> nat \<Rightarrow> ('k, 'v) dict \<Rightarrow> ('k, 'v) dict option" where
  "rehash_steps t 0 d = Some d"
| "rehash_steps t (Suc n) d = do { (d', _) \<leftarrow> dictRehash t d 1; rehash_steps t n d' }"


lemma rehash_steps_complete:
  assumes "dict_type t" "dict_inv t d" "int (ht_size (ht0 d)) - rehashidx d < int n \<or> \<not> dictIsRehashing d"
  shows "\<exists>d'. rehash_steps t n d = Some d' \<and> \<not> dictIsRehashing d' \<and> dict_inv t d' \<and>
    dict_map t d' = dict_map t d \<and> dictSize d' = dictSize d"
  using assms(2,3)
proof (induction n arbitrary: d)
  case 0
  then show ?case by (auto simp: dict_inv_def rehash_wf_def dictIsRehashing_def split: if_splits)
next
  case (Suc n)
  obtain d1 b where d1: "dictRehash t d 1 = Some (d1, b)" "dict_inv t d1" "dict_map t d1 = dict_map t d"
    "dictSize d1 = dictSize d"
    "dictIsRehashing d1 \<longrightarrow> ht_size (ht0 d1) = ht_size (ht0 d) \<and> ((0 :: nat) < 1 \<longrightarrow> rehashidx d < rehashidx d1)"
    using dict_type.dictRehash_spec [OF assms(1) Suc.prems(1), of 1] by (elim exE conjE) rule
  have "\<not> dictIsRehashing d \<Longrightarrow> d1 = d" using d1(1) by (simp add: dictRehash_def)
  then have "int (ht_size (ht0 d1)) - rehashidx d1 < int n \<or> \<not> dictIsRehashing d1"
    using Suc.prems(2) d1(5) by auto
  then show ?case using Suc.IH [OF d1(2)] d1 by auto
qed

text \<open>
  C15. Incremental rehashing completes: as many single steps as the old table has buckets, and one
  more, always end with a single table, whatever the distribution of the entries, and no entry is
  lost, duplicated or changed.
\<close>

theorem rehash_completes:
  assumes "dict_type t" "dict_inv t d" "ht_size (ht0 d) < n"
  shows "\<exists>d'. rehash_steps t n d = Some d' \<and> \<not> dictIsRehashing d' \<and> dict_inv t d' \<and>
    dict_map t d' = dict_map t d \<and> dictSize d' = dictSize d"
  using rehash_steps_complete [OF assms(1,2), of n] assms(2,3)
  by (auto simp: dict_inv_def rehash_wf_def dictIsRehashing_def split: if_splits)

theorem rehash_completes_witness:
  "\<exists>d'. rehash_steps wt 5 wd = Some d' \<and> \<not> dictIsRehashing d' \<and> dict_map wt d' [97] = Some 7"
  using rehash_completes [OF set_type.dict_type_axioms wd_facts(1), of 5]
  by (auto simp: wd_facts wd_slots map_put_def)

text \<open>
  The time-bounded rehashing returns for every behaviour of the clock, even one that never
  advances, and keeps the invariant and the map.
\<close>

lemma dictRehashMilliseconds_returns:
  assumes "dict_type t" "dict_inv t d"
  shows "\<exists>d' n. dictRehashMilliseconds t clock d ms = Some (d', n) \<and> dict_inv t d' \<and>
    dict_map t d' = dict_map t d \<and> dictSize d' = dictSize d"
  using dict_type.rehash_ms_loop_spec [OF assms] assms(2) by (simp add: dictRehashMilliseconds_def)

section \<open>Scanning and iterating\<close>

lemma scan_pos_zero [simp]: "scan_pos 0 = 0"
  using scan_pos_0 [of 0] by simp

text \<open>
  C4. A full scan misses nothing: a key that is in the dictionary at every call of \<open>dictScan\<close>, from
  the cursor 0 until the cursor 0 comes back, is among the entries emitted. Between the calls the
  dictionary may be changed in any way, so the tables may grow, shrink, and be in the middle of
  rehashing in either direction.
\<close>

theorem scan_complete:
  assumes "dict_type t" "\<forall>d\<in>set ds. dict_inv t d" "\<forall>d\<in>set ds. dict_map t d k \<noteq> None"
    and "ds \<noteq> []" "scan_run ds 0 = Some (es, 0)"
  shows "\<exists>e\<in>set es. keys_equal t k (de_key e)"
proof (rule scan_run_reaches [where t = t and ds = ds and v = 0 and p = "scan_pos (hashFunction t k)"])
  show "dict_core t d" if "d \<in> set ds" for d using that assms(2) by (simp add: dict_inv_core)
  show "\<exists>e\<in>#dict_bag d. keys_equal t k (de_key e) \<and> entry_pos t e = scan_pos (hashFunction t k)"
    if d: "d \<in> set ds" for d
  proof -
    obtain e where "e \<in># dict_bag d" "keys_equal t k (de_key e)"
      using dict_type.dict_map_None [OF assms(1) bspec [OF assms(2) d], of k] bspec [OF assms(3) d]
      by (auto simp: key_matches_iff)
    then show ?thesis using dict_type.eq_hash [OF assms(1), of k "de_key e"] by (auto simp: entry_pos_def)
  qed
qed (use assms(4,5) scan_pos_less in auto)

text \<open>
  C16. A scan ends: if no table it meets has more than \<open>2^m\<close> buckets, the cursor is back at 0 after at
  most \<open>2^m\<close> calls.
\<close>

theorem scan_terminates:
  assumes "\<forall>d\<in>set ds. dict_inv t d" "\<forall>d\<in>set ds. max_slots d \<le> 2 ^ m" "m \<le> 64" "2 ^ m \<le> length ds"
  shows "\<exists>es. scan_run ds 0 = Some (es, 0)"
  by (rule scan_run_ends [where t = t and m = m]) (use assms in \<open>auto simp: dict_inv_core\<close>)

theorem scan_terminates_witness: "\<exists>es. scan_run (replicate 4 wd) 0 = Some (es, 0)"
  by (rule scan_terminates [where t = wt and m = 2])
    (auto simp: wd_facts wd_slots)

theorem scan_complete_witness:
  "\<exists>es. scan_run (replicate 4 wd) 0 = Some (es, 0) \<and> (\<exists>e\<in>set es. de_key e = [97])"
proof -
  have "\<exists>es. scan_run (replicate 4 wd) 0 = Some (es, 0)"
    by (rule scan_run_ends [where t = wt and m = 2])
      (use wd_facts(1) in \<open>auto simp: dict_inv_core wd_slots\<close>)
  then obtain es where es: "scan_run (replicate 4 wd) 0 = Some (es, 0)" by blast
  then show ?thesis
    using scan_complete [OF set_type.dict_type_axioms [of "replicate 16 0"], where ds = "replicate 4 wd" and k = "[97]" and es = es]
    by (auto simp: wd_facts map_put_def)
qed

text \<open>
  C17. An iteration without changes, safe or unsafe, returns every entry exactly once, passes the
  fingerprint check at its end, and leaves the dictionary as it was, the pause counter included.
\<close>

theorem iterate_once:
  assumes "dict_inv t d" "iter = dictGetIterator junk \<or> iter = dictGetSafeIterator junk"
  shows "\<exists>es. dict_iterate addr d iter = Some (d, es) \<and> mset es = dict_bag d"
  using dict_iterate_spec [of t d iter junk addr] assms by (simp add: dict_inv_core mset_dict_entries)

theorem iterate_once_witness:
  "\<exists>es. dict_iterate (1, 2) wd (dictGetSafeIterator 0) = Some (wd, es) \<and> mset es = dict_bag wd"
  by (rule iterate_once [OF wd_facts(1), of _ 0]) simp

text \<open>
  C32. Sampling never leaves the tables: \<open>dictGetSomeKeys\<close> returns for every random sequence, with at
  most as many entries as asked for and as there are, all of them entries of the dictionary.
\<close>

theorem dictGetSomeKeys_safe:
  assumes "dict_type t" "dict_inv t d"
  shows "\<exists>d' es. dictGetSomeKeys t rnd d cnt = Some (d', es) \<and> dict_inv t d' \<and> dict_map t d' = dict_map t d \<and>
    set es \<subseteq> set_mset (dict_bag d) \<and> length es \<le> min cnt (dictSize d)"
proof -
  obtain d' es where d': "dictGetSomeKeys t rnd d cnt = Some (d', es)" "dict_core t d'" "dict_bag d' = dict_bag d"
    "set es \<subseteq> set_mset (dict_bag d)" "length es \<le> min cnt (dictSize d)"
    using dictGetSomeKeys_core [of t d rnd cnt] assms(2) by (auto simp: dict_inv_core)
  then show ?thesis using dict_type.dict_inv_same_bag [OF assms d'(2,3)] by auto
qed

theorem dictGetSomeKeys_safe_witness:
  "\<exists>d' es. dictGetSomeKeys wt (\<lambda>i. 5) wd 3 = Some (d', es) \<and> length es \<le> 1"
  using dictGetSomeKeys_safe [OF set_type.dict_type_axioms wd_facts(1), of "\<lambda>i. 5" 3]
  by (auto simp: wd_facts)

end
