(* ===== verification/Sds.thy ===== *)
theory Sds
  imports Util_Num
begin

text \<open>
  The dynamic strings of \<open>sds.c\<close> and \<open>sds.h\<close>. A string is its header (the type in the low bits
  of the flags, the length and the allocation, each kept modulo the width of its field) and the bytes
  of the block after the header. A block comes from an allocator, a parameter that gives the contents
  of the block for a request of so many bytes, or \<open>None\<close> when there is no memory: \<open>zmalloc\<close> and
  \<open>zrealloc\<close> then abort, so that the branches for a null result exist only for the functions that
  try. The block may be longer than the request (\<open>malloc_usable_size\<close>), and its contents are
  arbitrary. An access outside the block, a failed assertion and an abort are \<open>None\<close>.

  A C string is the memory from its pointer on, up to and including the null byte at least.
\<close>

type_synonym allocator = "nat \<Rightarrow> byte list option"

section \<open>Headers\<close>

datatype sdstype = SDS_TYPE_5 | SDS_TYPE_8 | SDS_TYPE_16 | SDS_TYPE_32 | SDS_TYPE_64

record sdshdr =
  htype :: sdstype
  hlen :: nat
  halloc :: nat
  hbuf :: "byte list"

text \<open>The width of the length field; the length of type 5 is in the five high bits of the flags.\<close>

fun type_bits :: "sdstype \<Rightarrow> nat" where
  "type_bits SDS_TYPE_5 = 5"
| "type_bits SDS_TYPE_8 = 8"
| "type_bits SDS_TYPE_16 = 16"
| "type_bits SDS_TYPE_32 = 32"
| "type_bits SDS_TYPE_64 = 64"

fun sdsHdrSize :: "sdstype \<Rightarrow> nat" where
  "sdsHdrSize SDS_TYPE_5 = 1"
| "sdsHdrSize SDS_TYPE_8 = 3"
| "sdsHdrSize SDS_TYPE_16 = 5"
| "sdsHdrSize SDS_TYPE_32 = 9"
| "sdsHdrSize SDS_TYPE_64 = 17"

definition sdsReqType :: "nat \<Rightarrow> sdstype" where
  "sdsReqType string_size =
     (if string_size < 2 ^ 5 then SDS_TYPE_5
      else if string_size < 2 ^ 8 then SDS_TYPE_8
      else if string_size < 2 ^ 16 then SDS_TYPE_16
      else if string_size < 2 ^ 32 then SDS_TYPE_32
      else SDS_TYPE_64)"

fun sdsTypeMaxSize :: "sdstype \<Rightarrow> nat" where
  "sdsTypeMaxSize SDS_TYPE_5 = 2 ^ 5 - 1"
| "sdsTypeMaxSize SDS_TYPE_8 = 2 ^ 8 - 1"
| "sdsTypeMaxSize SDS_TYPE_16 = 2 ^ 16 - 1"
| "sdsTypeMaxSize SDS_TYPE_32 = 2 ^ 32 - 1"
| "sdsTypeMaxSize SDS_TYPE_64 = 2 ^ 64 - 1"

definition sdslen :: "sdshdr \<Rightarrow> nat" where
  "sdslen s = hlen s"

text \<open>The difference of two fields of 8 or 16 bits is an \<open>int\<close>, converted to \<open>size_t\<close>.\<close>

definition sdsavail :: "sdshdr \<Rightarrow> nat" where
  "sdsavail s = (case htype s of
     SDS_TYPE_5 \<Rightarrow> 0
   | SDS_TYPE_8 \<Rightarrow> nat ((int (halloc s) - int (hlen s)) mod 2 ^ 64)
   | SDS_TYPE_16 \<Rightarrow> nat ((int (halloc s) - int (hlen s)) mod 2 ^ 64)
   | SDS_TYPE_32 \<Rightarrow> nat ((int (halloc s) - int (hlen s)) mod 2 ^ 32)
   | SDS_TYPE_64 \<Rightarrow> nat ((int (halloc s) - int (hlen s)) mod 2 ^ 64))"

definition sdssetlen :: "sdshdr \<Rightarrow> nat \<Rightarrow> sdshdr" where
  "sdssetlen s newlen = s\<lparr>hlen := newlen mod 2 ^ type_bits (htype s)\<rparr>"

definition sdsinclen :: "sdshdr \<Rightarrow> nat \<Rightarrow> sdshdr" where
  "sdsinclen s inc = s\<lparr>hlen := (hlen s + inc) mod 2 ^ type_bits (htype s)\<rparr>"

definition sdsalloc :: "sdshdr \<Rightarrow> nat" where
  "sdsalloc s = (case htype s of SDS_TYPE_5 \<Rightarrow> hlen s | _ \<Rightarrow> halloc s)"

definition sdssetalloc :: "sdshdr \<Rightarrow> nat \<Rightarrow> sdshdr" where
  "sdssetalloc s newlen = (case htype s of SDS_TYPE_5 \<Rightarrow> s
     | _ \<Rightarrow> s\<lparr>halloc := newlen mod 2 ^ type_bits (htype s)\<rparr>)"

definition sdsAllocSize :: "sdshdr \<Rightarrow> nat" where
  "sdsAllocSize s = sdsHdrSize (htype s) + sdsalloc s + 1"

text \<open>\<open>s[i] = b\<close>, and \<open>memcpy(s + i, t, n)\<close> where \<open>t\<close> points to the bytes given.\<close>

definition sds_put :: "sdshdr \<Rightarrow> nat \<Rightarrow> byte list \<Rightarrow> sdshdr option" where
  "sds_put s i bs = do { b \<leftarrow> mstore (hbuf s) (int i) bs; Some (s\<lparr>hbuf := b\<rparr>) }"

definition strlen :: "byte list \<Rightarrow> nat option" where
  "strlen t = (if 0 \<in> set t then Some (length (takeWhile (\<lambda>c. c \<noteq> 0) t)) else None)"

section \<open>Creation\<close>

datatype sds_init = SDS_NOINIT | SDS_NULL | SDS_BYTES "byte list"

definition sdsnewlen_u :: "allocator \<Rightarrow> sds_init \<Rightarrow> nat \<Rightarrow> bool \<Rightarrow> sdshdr option option" where
  "sdsnewlen_u al init initlen trymalloc =
     (let type = sdsReqType initlen;
          type = (if type = SDS_TYPE_5 \<and> initlen = 0 then SDS_TYPE_8 else type);
          hdrlen = sdsHdrSize type
      in if \<not> (initlen + hdrlen + 1) mod 2 ^ 64 > initlen then None
      else case al (hdrlen + initlen + 1) of
        None \<Rightarrow> if trymalloc then Some None else None
      | Some sh \<Rightarrow> do {
          let usable = min (length sh - hdrlen - 1) (sdsTypeMaxSize type);
          let s = \<lparr>htype = type, hlen = initlen mod 2 ^ type_bits type,
                   halloc = usable mod 2 ^ type_bits type, hbuf = drop hdrlen sh\<rparr>;
          s \<leftarrow> (case init of
                  SDS_NOINIT \<Rightarrow> Some s
                | SDS_NULL \<Rightarrow> sds_put s 0 (replicate (initlen + 1) 0)
                | SDS_BYTES t \<Rightarrow> do { t \<leftarrow> mload t 0 initlen; sds_put s 0 t });
          s \<leftarrow> sds_put s initlen [0];
          Some (Some s) })"

definition sdsnewlen :: "allocator \<Rightarrow> sds_init \<Rightarrow> nat \<Rightarrow> sdshdr option" where
  "sdsnewlen al init initlen = do { r \<leftarrow> sdsnewlen_u al init initlen False; r }"

definition sdstrynewlen :: "allocator \<Rightarrow> sds_init \<Rightarrow> nat \<Rightarrow> sdshdr option option" where
  "sdstrynewlen al init initlen = sdsnewlen_u al init initlen True"

definition sdsempty :: "allocator \<Rightarrow> sdshdr option" where
  "sdsempty al = sdsnewlen al (SDS_BYTES [0]) 0"

definition sdsnew :: "allocator \<Rightarrow> byte list option \<Rightarrow> sdshdr option" where
  "sdsnew al init = (case init of None \<Rightarrow> sdsnewlen al SDS_NULL 0
     | Some t \<Rightarrow> do { initlen \<leftarrow> strlen t; sdsnewlen al (SDS_BYTES t) initlen })"

definition sdsdup :: "allocator \<Rightarrow> sdshdr \<Rightarrow> sdshdr option" where
  "sdsdup al s = sdsnewlen al (SDS_BYTES (hbuf s)) (sdslen s)"

definition sdsupdatelen :: "sdshdr \<Rightarrow> sdshdr option" where
  "sdsupdatelen s = do { reallen \<leftarrow> strlen (hbuf s); Some (sdssetlen s reallen) }"

definition sdsclear :: "sdshdr \<Rightarrow> sdshdr option" where
  "sdsclear s = sds_put (sdssetlen s 0) 0 [0]"

section \<open>Room at the end\<close>

definition SDS_MAX_PREALLOC :: nat where "SDS_MAX_PREALLOC = 1024 * 1024"

text \<open>What \<open>realloc\<close> leaves in a block: the old contents as far as they go.\<close>

definition resize_buf :: "byte list \<Rightarrow> byte list \<Rightarrow> byte list" where
  "resize_buf old new = take (length new) old @ drop (length old) new"

text \<open>A new block with a header of another type: the string is copied, with its null byte.\<close>

definition sds_move :: "sdshdr \<Rightarrow> sdstype \<Rightarrow> byte list \<Rightarrow> sdshdr option" where
  "sds_move s type new = do {
     t \<leftarrow> mload (hbuf s) 0 (sdslen s + 1);
     s' \<leftarrow> sds_put (s\<lparr>htype := type, hbuf := new\<rparr>) 0 t;
     Some (sdssetlen s' (sdslen s)) }"

definition sdsMakeRoomFor :: "allocator \<Rightarrow> sdshdr \<Rightarrow> nat \<Rightarrow> sdshdr option" where
  "sdsMakeRoomFor al s addlen =
     (if sdsavail s \<ge> addlen then Some s
      else let len = sdslen s; reqlen = (len + addlen) mod 2 ^ 64 in
        if \<not> reqlen > len then None
        else let newlen = (if reqlen < SDS_MAX_PREALLOC then reqlen * 2 else (reqlen + SDS_MAX_PREALLOC) mod 2 ^ 64);
                 type = sdsReqType newlen;
                 type = (if type = SDS_TYPE_5 then SDS_TYPE_8 else type);
                 hdrlen = sdsHdrSize type
          in if \<not> (hdrlen + newlen + 1) mod 2 ^ 64 > reqlen then None
          else do {
            newsh \<leftarrow> al ((hdrlen + newlen + 1) mod 2 ^ 64);
            s \<leftarrow> (if htype s = type then Some (s\<lparr>hbuf := resize_buf (hbuf s) (drop hdrlen newsh)\<rparr>)
                  else sds_move s type (drop hdrlen newsh));
            let usable = min (length newsh - hdrlen - 1) (sdsTypeMaxSize type);
            Some (sdssetalloc s usable) })"

definition sdsRemoveFreeSpace :: "allocator \<Rightarrow> sdshdr \<Rightarrow> sdshdr option" where
  "sdsRemoveFreeSpace al s =
     (let oldtype = htype s; oldhdrlen = sdsHdrSize oldtype; len = sdslen s;
          type = sdsReqType len; hdrlen = sdsHdrSize type
      in if sdsavail s = 0 then Some s
      else do {
        s \<leftarrow> (if oldtype = type \<or> (type \<noteq> SDS_TYPE_5 \<and> type \<noteq> SDS_TYPE_8)
              then do {
                newsh \<leftarrow> al (oldhdrlen + len + 1);
                Some (s\<lparr>hbuf := resize_buf (hbuf s) (drop oldhdrlen newsh)\<rparr>) }
              else do {
                newsh \<leftarrow> al (hdrlen + len + 1);
                sds_move s type (drop hdrlen newsh) });
        Some (sdssetalloc s len) })"

text \<open>
  The assertions compare as C does: the negated increment is cut to 32 bits except for type 64, the
  increment itself for type 32.
\<close>

definition incr_allowed :: "sdshdr \<Rightarrow> int \<Rightarrow> bool" where
  "incr_allowed s incr = (case htype s of
     SDS_TYPE_5 \<Rightarrow> (incr > 0 \<and> int (hlen s) + incr < 32) \<or> (incr < 0 \<and> int (hlen s) \<ge> (- incr) mod 2 ^ 32)
   | SDS_TYPE_8 \<Rightarrow> (incr \<ge> 0 \<and> int (halloc s) - int (hlen s) \<ge> incr) \<or> (incr < 0 \<and> int (hlen s) \<ge> (- incr) mod 2 ^ 32)
   | SDS_TYPE_16 \<Rightarrow> (incr \<ge> 0 \<and> int (halloc s) - int (hlen s) \<ge> incr) \<or> (incr < 0 \<and> int (hlen s) \<ge> (- incr) mod 2 ^ 32)
   | SDS_TYPE_32 \<Rightarrow> (incr \<ge> 0 \<and> (int (halloc s) - int (hlen s)) mod 2 ^ 32 \<ge> incr mod 2 ^ 32) \<or>
        (incr < 0 \<and> int (hlen s) \<ge> (- incr) mod 2 ^ 32)
   | SDS_TYPE_64 \<Rightarrow> (incr \<ge> 0 \<and> (int (halloc s) - int (hlen s)) mod 2 ^ 64 \<ge> incr) \<or> (incr < 0 \<and> int (hlen s) \<ge> - incr))"

definition sdsIncrLen :: "sdshdr \<Rightarrow> int \<Rightarrow> sdshdr option" where
  "sdsIncrLen s incr =
     (if \<not> incr_allowed s incr then None
      else let s' = s\<lparr>hlen := nat ((int (hlen s) + incr) mod 2 ^ type_bits (htype s))\<rparr>;
               len = (case htype s of SDS_TYPE_5 \<Rightarrow> nat ((int (hlen s) + incr) mod 2 ^ 64) | _ \<Rightarrow> hlen s')
        in sds_put s' len [0])"

definition sdsgrowzero :: "allocator \<Rightarrow> sdshdr \<Rightarrow> nat \<Rightarrow> sdshdr option" where
  "sdsgrowzero al s len =
     (let curlen = sdslen s
      in if len \<le> curlen then Some s
      else do {
        s \<leftarrow> sdsMakeRoomFor al s (len - curlen);
        s \<leftarrow> sds_put s curlen (replicate (len - curlen + 1) 0);
        Some (sdssetlen s len) })"

section \<open>Appending and copying\<close>

definition sdscatlen :: "allocator \<Rightarrow> sdshdr \<Rightarrow> byte list \<Rightarrow> nat \<Rightarrow> sdshdr option" where
  "sdscatlen al s t len =
     (let curlen = sdslen s in do {
        s \<leftarrow> sdsMakeRoomFor al s len;
        t \<leftarrow> mload t 0 len;
        s \<leftarrow> sds_put s curlen t;
        sds_put (sdssetlen s (curlen + len)) (curlen + len) [0] })"

definition sdscat :: "allocator \<Rightarrow> sdshdr \<Rightarrow> byte list \<Rightarrow> sdshdr option" where
  "sdscat al s t = do { n \<leftarrow> strlen t; sdscatlen al s t n }"

definition sdscatsds :: "allocator \<Rightarrow> sdshdr \<Rightarrow> sdshdr \<Rightarrow> sdshdr option" where
  "sdscatsds al s t = sdscatlen al s (hbuf t) (sdslen t)"

definition sdscpylen :: "allocator \<Rightarrow> sdshdr \<Rightarrow> byte list \<Rightarrow> nat \<Rightarrow> sdshdr option" where
  "sdscpylen al s t len = do {
     s \<leftarrow> (if sdsalloc s < len then sdsMakeRoomFor al s (len - sdslen s) else Some s);
     t \<leftarrow> mload t 0 len;
     s \<leftarrow> sds_put s 0 t;
     s \<leftarrow> sds_put s len [0];
     Some (sdssetlen s len) }"

definition sdscpy :: "allocator \<Rightarrow> sdshdr \<Rightarrow> byte list \<Rightarrow> sdshdr option" where
  "sdscpy al s t = do { n \<leftarrow> strlen t; sdscpylen al s t n }"

section \<open>Integers\<close>

definition SDS_LLSTR_SIZE :: nat where "SDS_LLSTR_SIZE = 21"

text \<open>The loop that writes the digits backwards; it gives the buffer and \<open>p - s\<close>.\<close>

function ll2str_digits :: "byte list \<Rightarrow> nat \<Rightarrow> nat \<Rightarrow> (byte list \<times> nat) option" where
  "ll2str_digits buf p v = do {
     buf \<leftarrow> put_byte buf (int p) (48 + of_nat (v mod 10));
     if v div 10 \<noteq> 0 then ll2str_digits buf (p + 1) (v div 10) else Some (buf, p + 1) }"
  by pat_completeness auto
termination by (relation "measure (\<lambda>(buf, p, v). v)") auto

declare ll2str_digits.simps [simp del]

text \<open>The loop that reverses the string between two indexes.\<close>

function ll2str_reverse :: "byte list \<Rightarrow> nat \<Rightarrow> nat \<Rightarrow> byte list option" where
  "ll2str_reverse buf s p =
     (if s < p then
        (if p < length buf then ll2str_reverse (buf[s := buf ! p, p := buf ! s]) (s + 1) (p - 1) else None)
      else Some buf)"
  by pat_completeness auto
termination by (relation "measure (\<lambda>(buf, s, p). p - s)") auto

declare ll2str_reverse.simps [simp del]

text \<open>The negation of \<open>LLONG_MIN\<close>, which C leaves undefined, wraps.\<close>

definition sdsll2str :: "byte list \<Rightarrow> int \<Rightarrow> (byte list \<times> nat) option" where
  "sdsll2str buf value = do {
     (buf, l) \<leftarrow> ll2str_digits buf 0 (nat \<bar>value\<bar>);
     (buf, l) \<leftarrow> (if value < 0 then do { buf \<leftarrow> put_byte buf (int l) 45; Some (buf, l + 1) } else Some (buf, l));
     buf \<leftarrow> put_byte buf (int l) 0;
     buf \<leftarrow> ll2str_reverse buf 0 (l - 1);
     Some (buf, l) }"

definition sdsull2str :: "byte list \<Rightarrow> nat \<Rightarrow> (byte list \<times> nat) option" where
  "sdsull2str buf v = do {
     (buf, l) \<leftarrow> ll2str_digits buf 0 v;
     buf \<leftarrow> put_byte buf (int l) 0;
     buf \<leftarrow> ll2str_reverse buf 0 (l - 1);
     Some (buf, l) }"

definition sdsfromlonglong :: "allocator \<Rightarrow> (nat \<Rightarrow> byte) \<Rightarrow> int \<Rightarrow> sdshdr option" where
  "sdsfromlonglong al junk value = do {
     (buf, len) \<leftarrow> sdsll2str (map junk [0..<SDS_LLSTR_SIZE]) value;
     sdsnewlen al (SDS_BYTES buf) len }"

section \<open>Changes in place\<close>

text \<open>\<open>strchr\<close> also finds the null byte that ends the set.\<close>

definition strchr :: "byte list \<Rightarrow> byte \<Rightarrow> bool" where
  "strchr cset c \<longleftrightarrow> c \<in> set (takeWhile (\<lambda>c. c \<noteq> 0) cset @ [0])"

function trim_left :: "byte list \<Rightarrow> byte list \<Rightarrow> int \<Rightarrow> int \<Rightarrow> int option" where
  "trim_left cset buf sp e =
     (if sp \<le> e then do { c \<leftarrow> mload buf sp 1; if strchr cset (hd c) then trim_left cset buf (sp + 1) e else Some sp }
      else Some sp)"
  by pat_completeness auto
termination by (relation "measure (\<lambda>(cset, buf, sp, e). nat (e + 1 - sp))") auto

function trim_right :: "byte list \<Rightarrow> byte list \<Rightarrow> int \<Rightarrow> int \<Rightarrow> int option" where
  "trim_right cset buf sp ep =
     (if ep > sp then do { c \<leftarrow> mload buf ep 1; if strchr cset (hd c) then trim_right cset buf sp (ep - 1) else Some ep }
      else Some ep)"
  by pat_completeness auto
termination by (relation "measure (\<lambda>(cset, buf, sp, ep). nat (ep - sp))") auto

declare trim_left.simps [simp del] trim_right.simps [simp del]

definition sdstrim :: "sdshdr \<Rightarrow> byte list \<Rightarrow> sdshdr option" where
  "sdstrim s cset = do {
     let e = int (sdslen s) - 1;
     sp \<leftarrow> trim_left cset (hbuf s) 0 e;
     ep \<leftarrow> trim_right cset (hbuf s) sp e;
     let len = (if sp > ep then 0 else nat (ep - sp + 1));
     s \<leftarrow> (if sp \<noteq> 0 then do { t \<leftarrow> mload (hbuf s) sp len; sds_put s 0 t } else Some s);
     s \<leftarrow> sds_put s len [0];
     Some (sdssetlen s len) }"

definition sdssubstr :: "sdshdr \<Rightarrow> nat \<Rightarrow> nat \<Rightarrow> sdshdr option" where
  "sdssubstr s start len =
     (let oldlen = sdslen s;
          (start, len) = (if start \<ge> oldlen then (0, 0) else (start, len));
          len = (if len > oldlen - start then oldlen - start else len)
      in do {
        s \<leftarrow> (if len \<noteq> 0 then do { t \<leftarrow> mload (hbuf s) (int start) len; sds_put s 0 t } else Some s);
        s \<leftarrow> sds_put s len [0];
        Some (sdssetlen s len) })"

definition sdsrange :: "sdshdr \<Rightarrow> int \<Rightarrow> int \<Rightarrow> sdshdr option" where
  "sdsrange s start e =
     (let len = sdslen s
      in if len = 0 then Some s
      else let start = (if start < 0 then int len + start else start);
               e = (if e < 0 then int len + e else e);
               newlen = (if start > e then 0 else (e - start) + 1)
        in sdssubstr s (nat (start mod 2 ^ 64)) (nat (newlen mod 2 ^ 64)))"

definition toupper :: "byte \<Rightarrow> byte" where
  "toupper c = (if 97 \<le> c \<and> c \<le> 122 then c - 32 else c)"

text \<open>A loop over the characters of the string that replaces each one.\<close>

definition sds_each :: "(byte \<Rightarrow> byte) \<Rightarrow> sdshdr \<Rightarrow> sdshdr option" where
  "sds_each f s = do { t \<leftarrow> mload (hbuf s) 0 (sdslen s); sds_put s 0 (map f t) }"

definition sdstolower :: "sdshdr \<Rightarrow> sdshdr option" where
  "sdstolower s = sds_each tolower s"

definition sdstoupper :: "sdshdr \<Rightarrow> sdshdr option" where
  "sdstoupper s = sds_each toupper s"

primrec mapchar :: "(byte \<times> byte) list \<Rightarrow> byte \<Rightarrow> byte" where
  "mapchar [] c = c"
| "mapchar (ft # fts) c = (if c = fst ft then snd ft else mapchar fts c)"

definition sdsmapchars :: "sdshdr \<Rightarrow> byte list \<Rightarrow> byte list \<Rightarrow> nat \<Rightarrow> sdshdr option" where
  "sdsmapchars s from_u to_u setlen =
     (if sdslen s = 0 then Some s
      else do {
        f \<leftarrow> mload from_u 0 setlen;
        t \<leftarrow> mload to_u 0 setlen;
        sds_each (mapchar (zip f t)) s })"

fun memcmp :: "byte list \<Rightarrow> byte list \<Rightarrow> int" where
  "memcmp (x # xs) (y # ys) = (if x = y then memcmp xs ys else uint x - uint y)"
| "memcmp _ _ = 0"

definition sdscmp :: "sdshdr \<Rightarrow> sdshdr \<Rightarrow> int option" where
  "sdscmp s1 s2 =
     (let l1 = sdslen s1; l2 = sdslen s2; minlen = (if l1 < l2 then l1 else l2) in do {
        a \<leftarrow> mload (hbuf s1) 0 minlen;
        b \<leftarrow> mload (hbuf s2) 0 minlen;
        let cmp = memcmp a b;
        Some (if cmp = 0 then (if l1 > l2 then 1 else if l1 < l2 then - 1 else 0) else cmp) })"

section \<open>The invariant and the abstraction\<close>

text \<open>
  The header type is wide enough for the length and the allocation, both are inside the block with
  one byte to spare, and the string ends with a null byte. The abstraction is the bytes of the string.
\<close>

definition sds_inv :: "sdshdr \<Rightarrow> bool" where
  "sds_inv s \<longleftrightarrow>
     hlen s < 2 ^ type_bits (htype s) \<and>
     (htype s \<noteq> SDS_TYPE_5 \<longrightarrow> hlen s \<le> halloc s \<and> halloc s < 2 ^ type_bits (htype s)) \<and>
     sdsalloc s < length (hbuf s) \<and> hbuf s ! hlen s = 0"

definition sds_str :: "sdshdr \<Rightarrow> byte list" where
  "sds_str s = take (hlen s) (hbuf s)"

text \<open>What the allocator promises, and when it has memory for strings of a length.\<close>

definition alloc_ok :: "allocator \<Rightarrow> bool" where
  "alloc_ok al \<longleftrightarrow> (\<forall>n b. al n = Some b \<longrightarrow> n \<le> length b)"

definition enough :: "allocator \<Rightarrow> nat \<Rightarrow> bool" where
  "enough al m \<longleftrightarrow> m < 2 ^ 62 \<and> (\<forall>n \<le> 2 * m + 2 ^ 20 + 18. al n \<noteq> None)"

text \<open>An operation meets a postcondition, and returns when there is memory.\<close>

definition outcome :: "allocator \<Rightarrow> nat \<Rightarrow> 'a option \<Rightarrow> ('a \<Rightarrow> bool) \<Rightarrow> bool" where
  "outcome al m r P \<longleftrightarrow> (case r of None \<Rightarrow> \<not> enough al m | Some x \<Rightarrow> P x)"

lemma outcome_Some [simp]: "outcome al m (Some x) P = P x"
  by (simp add: outcome_def)

lemma outcome_bind:
  "outcome al m r P \<Longrightarrow> (\<And>x. P x \<Longrightarrow> outcome al m (f x) Q) \<Longrightarrow> outcome al m (r \<bind> f) Q"
  by (cases r) (simp_all add: outcome_def)

lemma outcome_mono: "outcome al m r P \<Longrightarrow> (\<And>x. P x \<Longrightarrow> Q x) \<Longrightarrow> outcome al m r Q"
  by (auto simp: outcome_def split: option.splits)

lemma enough_le: "enough al m \<Longrightarrow> k \<le> m \<Longrightarrow> enough al k"
  by (auto simp: enough_def)

lemma outcome_le: "outcome al k r P \<Longrightarrow> k \<le> m \<Longrightarrow> outcome al m r P"
  by (auto simp: outcome_def enough_le split: option.splits)

lemma type_max: "sdsTypeMaxSize t = 2 ^ type_bits t - 1"
  by (cases t) auto

lemma req_type: "n < 2 ^ 64 \<Longrightarrow> n < 2 ^ type_bits (sdsReqType n)"
  by (auto simp: sdsReqType_def)

lemma hdr_le: "sdsHdrSize t \<le> 17" "0 < sdsHdrSize t"
  by (cases t; simp)+

lemma inv_len: "sds_inv s \<Longrightarrow> hlen s \<le> sdsalloc s" "sds_inv s \<Longrightarrow> sdsalloc s < length (hbuf s)"
  by (auto simp: sds_inv_def sdsalloc_def split: sdstype.splits)

lemma len_str [simp]: "sds_inv s \<Longrightarrow> length (sds_str s) = hlen s"
  using inv_len [of s] by (simp add: sds_str_def)

lemma type_bits_le: "(2 :: nat) ^ type_bits t \<le> 2 ^ 64"
  by (cases t) auto

lemma inv_len_bound: "sds_inv s \<Longrightarrow> hlen s < 2 ^ 64"
  using type_bits_le [of "htype s"] by (simp add: sds_inv_def)

lemma avail_eq: "sds_inv s \<Longrightarrow> sdsavail s = sdsalloc s - hlen s"
proof -
  assume i: "sds_inv s"
  have "nat ((int a - int l) mod 2 ^ k) = a - l" if "l \<le> a" "a < 2 ^ k" for a l k :: nat
  proof -
    have "int a < 2 ^ k" using that(2) by (metis of_nat_less_iff of_nat_numeral of_nat_power)
    then have "int a - int l < 2 ^ k" by linarith
    then have "(int a - int l) mod 2 ^ k = int a - int l" using that(1) by (intro mod_pos_pos_trivial) auto
    then show ?thesis using that(1) by simp
  qed
  from this [of "hlen s" "halloc s" 32] this [of "hlen s" "halloc s" 64]
  show ?thesis using i by (auto simp: sdsavail_def sdsalloc_def sds_inv_def split: sdstype.splits)
qed

lemma sds_put_Some:
  "i + length bs \<le> length (hbuf s) \<Longrightarrow>
   sds_put s i bs = Some (s\<lparr>hbuf := take i (hbuf s) @ bs @ drop (i + length bs) (hbuf s)\<rparr>)"
  by (simp add: sds_put_def mstore_Some)

text \<open>Setting the length to one inside the allocation, with a null byte there.\<close>

lemma inv_setlen:
  assumes "sds_inv s" "hbuf s' ! n = 0" "length (hbuf s') = length (hbuf s)" "htype s' = htype s"
    "halloc s' = halloc s" "n \<le> sdsalloc s"
  shows "sds_inv (sdssetlen s' n)" "hlen (sdssetlen s' n) = n" "hbuf (sdssetlen s' n) = hbuf s'"
proof -
  have "n < 2 ^ type_bits (htype s)" using assms(1,6) inv_len [OF assms(1)]
    by (cases "htype s") (auto simp: sds_inv_def sdsalloc_def)
  then show "sds_inv (sdssetlen s' n)" "hlen (sdssetlen s' n) = n" "hbuf (sdssetlen s' n) = hbuf s'"
    using assms by (auto simp: sds_inv_def sdssetlen_def sdsalloc_def split: sdstype.splits)
qed

section \<open>Room\<close>

lemma makeroom_sizes:
  assumes "len < 2 ^ 64" "addlen < 2 ^ 64" and req: "reqlen = (len + addlen) mod 2 ^ 64" "reqlen > len"
    and new: "newlen = (if reqlen < SDS_MAX_PREALLOC then reqlen * 2 else (reqlen + SDS_MAX_PREALLOC) mod 2 ^ 64)"
    and h: "h \<le> 17" "(h + newlen + 1) mod 2 ^ 64 > reqlen"
  shows "reqlen = len + addlen" "reqlen \<le> newlen" "(h + newlen + 1) mod 2 ^ 64 = h + newlen + 1" "newlen < 2 ^ 64"
proof -
  have "len + addlen < 2 ^ 64"
  proof (rule ccontr)
    assume "\<not> ?thesis"
    then have "reqlen = len + addlen - 2 ^ 64" using assms(1,2) req(1) by (simp add: mod_if)
    then show False using req(2) assms(2) \<open>\<not> len + addlen < 2 ^ 64\<close> by linarith
  qed
  then show r: "reqlen = len + addlen" using req(1) by simp
  have "newlen < 2 ^ 64" using new by (auto simp: SDS_MAX_PREALLOC_def split: if_splits)
  then show "newlen < 2 ^ 64" .
  have lt: "reqlen < 2 ^ 64" using req(1) by simp
  have "(h + newlen + 1) mod 2 ^ 64 \<le> h + newlen + 1" by (rule mod_less_eq_dividend)
  then have le: "reqlen \<le> h + newlen" using h(2) by linarith
  show n: "reqlen \<le> newlen"
  proof (cases "reqlen < SDS_MAX_PREALLOC")
    case False
    show ?thesis
    proof (cases "reqlen + SDS_MAX_PREALLOC < 2 ^ 64")
      case True
      then show ?thesis using False new by simp
    next
      case wrap: False
      then have "newlen = reqlen + SDS_MAX_PREALLOC - 2 ^ 64" using False new lt
        by (simp add: mod_if SDS_MAX_PREALLOC_def)
      then show ?thesis using le h(1) lt wrap by (simp add: SDS_MAX_PREALLOC_def)
    qed
  qed (use new in simp)
  show "(h + newlen + 1) mod 2 ^ 64 = h + newlen + 1"
  proof (cases "h + newlen + 1 < 2 ^ 64")
    case False
    then have "(h + newlen + 1) mod 2 ^ 64 = h + newlen + 1 - 2 ^ 64" using \<open>newlen < 2 ^ 64\<close> h(1) by (simp add: mod_if)
    then have "reqlen < 17" using h \<open>newlen < 2 ^ 64\<close> by linarith
    then have "newlen < 2 ^ 20" using new by (simp add: SDS_MAX_PREALLOC_def)
    then show ?thesis using False h(1) by simp
  qed simp
qed

text \<open>A block of the right size with the string in it, its length and its allocation set.\<close>

definition sds_block :: "sdshdr \<Rightarrow> sdstype \<Rightarrow> byte list \<Rightarrow> sdshdr option" where
  "sds_block s type new = (if htype s = type then Some (s\<lparr>hbuf := resize_buf (hbuf s) new\<rparr>) else sds_move s type new)"

lemma sds_block_spec:
  assumes "sds_inv s" "hlen s < length new" "hlen s < 2 ^ type_bits type"
  shows "\<exists>s'. sds_block s type new = Some s' \<and> htype s' = type \<and> hlen s' = hlen s \<and>
    length (hbuf s') = length new \<and> take (hlen s) (hbuf s') = sds_str s \<and> hbuf s' ! hlen s = 0"
proof -
  have l: "hlen s < length (hbuf s)" using inv_len [OF assms(1)] by simp
  have z: "hbuf s ! hlen s = 0" using assms(1) by (simp add: sds_inv_def)
  show ?thesis
  proof (cases "htype s = type")
    case True
    then show ?thesis using l z assms(2)
      by (simp add: sds_block_def resize_buf_def sds_str_def min_def nth_append)
  next
    case False
    have t: "mload (hbuf s) 0 (hlen s + 1) = Some (sds_str s @ [0])" using l z
      by (simp add: mload_Some sds_str_def take_Suc_conv_app_nth)
    have "sds_move s type new = Some (sdssetlen (s\<lparr>htype := type, hbuf := sds_str s @ [0] @ drop (hlen s + 1) new\<rparr>) (hlen s))"
      using t assms(1,2) by (simp add: sds_move_def sdslen_def sds_put_Some)
    then show ?thesis using False assms len_str [OF assms(1)] by (simp add: sds_block_def sdssetlen_def nth_append)
  qed
qed

lemma sds_block_alloc:
  assumes "sds_inv s" "htype s' = type" "hlen s' = hlen s" "take (hlen s) (hbuf s') = sds_str s" "hbuf s' ! hlen s = 0"
    "hlen s \<le> n" "n < length (hbuf s')" "n < 2 ^ type_bits type"
  shows "sds_inv (sdssetalloc s' n)" "sds_str (sdssetalloc s' n) = sds_str s" "hlen (sdssetalloc s' n) = hlen s"
    "type \<noteq> SDS_TYPE_5 \<Longrightarrow> sdsalloc (sdssetalloc s' n) = n"
  using assms by (cases type; simp add: sds_inv_def sdssetalloc_def sdsalloc_def sds_str_def)+

lemma sdsMakeRoomFor_spec:
  assumes "alloc_ok al" "sds_inv s" "addlen < 2 ^ 64"
  shows "outcome al (hlen s + addlen) (sdsMakeRoomFor al s addlen)
    (\<lambda>s'. sds_inv s' \<and> sds_str s' = sds_str s \<and> hlen s' = hlen s \<and> hlen s + addlen \<le> sdsalloc s')"
proof (cases "sdsavail s \<ge> addlen")
  case True
  then show ?thesis using assms(2) avail_eq [OF assms(2)] inv_len [OF assms(2)] by (simp add: sdsMakeRoomFor_def)
next
  case False
  define reqlen where "reqlen = (hlen s + addlen) mod 2 ^ 64"
  define newlen where "newlen = (if reqlen < SDS_MAX_PREALLOC then reqlen * 2 else (reqlen + SDS_MAX_PREALLOC) mod 2 ^ 64)"
  define type where "type = (if sdsReqType newlen = SDS_TYPE_5 then SDS_TYPE_8 else sdsReqType newlen)"
  define h where "h = sdsHdrSize type"
  have e: "sdsMakeRoomFor al s addlen = (if \<not> reqlen > hlen s \<or> \<not> (h + newlen + 1) mod 2 ^ 64 > reqlen then None
     else do { newsh \<leftarrow> al ((h + newlen + 1) mod 2 ^ 64); s \<leftarrow> sds_block s type (drop h newsh);
            Some (sdssetalloc s (min (length newsh - h - 1) (sdsTypeMaxSize type))) })"
    using False unfolding sdsMakeRoomFor_def sdslen_def Let_def reqlen_def [symmetric] newlen_def [symmetric]
      type_def [symmetric] h_def [symmetric] sds_block_def by simp
  have h17: "h \<le> 17" by (simp add: h_def hdr_le)
  note b = inv_len_bound [OF assms(2)]
  show ?thesis
  proof (cases "reqlen > hlen s \<and> (h + newlen + 1) mod 2 ^ 64 > reqlen")
    case ok: True
    note z = makeroom_sizes [OF b assms(3) reqlen_def conjunct1 [OF ok] newlen_def h17 conjunct2 [OF ok]]
    have nt: "newlen < 2 ^ type_bits type"
      using req_type [OF z(4)] by (auto simp: type_def)
    show ?thesis
    proof (cases "al (h + newlen + 1)")
      case None
      have "h + newlen + 1 \<le> 2 * (hlen s + addlen) + 2 ^ 20 + 18" if "hlen s + addlen < 2 ^ 62"
        using that h17 z(1) by (simp add: newlen_def SDS_MAX_PREALLOC_def)
      then show ?thesis using e ok z(3) None
        by (auto simp: outcome_def enough_def intro!: exI [of _ "Suc (h + newlen)"])
    next
      case (Some newsh)
      then have len: "h + newlen + 1 \<le> length newsh" using assms(1) by (simp add: alloc_ok_def)
      have ln: "hlen s < length (drop h newsh)" "hlen s < 2 ^ type_bits type" using len z nt ok by auto
      obtain s' where s': "sds_block s type (drop h newsh) = Some s'" "htype s' = type" "hlen s' = hlen s"
        "length (hbuf s') = length (drop h newsh)" "take (hlen s) (hbuf s') = sds_str s" "hbuf s' ! hlen s = 0"
        using sds_block_spec [OF assms(2) ln] by blast
      define u where "u = min (length newsh - h - 1) (sdsTypeMaxSize type)"
      have u: "newlen \<le> u" "u < length (hbuf s')" "u < 2 ^ type_bits type"
        using len nt s'(4) by (auto simp: u_def type_max)
      have "hlen s \<le> u" using u z ok by linarith
      note a = sds_block_alloc [OF assms(2) s'(2,3,5,6) this u(2,3)]
      have "type \<noteq> SDS_TYPE_5" by (simp add: type_def)
      moreover have "min (length newsh - Suc h) (sdsTypeMaxSize type) = u" by (simp add: u_def)
      ultimately show ?thesis using e ok z Some s'(1) a u(1) by simp
    qed
  next
    case bad: False
    have "hlen s < reqlen \<and> (h + newlen + 1) mod 2 ^ 64 > reqlen" if "hlen s + addlen < 2 ^ 62"
    proof -
      have "0 < addlen" using False by simp
      have r: "reqlen = hlen s + addlen" using that by (simp add: reqlen_def)
      have n: "reqlen \<le> newlen" "newlen \<le> 2 * reqlen + 2 ^ 20"
        using that r by (auto simp: newlen_def SDS_MAX_PREALLOC_def)
      then have "(h + newlen + 1) mod 2 ^ 64 = h + newlen + 1" using h17 r that by (intro mod_less) simp
      then show ?thesis using r n \<open>0 < addlen\<close> by simp
    qed
    then show ?thesis using bad e by (auto simp: outcome_def enough_def)
  qed
qed

section \<open>Each operation\<close>

lemma sdsnewlen_spec:
  assumes "alloc_ok al" "n < 2 ^ 64" "n \<le> length t"
  shows "outcome al n (sdsnewlen al (SDS_BYTES t) n) (\<lambda>s. sds_inv s \<and> sds_str s = take n t)"
proof -
  define type where "type = (if sdsReqType n = SDS_TYPE_5 \<and> n = 0 then SDS_TYPE_8 else sdsReqType n)"
  define h where "h = sdsHdrSize type"
  have nt: "n < 2 ^ type_bits type" using req_type [OF assms(2)] by (auto simp: type_def)
  have h17: "h \<le> 17" by (simp add: h_def hdr_le)
  note e = sdsnewlen_def sdsnewlen_u_def Let_def type_def [symmetric] h_def [symmetric]
  show ?thesis
  proof (cases "(n + h + 1) mod 2 ^ 64 > n")
    case True
    show ?thesis
    proof (cases "al (h + n + 1)")
      case None
      then show ?thesis unfolding e using True h17
        by (auto simp: outcome_def enough_def intro!: exI [of _ "Suc (h + n)"])
    next
      case (Some sh)
      then have l: "h + n + 1 \<le> length sh" using assms(1) by (simp add: alloc_ok_def)
      define u where "u = min (length sh - h - 1) (sdsTypeMaxSize type)"
      have u: "n \<le> u" "u < 2 ^ type_bits type" "u < length sh - h" using l nt by (auto simp: u_def type_max)
      have "min (length sh - Suc h) (sdsTypeMaxSize type) = u" by (simp add: u_def)
      then show ?thesis unfolding e using True Some l assms(3) u nt
        by (auto simp: mload_Some sds_put_Some sds_inv_def sdsalloc_def sds_str_def nth_append less_Suc_eq_le split: sdstype.splits)
    qed
  next
    case False
    then have "\<not> n < 2 ^ 62" using h17 by auto
    then show ?thesis unfolding e using False by (simp add: outcome_def enough_def)
  qed
qed

lemma sdsempty_spec: "alloc_ok al \<Longrightarrow> outcome al 0 (sdsempty al) (\<lambda>s. sds_inv s \<and> sds_str s = [])"
  using sdsnewlen_spec [of al 0 "[0]"] by (simp add: sdsempty_def)

text \<open>Writing over the string from a position and setting the length at the end of what was written.\<close>

lemma put_setlen:
  assumes "sds_inv s" "i + length bs \<le> sdsalloc s"
  shows "\<exists>s'. sds_put s i bs = Some s' \<and> htype s' = htype s \<and> halloc s' = halloc s \<and> hlen s' = hlen s \<and>
     length (hbuf s') = length (hbuf s) \<and> take (i + length bs) (hbuf s') = take i (hbuf s) @ bs \<and>
     drop (i + length bs) (hbuf s') = drop (i + length bs) (hbuf s)"
  using assms inv_len [OF assms(1)] by (simp add: sds_put_Some)

lemma put_null_setlen:
  assumes "sds_inv s" "htype s' = htype s" "halloc s' = halloc s" "length (hbuf s') = length (hbuf s)" "n \<le> sdsalloc s"
  shows "\<exists>s''. sds_put (sdssetlen s' n) n [0] = Some s'' \<and> sds_inv s'' \<and> sds_str s'' = take n (hbuf s')"
    "\<exists>s''. sds_put s' n [0] = Some s'' \<and> sds_inv (sdssetlen s'' n) \<and> sds_str (sdssetlen s'' n) = take n (hbuf s')"
proof -
  define b where "b = (hbuf s')[n := 0]"
  have n: "n < length (hbuf s')" using assms inv_len [OF assms(1)] by simp
  then have b: "take n (hbuf s') @ [0] @ drop (Suc n) (hbuf s') = b" by (simp add: b_def upd_conv_take_nth_drop)
  have i: "sds_inv (sdssetlen (s'\<lparr>hbuf := b\<rparr>) n)" "hlen (sdssetlen (s'\<lparr>hbuf := b\<rparr>) n) = n" "hbuf (sdssetlen (s'\<lparr>hbuf := b\<rparr>) n) = b"
    using inv_setlen [OF assms(1), of "s'\<lparr>hbuf := b\<rparr>" n] assms n by (auto simp: b_def)
  have "sds_put (sdssetlen s' n) n [0] = Some (sdssetlen (s'\<lparr>hbuf := b\<rparr>) n)"
    using n b by (simp add: sds_put_Some sdssetlen_def)
  then show "\<exists>s''. sds_put (sdssetlen s' n) n [0] = Some s'' \<and> sds_inv s'' \<and> sds_str s'' = take n (hbuf s')"
    using i by (simp add: sds_str_def) (simp add: b_def)
  have "sds_put s' n [0] = Some (s'\<lparr>hbuf := b\<rparr>)" using n b by (simp add: sds_put_Some)
  then show "\<exists>s''. sds_put s' n [0] = Some s'' \<and> sds_inv (sdssetlen s'' n) \<and> sds_str (sdssetlen s'' n) = take n (hbuf s')"
    using i by (simp add: sds_str_def) (simp add: b_def)
qed

lemma sdscatlen_spec:
  assumes "alloc_ok al" "sds_inv s" "n < 2 ^ 64" "n \<le> length t"
  shows "outcome al (hlen s + n) (sdscatlen al s t n) (\<lambda>s'. sds_inv s' \<and> sds_str s' = sds_str s @ take n t)"
  unfolding sdscatlen_def Let_def sdslen_def
proof (rule outcome_bind [OF sdsMakeRoomFor_spec [OF assms(1-3)]], elim conjE)
  fix r assume r: "sds_inv r" "sds_str r = sds_str s" "hlen r = hlen s" "hlen s + n \<le> sdsalloc r"
  have "mload t 0 n = Some (take n t)" using assms(4) by (simp add: mload_Some)
  moreover obtain r1 where r1: "sds_put r (hlen s) (take n t) = Some r1" "htype r1 = htype r" "halloc r1 = halloc r"
    "length (hbuf r1) = length (hbuf r)" "take (hlen s + n) (hbuf r1) = take (hlen s) (hbuf r) @ take n t"
    using put_setlen [OF r(1), of "hlen s" "take n t"] r(4) assms(4) by auto
  moreover obtain r2 where "sds_put (sdssetlen r1 (hlen s + n)) (hlen s + n) [0] = Some r2" "sds_inv r2"
    "sds_str r2 = take (hlen s + n) (hbuf r1)" using put_null_setlen(1) [OF r(1) r1(2-4) r(4)] by blast
  ultimately show "outcome al (hlen s + n)
      (mload t 0 n \<bind> (\<lambda>t. sds_put r (hlen s) t \<bind> (\<lambda>s'. sds_put (sdssetlen s' (hlen s + n)) (hlen s + n) [0])))
      (\<lambda>s'. sds_inv s' \<and> sds_str s' = sds_str s @ take n t)"
    using r(2,3) by (simp add: sds_str_def)
qed

lemma sdscpylen_spec:
  assumes "alloc_ok al" "sds_inv s" "n < 2 ^ 64" "n \<le> length t"
  shows "outcome al (hlen s + n) (sdscpylen al s t n) (\<lambda>s'. sds_inv s' \<and> sds_str s' = take n t)"
  unfolding sdscpylen_def
proof (rule outcome_bind [where P = "\<lambda>r. sds_inv r \<and> n \<le> sdsalloc r"])
  have "n - hlen s < 2 ^ 64" using assms(3) by simp
  note m = outcome_le [OF sdsMakeRoomFor_spec [OF assms(1,2) this], of "hlen s + n"]
  show "outcome al (hlen s + n) (if sdsalloc s < n then sdsMakeRoomFor al s (n - sdslen s) else Some s)
     (\<lambda>r. sds_inv r \<and> n \<le> sdsalloc r)"
    using assms(2) inv_len [OF assms(2)] by (auto simp: sdslen_def intro!: outcome_mono [OF m])
next
  fix r assume r: "sds_inv r \<and> n \<le> sdsalloc r"
  have "mload t 0 n = Some (take n t)" using assms(4) by (simp add: mload_Some)
  moreover obtain r1 where r1: "sds_put r 0 (take n t) = Some r1" "htype r1 = htype r" "halloc r1 = halloc r"
    "length (hbuf r1) = length (hbuf r)" "take n (hbuf r1) = take n t"
    using put_setlen [of r 0 "take n t"] r assms(4) by auto
  moreover obtain r2 where "sds_put r1 n [0] = Some r2" "sds_inv (sdssetlen r2 n)"
    "sds_str (sdssetlen r2 n) = take n (hbuf r1)" using put_null_setlen(2) [OF conjunct1 [OF r] r1(2-4)] r by blast
  ultimately show "outcome al (hlen s + n)
      (mload t 0 n \<bind> (\<lambda>t. sds_put r 0 t \<bind> (\<lambda>s. sds_put s n [0] \<bind> (\<lambda>s. Some (sdssetlen s n)))))
      (\<lambda>s'. sds_inv s' \<and> sds_str s' = take n t)" by simp
qed

lemma sdsgrowzero_spec:
  assumes "alloc_ok al" "sds_inv s" "n < 2 ^ 64"
  shows "outcome al (hlen s + n) (sdsgrowzero al s n) (\<lambda>s'. sds_inv s' \<and> sds_str s' = sds_str s @ replicate (n - hlen s) 0)"
proof (cases "n \<le> hlen s")
  case False
  have "n - hlen s < 2 ^ 64" using assms(3) by simp
  note m = outcome_le [OF sdsMakeRoomFor_spec [OF assms(1,2) this]]
  have le: "hlen s + (n - hlen s) \<le> hlen s + n" by simp
  have "outcome al (hlen s + n) (sdsMakeRoomFor al s (n - hlen s) \<bind>
      (\<lambda>r. sds_put r (hlen s) (replicate (n - hlen s + 1) 0) \<bind> (\<lambda>r. Some (sdssetlen r n))))
      (\<lambda>s'. sds_inv s' \<and> sds_str s' = sds_str s @ replicate (n - hlen s) 0)"
  proof (rule outcome_bind [OF m [OF le]], elim conjE)
    fix r assume r: "sds_inv r" "sds_str r = sds_str s" "hlen r = hlen s" "hlen s + (n - hlen s) \<le> sdsalloc r"
    define b where "b = take (hlen s) (hbuf r) @ replicate (n - hlen s + 1) 0 @ drop (n + 1) (hbuf r)"
    have l: "n + 1 \<le> length (hbuf r)" using r(4) inv_len(2) [OF r(1)] False by simp
    then have p: "sds_put r (hlen s) (replicate (n - hlen s + 1) 0) = Some (r\<lparr>hbuf := b\<rparr>)"
      using False by (simp add: sds_put_Some b_def del: replicate_Suc)
    have tk: "take (hlen s) (hbuf r) = sds_str s" using r(2,3) by (simp add: sds_str_def)
    have b: "b ! n = 0" "length b = length (hbuf r)" "take n b = sds_str s @ replicate (n - hlen s) 0"
      using l False len_str [OF assms(2)] unfolding b_def tk by (auto simp: nth_append simp del: replicate_Suc)
    have i: "sds_inv (sdssetlen (r\<lparr>hbuf := b\<rparr>) n)" "hlen (sdssetlen (r\<lparr>hbuf := b\<rparr>) n) = n"
      "hbuf (sdssetlen (r\<lparr>hbuf := b\<rparr>) n) = b"
      using inv_setlen [OF r(1), of "r\<lparr>hbuf := b\<rparr>" n] b r(4) False by auto
    show "outcome al (hlen s + n) (sds_put r (hlen s) (replicate (n - hlen s + 1) 0) \<bind> (\<lambda>r. Some (sdssetlen r n)))
      (\<lambda>s'. sds_inv s' \<and> sds_str s' = sds_str s @ replicate (n - hlen s) 0)"
      using p i b(3) by (simp add: sds_str_def del: replicate_Suc)
  qed
  then show ?thesis using False by (simp add: sdsgrowzero_def sdslen_def Let_def)
qed (use assms(2) in \<open>simp add: sdsgrowzero_def sdslen_def\<close>)

lemma sdssubstr_spec:
  assumes "sds_inv s"
  shows "\<exists>s'. sdssubstr s start n = Some s' \<and> sds_inv s' \<and> sds_str s' = take n (drop start (sds_str s))"
proof -
  define a k where "a = (if start \<ge> hlen s then 0 else start)" and
    "k = (if start \<ge> hlen s then 0 else if n > hlen s - start then hlen s - start else n)"
  have ak: "a + k \<le> hlen s" by (auto simp: a_def k_def)
  have e: "sdssubstr s start n = do {
      s1 \<leftarrow> (if k \<noteq> 0 then do { t \<leftarrow> mload (hbuf s) (int a) k; sds_put s 0 t } else Some s);
      s2 \<leftarrow> sds_put s1 k [0]; Some (sdssetlen s2 k) }"
    by (auto simp: sdssubstr_def sdslen_def Let_def a_def k_def)
  define t where "t = take k (drop a (hbuf s))"
  have lt: "length t = k" "k \<le> sdsalloc s" using ak inv_len [OF assms] by (auto simp: t_def)
  obtain s1 where s1: "sds_put s 0 t = Some s1" "htype s1 = htype s" "halloc s1 = halloc s"
    "length (hbuf s1) = length (hbuf s)" "take k (hbuf s1) = t"
    using put_setlen [OF assms, of 0 t] lt by auto
  have m: "mload (hbuf s) (int a) k = Some t" using ak inv_len [OF assms] by (simp add: mload_Some t_def)
  define s0 where "s0 = (if k \<noteq> 0 then s1 else s)"
  have s0: "htype s0 = htype s" "halloc s0 = halloc s" "length (hbuf s0) = length (hbuf s)" "take k (hbuf s0) = t"
    using s1 lt by (auto simp: s0_def)
  obtain s2 where s2: "sds_put s0 k [0] = Some s2" "sds_inv (sdssetlen s2 k)" "sds_str (sdssetlen s2 k) = t"
    using put_null_setlen(2) [OF assms s0(1-3) lt(2)] s0(4) by auto
  have "sdssubstr s start n = Some (sdssetlen s2 k)"
    unfolding e using m s1(1) s2(1) by (simp add: s0_def split: if_splits)
  moreover have "t = take n (drop start (sds_str s))"
    by (auto simp: t_def sds_str_def a_def k_def drop_take min_def)
  ultimately show ?thesis using s2 by simp
qed

text \<open>The substring between two indexes, the negative ones counted from the end.\<close>

definition range_spec :: "int \<Rightarrow> int \<Rightarrow> byte list \<Rightarrow> byte list" where
  "range_spec start e xs =
     (let a = (if start < 0 then int (length xs) + start else start);
          b = (if e < 0 then int (length xs) + e else e)
      in if a < 0 \<or> a > b then [] else take (nat (b - a + 1)) (drop (nat a) xs))"

lemma sdsrange_spec:
  assumes "sds_inv s" "int64 start" "int64 e" "hlen s < 2 ^ 63"
  shows "\<exists>s'. sdsrange s start e = Some s' \<and> sds_inv s' \<and> sds_str s' = range_spec start e (sds_str s)"
proof (cases "hlen s = 0")
  case True
  then show ?thesis using assms(1) by (simp add: sdsrange_def sdslen_def sds_str_def range_spec_def)
next
  case False
  define a b where "a = (if start < 0 then int (hlen s) + start else start)"
    and "b = (if e < 0 then int (hlen s) + e else e)"
  define k where "k = (if a > b then 0 else b - a + 1)"
  have ab: "- (2 ^ 63) \<le> a" "a < 2 ^ 63" "b < 2 ^ 63" using assms(2-4) by (auto simp: a_def b_def int_range_def)
  have e: "sdsrange s start e = sdssubstr s (nat (a mod 2 ^ 64)) (nat (k mod 2 ^ 64))"
    using False by (simp add: sdsrange_def sdslen_def a_def b_def k_def Let_def)
  obtain s' where s': "sdsrange s start e = Some s'" "sds_inv s'"
    "sds_str s' = take (nat (k mod 2 ^ 64)) (drop (nat (a mod 2 ^ 64)) (sds_str s))"
    using sdssubstr_spec [OF assms(1)] unfolding e by blast
  have rs: "range_spec start e (sds_str s) =
      (if a < 0 \<or> a > b then [] else take (nat (b - a + 1)) (drop (nat a) (sds_str s)))"
    unfolding range_spec_def Let_def len_str [OF assms(1)] a_def b_def ..
  have "take (nat (k mod 2 ^ 64)) (drop (nat (a mod 2 ^ 64)) (sds_str s)) = range_spec start e (sds_str s)"
  proof (cases "a < 0")
    case True
    then have "(a + 2 ^ 64) mod 2 ^ 64 = a + 2 ^ 64" using ab(1) by (intro mod_pos_pos_trivial) auto
    then have "a mod 2 ^ 64 = a + 2 ^ 64" by simp
    then have "hlen s \<le> nat (a mod 2 ^ 64)" using ab(1) assms(4) by simp
    then show ?thesis using True assms(1) rs by simp
  next
    case False
    then have "a mod 2 ^ 64 = a" "k mod 2 ^ 64 = k" using ab by (auto simp: k_def)
    then show ?thesis using False rs by (simp add: k_def)
  qed
  then show ?thesis using s' by simp
qed

text \<open>Trimming: the characters of the set, and null bytes, go from both ends.\<close>

definition trim_spec :: "byte list \<Rightarrow> byte list \<Rightarrow> byte list" where
  "trim_spec cset xs = rev (dropWhile (strchr cset) (rev (dropWhile (strchr cset) xs)))"

lemma mload1: "i < length m \<Longrightarrow> mload m (int i) 1 = Some [m ! i]"
  by (simp add: mload_Some take_Suc_conv_app_nth)

lemma trim_left_spec:
  assumes "n \<le> length buf" "sp \<le> n"
  shows "trim_left cset buf (int sp) (int n - 1) = Some (int (sp + length (takeWhile (strchr cset) (drop sp (take n buf)))))"
  using assms
proof (induction "n - sp" arbitrary: sp)
  case 0
  then show ?case by (simp add: trim_left.simps)
next
  case (Suc k)
  then have d: "drop sp (take n buf) = buf ! sp # drop (Suc sp) (take n buf)"
    by (simp flip: Cons_nth_drop_Suc)
  have "trim_left cset buf (int (Suc sp)) (int n - 1) =
      Some (int (Suc sp + length (takeWhile (strchr cset) (drop (Suc sp) (take n buf)))))"
    using Suc by (intro Suc.hyps(1)) auto
  moreover have "sp < n" "sp < length buf" using Suc.hyps(2) Suc.prems by auto
  ultimately show ?case using d mload1 [of sp buf]
    by (simp add: trim_left.simps [of cset buf "int sp"] add.commute)
qed

lemma trim_right_spec:
  assumes "n \<le> length buf" "sp \<le> ep" "ep < n" "\<not> strchr cset (buf ! sp)"
  shows "trim_right cset buf (int sp) (int ep) =
    Some (int (ep - length (takeWhile (strchr cset) (rev (drop sp (take (Suc ep) buf))))))"
  using assms(2,3)
proof (induction ep)
  case 0
  then show ?case using assms(1,4) by (simp add: trim_right.simps take_Suc_conv_app_nth)
next
  case (Suc ep)
  then have t: "take (Suc (Suc ep)) buf = take (Suc ep) buf @ [buf ! Suc ep]"
    using assms(1) by (simp add: take_Suc_conv_app_nth)
  show ?case
  proof (cases "sp = Suc ep")
    case True
    then show ?thesis using t Suc.prems assms(1,4) by (simp add: trim_right.simps)
  next
    case False
    then have d: "rev (drop sp (take (Suc (Suc ep)) buf)) = buf ! Suc ep # rev (drop sp (take (Suc ep) buf))"
      using Suc.prems assms(1) unfolding t by simp
    have m: "mload buf (1 + int ep) 1 = Some [buf ! Suc ep]" using mload1 [of "Suc ep" buf] Suc.prems assms(1) by simp
    show ?thesis using Suc False m unfolding d by (simp add: trim_right.simps [of cset buf "int sp" "1 + int ep"])
  qed
qed

lemma trim_bounds:
  fixes xs :: "'a list" and P :: "'a \<Rightarrow> bool"
  defines "a \<equiv> length (takeWhile P xs)" and "b \<equiv> length (takeWhile P (rev (dropWhile P xs)))"
  shows "rev (dropWhile P (rev (dropWhile P xs))) = take (length xs - a - b) (drop a xs)"
proof -
  have "dropWhile P xs = drop a xs" by (simp add: a_def dropWhile_eq_drop)
  moreover have "dropWhile P (rev (dropWhile P xs)) = drop b (rev (dropWhile P xs))" by (simp add: b_def dropWhile_eq_drop)
  ultimately show ?thesis using rev_drop [of b "rev (drop a xs)"] by simp
qed

lemma sdstrim_spec:
  assumes "sds_inv s"
  shows "\<exists>s'. sdstrim s cset = Some s' \<and> sds_inv s' \<and> sds_str s' = trim_spec cset (sds_str s)"
proof -
  let ?P = "strchr cset" and ?xs = "sds_str s"
  define sp where "sp = length (takeWhile ?P ?xs)"
  define b where "b = length (takeWhile ?P (rev (dropWhile ?P ?xs)))"
  have l: "hlen s < length (hbuf s)" "length ?xs = hlen s" using inv_len [OF assms] assms by auto
  have sl: "sp \<le> hlen s" using length_takeWhile_le [of ?P ?xs] l(2) by (simp add: sp_def)
  have dw: "dropWhile ?P ?xs = drop sp ?xs" by (simp add: sp_def dropWhile_eq_drop)
  have L: "trim_left cset (hbuf s) 0 (int (hlen s) - 1) = Some (int sp)"
    using trim_left_spec [of "hlen s" "hbuf s" 0 cset] l by (simp add: sp_def sds_str_def)
  have b_eq: "length (takeWhile ?P (rev (drop sp (take (hlen s) (hbuf s))))) = b"
    unfolding b_def dw by (simp add: sds_str_def)
  define k where "k = hlen s - sp - b"
  have k: "k + sp \<le> hlen s" using sl by (simp add: k_def)
  have R: "\<exists>ep. trim_right cset (hbuf s) (int sp) (int (hlen s) - 1) = Some ep \<and>
      (if int sp > ep then 0 else nat (ep - int sp + 1)) = k"
  proof (cases "sp < hlen s")
    case True
    then have "\<not> ?P (?xs ! sp)" using nth_length_takeWhile [of ?P ?xs] l(2) by (simp add: sp_def)
    then have np: "\<not> ?P (hbuf s ! sp)" using True by (simp add: sds_str_def)
    then have bl: "b < hlen s - sp"
    proof -
      have "rev (drop sp ?xs) \<noteq> [] \<and> last (rev (drop sp ?xs)) = hbuf s ! sp"
        using True l by (simp add: last_rev hd_drop_conv_nth sds_str_def)
      then have "takeWhile ?P (rev (drop sp ?xs)) \<noteq> rev (drop sp ?xs)"
        using np by (metis last_in_set takeWhile_eq_all_conv)
      then have "length (takeWhile ?P (rev (drop sp ?xs))) < length (rev (drop sp ?xs))"
        using takeWhile_dropWhile_id [of ?P "rev (drop sp ?xs)"]
        by (metis append_eq_conv_conj length_takeWhile_le linorder_not_le nat_less_le take_all)
      then show ?thesis using l(2) by (simp add: b_def dw)
    qed
    have "trim_right cset (hbuf s) (int sp) (int (hlen s - 1)) = Some (int (hlen s - 1 - b))"
      using trim_right_spec [of "hlen s" "hbuf s" sp "hlen s - 1" cset] True np l(1) b_eq by simp
    then show ?thesis using True bl by (auto simp: k_def of_nat_diff)
  next
    case False
    then have "sp = hlen s" using sl by simp
    then show ?thesis by (simp add: trim_right.simps k_def)
  qed
  then obtain ep where ep: "trim_right cset (hbuf s) (int sp) (int (hlen s) - 1) = Some ep"
    "(if int sp > ep then 0 else nat (ep - int sp + 1)) = k" by blast
  define t where "t = take k (drop sp (hbuf s))"
  have lt: "length t = k" "k \<le> sdsalloc s" using k inv_len [OF assms] by (auto simp: t_def)
  obtain s1 where s1: "sds_put s 0 t = Some s1" "htype s1 = htype s" "halloc s1 = halloc s"
    "length (hbuf s1) = length (hbuf s)" "take k (hbuf s1) = t"
    using put_setlen [OF assms, of 0 t] lt by auto
  have m: "mload (hbuf s) (int sp) k = Some t" using k l by (simp add: mload_Some t_def)
  define s0 where "s0 = (if sp \<noteq> 0 then s1 else s)"
  have s0: "htype s0 = htype s" "halloc s0 = halloc s" "length (hbuf s0) = length (hbuf s)" "take k (hbuf s0) = t"
    using s1 lt by (auto simp: s0_def t_def)
  obtain s2 where s2: "sds_put s0 k [0] = Some s2" "sds_inv (sdssetlen s2 k)" "sds_str (sdssetlen s2 k) = t"
    using put_null_setlen(2) [OF assms s0(1-3) lt(2)] s0(4) by auto
  have "sdstrim s cset = Some (sdssetlen s2 k)"
    using L ep m s1(1) s2(1) by (simp add: sdstrim_def sdslen_def s0_def Let_def split: if_splits)
  moreover have "t = trim_spec cset ?xs"
    using trim_bounds [of ?P ?xs] k l by (simp add: trim_spec_def sp_def [symmetric] b_def [symmetric] k_def [symmetric] t_def)
      (simp add: sds_str_def drop_take k_def)
  ultimately show ?thesis using s2 by simp
qed

lemma sds_each_spec:
  assumes "sds_inv s"
  shows "\<exists>s'. sds_each f s = Some s' \<and> sds_inv s' \<and> sds_str s' = map f (sds_str s)"
proof -
  have l: "hlen s < length (hbuf s)" "hlen s \<le> sdsalloc s" using inv_len [OF assms] by auto
  then show ?thesis using assms
    by (auto simp: sds_each_def sdslen_def mload_Some sds_put_Some sds_inv_def sds_str_def nth_append sdsalloc_def
        split: sdstype.splits)
qed

lemma sdsclear_spec: "sds_inv s \<Longrightarrow> \<exists>s'. sdsclear s = Some s' \<and> sds_inv s' \<and> sds_str s' = []"
  using put_null_setlen(1) [of s s 0] by (auto simp: sdsclear_def)

lemma sdsupdatelen_spec:
  assumes "sds_inv s"
  shows "\<exists>s'. sdsupdatelen s = Some s' \<and> sds_inv s' \<and> sds_str s' = takeWhile (\<lambda>c. c \<noteq> 0) (sds_str s)"
proof -
  have l: "hlen s < length (hbuf s)" "hlen s \<le> sdsalloc s" "hbuf s ! hlen s = 0"
    using inv_len [OF assms] assms by (auto simp: sds_inv_def)
  then have m: "0 \<in> set (hbuf s)" by (metis nth_mem)
  define n where "n = length (takeWhile (\<lambda>c. c \<noteq> 0) (hbuf s))"
  have "hbuf s = take (hlen s) (hbuf s) @ 0 # drop (Suc (hlen s)) (hbuf s)" using id_take_nth_drop [OF l(1)] l(3) by simp
  from arg_cong [OF this, of "takeWhile (\<lambda>c. c \<noteq> 0)"]
  have t: "takeWhile (\<lambda>c. c \<noteq> 0) (hbuf s) = takeWhile (\<lambda>c. c \<noteq> 0) (sds_str s)"
    unfolding sds_str_def by (rule trans) (rule takeWhile_tail, simp)
  have n: "n \<le> hlen s" using length_takeWhile_le [of "\<lambda>c. c \<noteq> 0" "sds_str s"] assms unfolding n_def t by simp
  have z: "hbuf s ! n = 0" using nth_length_takeWhile [of "\<lambda>c. c \<noteq> 0" "hbuf s"] n l(1) by (simp add: n_def)
  have "take n (hbuf s) = takeWhile (\<lambda>c. c \<noteq> 0) (sds_str s)"
    unfolding t [symmetric] n_def by (rule takeWhile_eq_take [symmetric])
  then show ?thesis using m n z l inv_setlen [OF assms, of s n]
    by (simp add: sdsupdatelen_def strlen_def n_def [symmetric] sds_str_def)
qed

lemma sdsRemoveFreeSpace_spec:
  assumes "alloc_ok al" "sds_inv s"
  shows "outcome al (hlen s) (sdsRemoveFreeSpace al s)
    (\<lambda>s'. sds_inv s' \<and> sds_str s' = sds_str s \<and> sdsalloc s' = hlen s)"
proof (cases "sdsavail s = 0")
  case True
  then show ?thesis using assms(2) avail_eq [OF assms(2)] inv_len [OF assms(2)]
    by (simp add: sdsRemoveFreeSpace_def sdslen_def Let_def)
next
  case False
  define type where "type = (if htype s = sdsReqType (hlen s) \<or> (sdsReqType (hlen s) \<noteq> SDS_TYPE_5 \<and> sdsReqType (hlen s) \<noteq> SDS_TYPE_8)
    then htype s else sdsReqType (hlen s))"
  define h where "h = sdsHdrSize type"
  have e: "sdsRemoveFreeSpace al s = do { newsh \<leftarrow> al (h + hlen s + 1);
      s' \<leftarrow> sds_block s type (drop h newsh); Some (sdssetalloc s' (hlen s)) }"
    using False by (auto simp: sdsRemoveFreeSpace_def sdslen_def Let_def type_def h_def sds_block_def cong: option.case_cong)
  have h17: "h \<le> 17" by (simp add: h_def hdr_le)
  have nt: "hlen s < 2 ^ type_bits type"
    using req_type [OF inv_len_bound [OF assms(2)]] assms(2) by (auto simp: type_def sds_inv_def)
  show ?thesis
  proof (cases "al (h + hlen s + 1)")
    case None
    then show ?thesis using e h17 by (auto simp: outcome_def enough_def intro!: exI [of _ "Suc (h + hlen s)"])
  next
    case (Some newsh)
    then have len: "h + hlen s + 1 \<le> length newsh" using assms(1) by (simp add: alloc_ok_def)
    have ln: "hlen s < length (drop h newsh)" using len by auto
    obtain s' where s': "sds_block s type (drop h newsh) = Some s'" "htype s' = type" "hlen s' = hlen s"
      "length (hbuf s') = length (drop h newsh)" "take (hlen s) (hbuf s') = sds_str s" "hbuf s' ! hlen s = 0"
      using sds_block_spec [OF assms(2) ln nt] by blast
    have "hlen s < length (hbuf s')" using len s'(4) by simp
    note a = sds_block_alloc [OF assms(2) s'(2,3,5,6) order_refl this nt]
    have "sdsalloc (sdssetalloc s' (hlen s)) = hlen s"
      using a(3,4) s'(2,3) by (cases "type = SDS_TYPE_5") (auto simp: sdsalloc_def sdssetalloc_def)
    then show ?thesis using e Some s'(1) a by simp
  qed
qed

lemma sdsIncrLen_spec:
  assumes "sds_inv s" "0 \<le> int (hlen s) + incr" "int (hlen s) + incr \<le> int (sdsalloc s)" "- (2 ^ 32) < incr"
    "htype s = SDS_TYPE_5 \<Longrightarrow> incr \<noteq> 0"
  shows "\<exists>s'. sdsIncrLen s incr = Some s' \<and> sds_inv s' \<and> sds_str s' = take (nat (int (hlen s) + incr)) (hbuf s)"
proof -
  define n where "n = nat (int (hlen s) + incr)"
  have n: "n \<le> sdsalloc s" "int (hlen s) + incr = int n" using assms by (auto simp: n_def)
  have b: "sdsalloc s < 2 ^ type_bits (htype s)" using assms(1) by (auto simp: sds_inv_def sdsalloc_def split: sdstype.splits)
  have c: "(- incr) mod 2 ^ 32 = - incr" if "incr < 0" using that assms(4) by (intro mod_pos_pos_trivial) auto
  have d: "(int (halloc s) - int (hlen s)) mod 2 ^ 32 = int (halloc s) - int (hlen s)" "incr mod 2 ^ 32 = incr"
    if "htype s = SDS_TYPE_32" "0 \<le> incr"
    using that assms(1) n by (auto simp: sds_inv_def sdsalloc_def)
  have f: "(int (halloc s) - int (hlen s)) mod 2 ^ 64 = int (halloc s) - int (hlen s)" if "htype s = SDS_TYPE_64"
    using that assms(1) by (auto simp: sds_inv_def)
  have al: "incr_allowed s incr"
    using assms(1,5) n c d f b by (cases "htype s"; cases "incr < 0") (auto simp: incr_allowed_def sdsalloc_def sds_inv_def)
  have "int n < 2 ^ type_bits (htype s)" using n b
    by (metis le_less_trans of_nat_less_iff of_nat_numeral of_nat_power)
  then have m: "nat ((int (hlen s) + incr) mod 2 ^ type_bits (htype s)) = n" using n by simp
  moreover have "n mod 2 ^ type_bits (htype s) = n" using n b by simp
  moreover have "nat ((int (hlen s) + incr) mod 2 ^ 64) = n" if "htype s = SDS_TYPE_5"
    using n b that by simp
  ultimately have "sdsIncrLen s incr = sds_put (sdssetlen s n) n [0]"
    using al by (simp add: sdsIncrLen_def sdssetlen_def Let_def split: sdstype.split)
  then show ?thesis using put_null_setlen(1) [OF assms(1) refl refl refl n(1)] by (simp add: n_def)
qed

section \<open>Sequences of operations\<close>

datatype sdsop = Cat "byte list" nat | Cpy "byte list" nat | GrowZero nat | MakeRoom nat | RemoveFree | Clear | UpdateLen
  | Trim "byte list" | Substr nat nat | Range int int | ToLower | ToUpper | MapChars "byte list" "byte list" nat

fun sds_op :: "allocator \<Rightarrow> sdsop \<Rightarrow> sdshdr \<Rightarrow> sdshdr option" where
  "sds_op al (Cat t n) s = sdscatlen al s t n"
| "sds_op al (Cpy t n) s = sdscpylen al s t n"
| "sds_op al (GrowZero n) s = sdsgrowzero al s n"
| "sds_op al (MakeRoom n) s = sdsMakeRoomFor al s n"
| "sds_op al RemoveFree s = sdsRemoveFreeSpace al s"
| "sds_op al Clear s = sdsclear s"
| "sds_op al UpdateLen s = sdsupdatelen s"
| "sds_op al (Trim cset) s = sdstrim s cset"
| "sds_op al (Substr a n) s = sdssubstr s a n"
| "sds_op al (Range a e) s = sdsrange s a e"
| "sds_op al ToLower s = sdstolower s"
| "sds_op al ToUpper s = sdstoupper s"
| "sds_op al (MapChars f t n) s = sdsmapchars s f t n"

text \<open>What each operation means on plain byte strings, and which arguments it allows.\<close>

fun str_op :: "sdsop \<Rightarrow> byte list \<Rightarrow> byte list" where
  "str_op (Cat t n) xs = xs @ take n t"
| "str_op (Cpy t n) xs = take n t"
| "str_op (GrowZero n) xs = xs @ replicate (n - length xs) 0"
| "str_op (MakeRoom n) xs = xs"
| "str_op RemoveFree xs = xs"
| "str_op Clear xs = []"
| "str_op UpdateLen xs = takeWhile (\<lambda>c. c \<noteq> 0) xs"
| "str_op (Trim cset) xs = trim_spec cset xs"
| "str_op (Substr a n) xs = take n (drop a xs)"
| "str_op (Range a e) xs = range_spec a e xs"
| "str_op ToLower xs = map tolower xs"
| "str_op ToUpper xs = map toupper xs"
| "str_op (MapChars f t n) xs = map (mapchar (zip (take n f) (take n t))) xs"

fun op_args :: "sdsop \<Rightarrow> bool" where
  "op_args (Cat t n) \<longleftrightarrow> n \<le> length t"
| "op_args (Cpy t n) \<longleftrightarrow> n \<le> length t"
| "op_args (Range a e) \<longleftrightarrow> int64 a \<and> int64 e"
| "op_args (MapChars f t n) \<longleftrightarrow> n \<le> length f \<and> n \<le> length t"
| "op_args _ \<longleftrightarrow> True"

text \<open>The bytes an operation may add; the lengths are \<open>size_t\<close>, so that they are below \<open>2 ^ 62\<close> in memory.\<close>

fun op_size :: "sdsop \<Rightarrow> nat" where
  "op_size (Cat t n) = n"
| "op_size (Cpy t n) = n"
| "op_size (GrowZero n) = n"
| "op_size (MakeRoom n) = n"
| "op_size _ = 0"

lemma sds_op_spec:
  assumes "alloc_ok al" "sds_inv s" "op_args x" "op_size x < 2 ^ 64" "hlen s < 2 ^ 63"
  shows "outcome al (hlen s + op_size x) (sds_op al x s) (\<lambda>s'. sds_inv s' \<and> sds_str s' = str_op x (sds_str s))"
proof (cases x)
  case (MakeRoom n)
  then show ?thesis using assms by (auto intro!: outcome_mono [OF sdsMakeRoomFor_spec])
next
  case RemoveFree
  then show ?thesis using assms by (auto intro!: outcome_mono [OF sdsRemoveFreeSpace_spec])
next
  case (Trim cset)
  then show ?thesis using sdstrim_spec [OF assms(2), of cset] by auto
next
  case (Substr a n)
  then show ?thesis using sdssubstr_spec [OF assms(2), of a n] by auto
next
  case (Range a e)
  then show ?thesis using sdsrange_spec [OF assms(2), of a e] assms by auto
next
  case ToLower
  then show ?thesis using sds_each_spec [OF assms(2), of tolower] by (auto simp: sdstolower_def)
next
  case ToUpper
  then show ?thesis using sds_each_spec [OF assms(2), of toupper] by (auto simp: sdstoupper_def)
next
  case (MapChars f t n)
  then show ?thesis using sds_each_spec [OF assms(2), of "mapchar (zip (take n f) (take n t))"] assms
    by (auto simp: sdsmapchars_def sdslen_def mload_Some sds_str_def)
qed (use assms sdscatlen_spec sdscpylen_spec sdsgrowzero_spec sdsclear_spec [OF assms(2)] sdsupdatelen_spec [OF assms(2)] in auto)

primrec sds_run :: "allocator \<Rightarrow> sdsop list \<Rightarrow> sdshdr \<Rightarrow> sdshdr option" where
  "sds_run al [] s = Some s"
| "sds_run al (x # xs) s = do { s \<leftarrow> sds_op al x s; sds_run al xs s }"

primrec str_run :: "sdsop list \<Rightarrow> byte list \<Rightarrow> byte list" where
  "str_run [] xs = xs"
| "str_run (op # ops) xs = str_run ops (str_op op xs)"

lemma length_str_op: "length (str_op x xs) \<le> length xs + op_size x"
proof (cases x)
  case (Trim cset)
  have "length (trim_spec cset xs) \<le> length (rev (dropWhile (strchr cset) xs))"
    unfolding trim_spec_def length_rev [of "dropWhile _ (rev _)"] by (rule length_dropWhile_le)
  also have "\<dots> \<le> length xs" by (simp add: length_dropWhile_le)
  finally show ?thesis using Trim by simp
qed (auto simp: range_spec_def Let_def length_takeWhile_le)

lemma sds_run_spec:
  assumes "alloc_ok al" "sds_inv s" "list_all op_args xs" "hlen s + sum_list (map op_size xs) \<le> m" "m < 2 ^ 62"
  shows "outcome al m (sds_run al xs s) (\<lambda>s'. sds_inv s' \<and> sds_str s' = str_run xs (sds_str s))"
  using assms(2-4)
proof (induction xs arbitrary: s)
  case (Cons x xs)
  have a: "outcome al m (sds_op al x s) (\<lambda>s'. sds_inv s' \<and> sds_str s' = str_op x (sds_str s))"
    using Cons.prems assms(1,5) by (intro outcome_le [OF sds_op_spec]) auto
  show ?case unfolding sds_run.simps
  proof (rule outcome_bind [OF a])
    fix s' assume s': "sds_inv s' \<and> sds_str s' = str_op x (sds_str s)"
    then have "hlen s' \<le> hlen s + op_size x"
      using length_str_op [of x "sds_str s"] Cons.prems(1) len_str [of s'] by simp
    then show "outcome al m (sds_run al xs s') (\<lambda>s'. sds_inv s' \<and> sds_str s' = str_run (x # xs) (sds_str s))"
      using Cons.IH [of s'] Cons.prems s' by simp
  qed
qed simp

section \<open>Properties\<close>


text \<open>An allocator that gives 8 bytes more than asked, as \<open>malloc\<close> with size classes does.\<close>

definition roomy :: allocator where
  "roomy n = Some (replicate (n + 8) 165)"


end
