(* ===== verification/Sds_Num.thy ===== *)
theory Sds_Num
  imports Sds
begin

text \<open>
  Integers as strings in \<open>sds.c\<close>: the digits written backwards and reversed in place are the decimal
  representation that \<open>ll2string\<close> of \<open>util.c\<close> prints, and a buffer of 21 bytes is enough for it.
\<close>

section \<open>Integers as strings\<close>

lemma ll2str_digits_spec:
  "p + length (dec v) \<le> length buf \<Longrightarrow>
   ll2str_digits buf p v = Some (take p buf @ rev (dec v) @ drop (p + length (dec v)) buf, p + length (dec v))"
proof (induction v arbitrary: buf p rule: dec.induct)
  case (1 v)
  define c :: byte where "c = 48 + of_nat (v mod 10)"
  have p: "p < length buf" using 1(2) length_dec_pos [of v] by linarith
  have w: "put_byte buf (int p) c = Some (buf[p := c])" using p by (simp add: put_byte_def)
  show ?case
  proof (cases "v < 10")
    case True
    then show ?thesis using p w by (subst ll2str_digits.simps) (simp add: dec.simps c_def upd_conv_take_nth_drop)
  next
    case False
    then have d: "dec v = dec (v div 10) @ [c]" by (subst dec.simps) (simp add: c_def)
    have "ll2str_digits (buf[p := c]) (p + 1) (v div 10) = Some (take (p + 1) (buf[p := c]) @ rev (dec (v div 10)) @
        drop (p + 1 + length (dec (v div 10))) (buf[p := c]), p + 1 + length (dec (v div 10)))"
      using 1(2) d by (intro "1.IH" [OF False]) auto
    moreover have "take (p + 1) (buf[p := c]) = take p buf @ [c]"
      using p by (simp add: take_Suc_conv_app_nth)
    ultimately show ?thesis using False d w by (subst ll2str_digits.simps) (simp add: c_def [symmetric])
  qed
qed

lemma ll2str_reverse_spec:
  "p < length buf \<Longrightarrow> s \<le> p + 1 \<Longrightarrow> \<exists>buf'. ll2str_reverse buf s p = Some buf' \<and> length buf' = length buf \<and>
   (\<forall>i < length buf. buf' ! i = (if s \<le> i \<and> i \<le> p then buf ! (s + p - i) else buf ! i))"
proof (induction buf s p rule: ll2str_reverse.induct)
  case (1 buf s p)
  show ?case
  proof (cases "s < p")
    case True
    let ?b = "buf[s := buf ! p, p := buf ! s]"
    have "\<exists>buf'. ll2str_reverse ?b (s + 1) (p - 1) = Some buf' \<and> length buf' = length ?b \<and>
      (\<forall>i < length ?b. buf' ! i = (if s + 1 \<le> i \<and> i \<le> p - 1 then ?b ! (s + 1 + (p - 1) - i) else ?b ! i))"
      using 1 True by (intro "1.IH") auto
    then obtain buf' where b: "ll2str_reverse ?b (s + 1) (p - 1) = Some buf'" "length buf' = length ?b"
      "\<And>i. i < length ?b \<Longrightarrow> buf' ! i = (if s + 1 \<le> i \<and> i \<le> p - 1 then ?b ! (s + 1 + (p - 1) - i) else ?b ! i)" by blast
    have "buf' ! i = (if s \<le> i \<and> i \<le> p then buf ! (s + p - i) else buf ! i)" if "i < length buf" for i
      using b(3) [of i] that True 1(2) by (auto simp: nth_list_update)
    then show ?thesis using b True 1(2) by (subst ll2str_reverse.simps) auto
  next
    case False
    have "buf ! (s + p - i) = buf ! i" if "s \<le> i" "i \<le> p" for i using that False by (auto intro: arg_cong [of _ _ "(!) buf"])
    then show ?thesis using False by (subst ll2str_reverse.simps) auto
  qed
qed

lemma reverse_prefix:
  assumes "0 < length xs" "length xs < length buf" "take (length xs) buf = xs" "buf ! length xs = 0"
  shows "\<exists>buf'. ll2str_reverse buf 0 (length xs - 1) = Some buf' \<and> length buf' = length buf \<and>
    take (length xs) buf' = rev xs \<and> buf' ! length xs = 0"
proof -
  have h: "length xs - 1 < length buf" using assms(2) by linarith
  obtain buf' where b: "ll2str_reverse buf 0 (length xs - 1) = Some buf'" "length buf' = length buf"
    "\<And>i. i < length buf \<Longrightarrow> buf' ! i = (if i \<le> length xs - 1 then buf ! (length xs - 1 - i) else buf ! i)"
    using ll2str_reverse_spec [OF h, of 0] by auto
  have x: "buf ! i = xs ! i" if "i < length xs" for i using assms(3) that by (metis nth_take)
  have "take (length xs) buf' = rev xs"
    using b assms(1,2) x by (intro nth_equalityI) (auto simp: rev_nth)
  moreover have "buf' ! length xs = 0" using b(3) [of "length xs"] assms(1,2,4) by (cases xs) auto
  ultimately show ?thesis using b by blast
qed

lemma sdsll2str_spec:
  assumes "length (print_int v) < length buf"
  shows "\<exists>buf'. sdsll2str buf v = Some (buf', length (print_int v)) \<and> length buf' = length buf \<and>
    take (length (print_int v)) buf' = print_int v \<and> buf' ! length (print_int v) = 0"
proof -
  define xs where "xs = rev (print_int v)"
  define d where "d = dec (nat \<bar>v\<bar>)"
  have xs: "xs = rev d @ (if v < 0 then [45] else [])" by (auto simp: xs_def d_def print_int_def)
  have l: "length xs < length buf" "length d \<le> length xs" "0 < length d" "0 < length xs" "length (print_int v) = length xs"
    using assms length_dec_pos [of "nat \<bar>v\<bar>"] by (auto simp: xs d_def print_int_def)
  define b1 where "b1 = rev d @ drop (length d) buf"
  have 1: "ll2str_digits buf 0 (nat \<bar>v\<bar>) = Some (b1, length d)"
    using ll2str_digits_spec [of 0 "nat \<bar>v\<bar>" buf] l by (simp add: d_def b1_def)
  define b2 where "b2 = (if v < 0 then b1[length d := 45] else b1)"
  have 2: "(if v < 0 then do { buf \<leftarrow> put_byte b1 (int (length d)) 45; Some (buf, length d + 1) } else Some (b1, length d)) =
      Some (b2, length xs)"
    using l by (auto simp: b2_def put_byte_def b1_def xs)
  have t2: "take (length xs) b2 = xs" "length b2 = length buf"
    using l by (auto simp: b2_def b1_def xs list_update_append take_Suc_conv_app_nth nth_append)
  define b3 where "b3 = b2[length xs := 0]"
  have 3: "put_byte b2 (int (length xs)) 0 = Some b3" using l t2 by (simp add: b3_def put_byte_def)
  have t3: "take (length xs) b3 = xs" "length b3 = length buf" "b3 ! length xs = 0" using t2 l by (auto simp: b3_def)
  obtain b4 where b4: "ll2str_reverse b3 0 (length xs - 1) = Some b4" "length b4 = length b3"
    "take (length xs) b4 = rev xs" "b4 ! length xs = 0"
    using reverse_prefix [of xs b3] t3 l by auto
  have "sdsll2str buf v = Some (b4, length xs)"
    unfolding sdsll2str_def 1 by (simp add: 2 [simplified] 3 b4(1) [simplified])
  moreover have "rev xs = print_int v" by (simp add: xs_def)
  ultimately show ?thesis using b4(2-4) t3(2) unfolding l(5) by simp
qed

lemma sdsfromlonglong_spec:
  assumes "alloc_ok al" "int64 v"
  shows "outcome al 20 (sdsfromlonglong al junk v) (\<lambda>s. sds_inv s \<and> sds_str s = print_int v)"
proof -
  have l: "length (print_int v) \<le> 20" by (rule length_print_int [OF assms(2)])
  then obtain b where b: "sdsll2str (map junk [0..<SDS_LLSTR_SIZE]) v = Some (b, length (print_int v))"
    "length b = 21" "take (length (print_int v)) b = print_int v"
    using sdsll2str_spec [of v "map junk [0..<SDS_LLSTR_SIZE]"] by (auto simp: SDS_LLSTR_SIZE_def)
  have "length (print_int v) < 2 ^ 64" "length (print_int v) \<le> length b" using l b(2) by auto
  from outcome_le [OF sdsnewlen_spec [OF assms(1) this] l]
  show ?thesis using b by (simp add: sdsfromlonglong_def)
qed

end
