(* ===== verification/T_set.thy ===== *)
theory T_set
  imports Intset Dict_Props Sds_Num
begin

text \<open>
  Set objects (\<open>t_set.c\<close>): an integer set while every element is the decimal representation of a
  64-bit integer and there are few of them, and a hash table of strings afterwards. The integer sets
  are those of \<open>Intset\<close>, the hash tables those of \<open>Dict\<close> with the type \<open>setDictType\<close>, and the
  conversion prints integers with \<open>sdsfromlonglong\<close> of \<open>Sds\<close>. Elements are the bytes of sds strings.
  The environment holds what the operations read of the server: the hash seed, whether tables may be
  resized, the limit \<open>set-max-intset-entries\<close>, the allocator of the strings, indeterminate memory, and
  the addresses of the tables of each object, which iterators put into their fingerprints.
\<close>

datatype setobj = Set_Intset intset | Set_Ht "(sds, unit) dict"

record set_env =
  sv_seed :: "byte list"
  sv_can_resize :: bool
  sv_max_intset :: nat
  sv_al :: allocator
  sv_junk :: "nat \<Rightarrow> byte"
  sv_addr :: "nat \<Rightarrow> u64 \<times> u64"
  sv_fp :: u64

abbreviation set_dt :: "set_env \<Rightarrow> (sds, unit) dictType" where
  "set_dt e \<equiv> setDictType (sv_seed e)"

text \<open>The bytes of the string that \<open>sdsfromlonglong\<close> and \<open>sdsdup\<close> make.\<close>

definition sds_from_ll :: "set_env \<Rightarrow> int \<Rightarrow> sds option" where
  "sds_from_ll e v = map_option sds_str (sdsfromlonglong (sv_al e) (sv_junk e) v)"

definition sds_copy :: "set_env \<Rightarrow> sds \<Rightarrow> sds option" where
  "sds_copy e s = map_option sds_str (sdsnewlen (sv_al e) (SDS_BYTES s) (length s))"

definition isSdsRepresentableAsLongLong :: "sds \<Rightarrow> int option" where
  "isSdsRepresentableAsLongLong s = string2ll s"

section \<open>The operations\<close>

definition createSetObject :: setobj where "createSetObject = Set_Ht dictCreate"

definition createIntsetObject :: setobj where "createIntsetObject = Set_Intset intsetNew"

definition setTypeCreate :: "sds \<Rightarrow> setobj" where
  "setTypeCreate value =
     (if isSdsRepresentableAsLongLong value \<noteq> None then createIntsetObject else createSetObject)"

definition setTypeSize :: "setobj \<Rightarrow> nat" where
  "setTypeSize subject = (case subject of Set_Ht d \<Rightarrow> dictSize d | Set_Intset iset \<Rightarrow> intsetLen iset)"

text \<open>The loop of the conversion: \<open>ii\<close> is the position of the iterator over the integers.\<close>

function convert_loop :: "set_env \<Rightarrow> intset \<Rightarrow> nat \<Rightarrow> (sds, unit) dict \<Rightarrow> (sds, unit) dict option" where
  "convert_loop e iset ii d = do {
     r \<leftarrow> intsetGet iset ii;
     (case r of
        None \<Rightarrow> Some d
      | Some intele \<Rightarrow> do {
          element \<leftarrow> sds_from_ll e intele;
          (d, ok) \<leftarrow> dictAdd (set_dt e) (sv_can_resize e) () d element ();
          if ok then convert_loop e iset (ii + 1) d else None }) }"
  by pat_completeness auto
termination
  by (relation "measure (\<lambda>(e, iset, ii, d). is_length iset - ii)") (auto simp: intsetGet_def split: if_splits)

declare convert_loop.simps [simp del]

definition setTypeConvert :: "set_env \<Rightarrow> intset \<Rightarrow> setobj option" where
  "setTypeConvert e iset = do {
     (d, _) \<leftarrow> dictExpand dictCreate (intsetLen iset);
     d \<leftarrow> convert_loop e iset 0 d;
     Some (Set_Ht d) }"

text \<open>\<open>dictSetKey\<close> on the entry a reference points to.\<close>

definition dict_set_key :: "('k, 'v) dictType \<Rightarrow> ('k, 'v) dict \<Rightarrow> dictRef \<Rightarrow> 'k \<Rightarrow> ('k, 'v) dict" where
  "dict_set_key t d r k = (case r of (table, idx, pos) \<Rightarrow>
     dict_ht_update table
       (\<lambda>ht. ht\<lparr>ht_table := (ht_table ht)[idx :=
          (ht_table ht ! idx)[pos := dictSetKey t (ht_table ht ! idx ! pos) k]]\<rparr>) d)"

definition setTypeAdd :: "set_env \<Rightarrow> setobj \<Rightarrow> sds \<Rightarrow> (setobj \<times> bool) option" where
  "setTypeAdd e subject value = (case subject of
     Set_Ht ht \<Rightarrow> do {
       (ht, de) \<leftarrow> dictAddRaw (set_dt e) (sv_can_resize e) () ht value;
       (case de of
          Added ref \<Rightarrow> do {
            k \<leftarrow> sds_copy e value;
            let ht = dict_set_key (set_dt e) ht ref k;
            Some (Set_Ht (dict_set_val (set_dt e) ht ref ()), True) }
        | _ \<Rightarrow> Some (Set_Ht ht, False)) }
   | Set_Intset iset \<Rightarrow>
       (case isSdsRepresentableAsLongLong value of
          Some llval \<Rightarrow> do {
            (iset, success) \<leftarrow> intsetAdd (sv_junk e) iset llval;
            if success then
              (let max_entries = (if sv_max_intset e \<ge> 2 ^ 30 then 2 ^ 30 else sv_max_intset e) in do {
                 s \<leftarrow> (if intsetLen iset > max_entries then setTypeConvert e iset else Some (Set_Intset iset));
                 Some (s, True) })
            else Some (Set_Intset iset, False) }
        | None \<Rightarrow> do {
            s \<leftarrow> setTypeConvert e iset;
            (case s of
               Set_Ht d \<Rightarrow> do {
                 k \<leftarrow> sds_copy e value;
                 (d, ok) \<leftarrow> dictAdd (set_dt e) (sv_can_resize e) () d k ();
                 if ok then Some (Set_Ht d, True) else None }
             | Set_Intset _ \<Rightarrow> None) }))"

definition setTypeRemove :: "set_env \<Rightarrow> setobj \<Rightarrow> sds \<Rightarrow> (setobj \<times> bool) option" where
  "setTypeRemove e setobj value = (case setobj of
     Set_Ht d \<Rightarrow> do {
       (d, ok) \<leftarrow> dictDelete (set_dt e) d value;
       if ok then do {
         d \<leftarrow> (if htNeedsResize d then map_option fst (dictResize (sv_can_resize e) d) else Some d);
         Some (Set_Ht d, True) }
       else Some (Set_Ht d, False) }
   | Set_Intset iset \<Rightarrow>
       (case isSdsRepresentableAsLongLong value of
          Some llval \<Rightarrow> do {
            (iset, success) \<leftarrow> intsetRemove (sv_junk e) iset llval;
            Some (Set_Intset iset, success) }
        | None \<Rightarrow> Some (Set_Intset iset, False)))"

definition setTypeIsMember :: "set_env \<Rightarrow> setobj \<Rightarrow> sds \<Rightarrow> (setobj \<times> bool) option" where
  "setTypeIsMember e subject value = (case subject of
     Set_Ht d \<Rightarrow> do { (d, de) \<leftarrow> dictFind (set_dt e) d value; Some (Set_Ht d, de \<noteq> None) }
   | Set_Intset iset \<Rightarrow>
       (case isSdsRepresentableAsLongLong value of
          Some llval \<Rightarrow> do { f \<leftarrow> intsetFind iset llval; Some (Set_Intset iset, f) }
        | None \<Rightarrow> Some (Set_Intset iset, False)))"

section \<open>Invariant and abstraction\<close>

definition env_ok :: "set_env \<Rightarrow> bool" where
  "env_ok e \<longleftrightarrow> alloc_ok (sv_al e) \<and> enough (sv_al e) 20"

definition setobj_inv :: "set_env \<Rightarrow> setobj \<Rightarrow> bool" where
  "setobj_inv e s \<longleftrightarrow> env_ok e \<and> (case s of Set_Intset iset \<Rightarrow> intset_inv iset | Set_Ht d \<Rightarrow> dict_inv (set_dt e) d)"

definition setobj_elems :: "set_env \<Rightarrow> setobj \<Rightarrow> sds set" where
  "setobj_elems e s = (case s of Set_Intset iset \<Rightarrow> print_int ` intset_set iset | Set_Ht d \<Rightarrow> dom (dict_map (set_dt e) d))"

definition setobj_room :: "setobj \<Rightarrow> nat \<Rightarrow> bool" where
  "setobj_room s n \<longleftrightarrow> (case s of Set_Intset iset \<Rightarrow> intset_room iset n | Set_Ht d \<Rightarrow> dictSize d + n < 2 ^ 60)"

text \<open>There is memory for a copy of the value.\<close>

definition storable :: "set_env \<Rightarrow> sds \<Rightarrow> bool" where
  "storable e x \<longleftrightarrow> enough (sv_al e) (length x)"

lemma sds_from_ll_eq: "env_ok e \<Longrightarrow> int64 v \<Longrightarrow> sds_from_ll e v = Some (print_int v)"
  using sdsfromlonglong_spec [of "sv_al e" v "sv_junk e"]
  by (auto simp: env_ok_def sds_from_ll_def outcome_def split: option.splits)

lemma sds_copy_eq: "env_ok e \<Longrightarrow> storable e s \<Longrightarrow> sds_copy e s = Some s"
proof -
  assume a: "env_ok e" "storable e s"
  then have "length s < 2 ^ 64" by (simp add: storable_def enough_def)
  then show ?thesis using sdsnewlen_spec [of "sv_al e" "length s" s] a
    by (auto simp: env_ok_def storable_def sds_copy_def outcome_def split: option.splits)
qed

lemma entries_keys: "dict_inv (set_dt e) d \<Longrightarrow> dom (dict_map (set_dt e) d) = de_key ` set (dict_entries d)"
proof -
  assume inv: "dict_inv (set_dt e) d"
  have "k \<in> dom (dict_map (set_dt e) d) \<longleftrightarrow> (\<exists>x \<in> set (dict_entries d). de_key x = k)" for k
    using set_type.dict_map_None [OF inv, of k] mset_dict_entries [of d, symmetric]
    by (auto simp: dom_def key_matches_iff)
  then show ?thesis unfolding set_eq_iff image_iff by metis
qed

lemma dict_size_card: "dict_inv (set_dt e) d \<Longrightarrow> dictSize d = card (dom (dict_map (set_dt e) d))"
proof -
  assume inv: "dict_inv (set_dt e) d"
  have "distinct (map de_key xs)" if "distinct_keys (set_dt e) xs" for xs :: "(sds, unit) dictEntry list"
    using that by (induction xs) (auto simp: distinct_keys_def)
  then have "distinct (map de_key (dict_entries d))" using inv by (simp add: dict_inv_def)
  then have "card (de_key ` set (dict_entries d)) = length (dict_entries d)"
    using distinct_card by fastforce
  moreover have "dictSize d = length (dict_entries d)"
    using dict_core_size [of "set_dt e" d] inv mset_dict_entries [of d, symmetric] by (simp add: dict_inv_core)
  ultimately show ?thesis using entries_keys [OF inv] by simp
qed

text \<open>Hash tables with strings as keys and no values represent sets.\<close>

lemma dict_set_add:
  assumes "dict_inv (set_dt e) d" "dictSize d + Suc n < 2 ^ 60"
  shows "\<exists>d'. dictAdd (set_dt e) c () d x () = Some (d', x \<notin> dom (dict_map (set_dt e) d)) \<and> dict_inv (set_dt e) d' \<and>
    dom (dict_map (set_dt e) d') = insert x (dom (dict_map (set_dt e) d)) \<and> dictSize d' + n < 2 ^ 60"
proof -
  have "dictSize d < 2 ^ 60" using assms(2) by simp
  note add = set_type.dictAdd_spec [OF assms(1) this, of c "()" x "()"]
  show ?thesis
  proof (cases "dict_map (set_dt e) d x")
    case None
    then show ?thesis using add assms(2) by (auto simp: map_put_def dom_def split: if_splits)
  next
    case (Some u)
    then show ?thesis using add assms(2) by auto
  qed
qed

lemma dict_set_remove:
  assumes "dict_inv (set_dt e) d"
  shows "\<exists>d'. dictDelete (set_dt e) d x = Some (d', x \<in> dom (dict_map (set_dt e) d)) \<and> dict_inv (set_dt e) d' \<and>
    dom (dict_map (set_dt e) d') = dom (dict_map (set_dt e) d) - {x}"
proof -
  obtain d' r where d': "dictGenericDelete (set_dt e) d x = Some (d', r)" "dict_inv (set_dt e) d'"
    "map_option de_val r = dict_map (set_dt e) d x" "dict_map (set_dt e) d' = map_del (set_dt e) (dict_map (set_dt e) d) x"
    using set_type.dictGenericDelete_spec [OF assms] by blast
  have "(r \<noteq> None) = (x \<in> dom (dict_map (set_dt e) d))" using d'(3) by (metis domIff map_option_is_None)
  then show ?thesis using d' by (auto simp: dictDelete_def map_del_def dom_def split: if_splits)
qed

lemma dict_set_member:
  assumes "dict_inv (set_dt e) d"
  shows "\<exists>d' de. dictFind (set_dt e) d x = Some (d', de) \<and> (de \<noteq> None) = (x \<in> dom (dict_map (set_dt e) d)) \<and>
    dict_inv (set_dt e) d' \<and> dom (dict_map (set_dt e) d') = dom (dict_map (set_dt e) d)"
proof -
  obtain d' de where d': "dictFind (set_dt e) d x = Some (d', de)" "dict_inv (set_dt e) d'"
    "dict_map (set_dt e) d' = dict_map (set_dt e) d" "map_option de_val de = dict_map (set_dt e) d x"
    using set_type.dictFind_spec [OF assms] by blast
  have "(de \<noteq> None) = (x \<in> dom (dict_map (set_dt e) d))" using d'(4) by (metis domIff map_option_is_None)
  then show ?thesis using d' by auto
qed

interpretation dict_set: set_impl "dict_inv (set_dt e)" "\<lambda>d. dom (dict_map (set_dt e) d)" "\<lambda>_. True"
  "\<lambda>d n. dictSize d + n < 2 ^ 60" "\<lambda>d x. dictAdd (set_dt e) c () d x ()" "dictDelete (set_dt e)"
  "\<lambda>d x. map_option (\<lambda>(d, de). (d, de \<noteq> None)) (dictFind (set_dt e) d x)" dictSize for e c
proof (unfold_locales, goal_cases)
  case (5 s x)
  then show ?case using dict_set_member [of e s x] by auto
qed (use entries_keys dict_size_card dict_set_add dict_set_remove in \<open>auto\<close>)

lemma dict_set_same:
  fixes d :: "(sds, unit) dict"
  assumes "ref_ok d ref" "de_key (dict_deref d ref) = k" "dict_core (set_dt e) d"
  shows "dict_set_key (set_dt e) d ref k = d" "dict_set_val (set_dt e) d ref () = d"
proof -
  obtain table idx pos where r: "ref = (table, idx, pos)" by (cases ref) auto
  have "dictSetKey (set_dt e) (dict_deref d ref) k = dict_deref d ref"
    "dictSetVal (set_dt e) (dict_deref d ref) () = dict_deref d ref"
    using assms(2) by (auto simp: dictSetKey_def dictSetVal_def)
  then show "dict_set_key (set_dt e) d ref k = d" "dict_set_val (set_dt e) d ref () = d"
    using assms(1) by (auto simp: r dict_set_key_def dict_set_val_def dict_ht_update_def dict_deref_def ref_ok_def dict_ht_def
        split: if_splits)
qed

section \<open>Conversion\<close>

lemma intsetGet_eq:
  "intset_inv iset \<Longrightarrow> intsetGet iset i = Some (if i < is_length iset then Some (intset_elems iset ! i) else None)"
  by (simp add: intsetGet_def get_inv)

lemma intset_elem_range: "intset_inv iset \<Longrightarrow> v \<in> intset_set iset \<Longrightarrow> int64 v"
  using inv_rep [of iset] enc_range_mono [of "is_encoding iset" 8 v] by (auto simp: intset_rep_def enc_ok_def)

lemma convert_loop_spec:
  assumes "env_ok e" "intset_inv iset" "ii \<le> is_length iset" "dict_inv (set_dt e) d" "is_length iset < 2 ^ 59"
    "dom (dict_map (set_dt e) d) = print_int ` set (take ii (intset_elems iset))"
  shows "\<exists>d'. convert_loop e iset ii d = Some d' \<and> dict_inv (set_dt e) d' \<and>
    dom (dict_map (set_dt e) d') = print_int ` intset_set iset"
  using assms(3,4,6)
proof (induction "is_length iset - ii" arbitrary: ii d)
  case 0
  then show ?case using intsetGet_eq [OF assms(2), of ii]
    by (subst convert_loop.simps) simp
next
  case (Suc n)
  let ?vs = "intset_elems iset"
  have ii: "ii < is_length iset" using Suc.hyps(2) by simp
  then have l: "ii < length ?vs" using length_intset_elems by simp
  have r: "int64 v" if "v \<in> set ?vs" for v using intset_elem_range [OF assms(2) that] .
  have v: "int64 (?vs ! ii)" using r l by simp
  have "card (dom (dict_map (set_dt e) d)) \<le> length (take ii ?vs)"
    unfolding Suc.prems(3) using card_length [of "take ii ?vs"] card_image_le [of "set (take ii ?vs)" print_int] by fastforce
  then have sz: "dictSize d + Suc 0 < 2 ^ 60" using dict_size_card [OF Suc.prems(2)] ii assms(5) by simp
  have "print_int (?vs ! ii) \<notin> dom (dict_map (set_dt e) d)"
  proof
    assume "print_int (?vs ! ii) \<in> dom (dict_map (set_dt e) d)"
    then obtain j where j: "j < ii" "print_int (?vs ! ii) = print_int (?vs ! j)"
      unfolding Suc.prems(3) using l by (auto simp: in_set_conv_nth)
    then have "?vs ! ii = ?vs ! j" using print_int_inj v r l by (metis less_trans nth_mem)
    then show False using intset_inv_distinct [OF assms(2)] j l by (simp add: nth_eq_iff_index_eq)
  qed
  then obtain d' where d': "dictAdd (set_dt e) (sv_can_resize e) () d (print_int (?vs ! ii)) () = Some (d', True)"
    "dict_inv (set_dt e) d'" "dom (dict_map (set_dt e) d') = insert (print_int (?vs ! ii)) (dom (dict_map (set_dt e) d))"
    using dict_set.add_spec [OF Suc.prems(2) TrueI sz, of "sv_can_resize e" "print_int (?vs ! ii)"] by auto
  have "dom (dict_map (set_dt e) d') = print_int ` set (take (ii + 1) ?vs)"
    using d'(3) Suc.prems(3) l by (simp add: take_Suc_conv_app_nth)
  then have "\<exists>d''. convert_loop e iset (ii + 1) d' = Some d'' \<and> dict_inv (set_dt e) d'' \<and>
      dom (dict_map (set_dt e) d'') = print_int ` intset_set iset"
    using Suc.hyps(2) ii d'(2) by (intro Suc.hyps(1)) auto
  then show ?case using intsetGet_eq [OF assms(2), of ii] ii sds_from_ll_eq [OF assms(1) v] d'(1)
    by (subst convert_loop.simps) simp
qed

lemma setTypeConvert_spec:
  assumes "env_ok e" "intset_inv iset" "is_length iset < 2 ^ 59"
  shows "\<exists>d. setTypeConvert e iset = Some (Set_Ht d) \<and> dict_inv (set_dt e) d \<and>
    dom (dict_map (set_dt e) d) = print_int ` intset_set iset"
proof -
  have "dict_core (set_dt e) dictCreate" using dict_inv_create(1) [of "set_dt e"] by (simp add: dict_inv_core del: dict_inv_create)
  then obtain d ok where d: "dictExpand dictCreate (intsetLen iset) = Some (d, ok)" "dict_core (set_dt e) d"
    "dict_bag d = dict_bag (dictCreate :: (sds, unit) dict)"
    using dictExpand_spec [of "set_dt e" dictCreate "intsetLen iset"] by blast
  have d': "dict_inv (set_dt e) d" "dict_map (set_dt e) d = (\<lambda>k. None)"
    using set_type.dict_inv_same_bag [OF dict_inv_create(1) d(2,3)] by auto
  then show ?thesis using convert_loop_spec [OF assms(1,2) _ d'(1) assms(3), of 0] d(1)
    by (auto simp: setTypeConvert_def)
qed

section \<open>The contract\<close>

lemma repr_iff: "isSdsRepresentableAsLongLong x = Some v \<longleftrightarrow> x = print_int v \<and> int64 v"
  by (simp add: isSdsRepresentableAsLongLong_def string2ll_spec)

lemma repr_mem:
  assumes "intset_inv iset" "isSdsRepresentableAsLongLong x = Some v"
  shows "x \<in> print_int ` intset_set iset \<longleftrightarrow> v \<in> intset_set iset"
proof -
  have v: "x = print_int v" "int64 v" using assms(2) by (simp_all add: repr_iff)
  have "w = v" if "w \<in> intset_set iset" "print_int v = print_int w" for w
    using that print_int_inj [OF v(2) intset_elem_range [OF assms(1) that(1)]] by simp
  then show ?thesis using v(1) by auto
qed

lemma repr_none:
  "intset_inv iset \<Longrightarrow> isSdsRepresentableAsLongLong x = None \<Longrightarrow> x \<notin> print_int ` intset_set iset"
proof
  assume a: "intset_inv iset" "isSdsRepresentableAsLongLong x = None" "x \<in> print_int ` intset_set iset"
  then obtain v where v: "v \<in> intset_set iset" "x = print_int v" by blast
  then have "isSdsRepresentableAsLongLong x = Some v" using intset_elem_range [OF a(1)] by (simp add: repr_iff)
  then show False using a(2) by simp
qed

lemma setTypeAdd_spec:
  assumes inv: "setobj_inv e s" and x: "storable e x" and room: "setobj_room s (Suc n)"
  shows "\<exists>s'. setTypeAdd e s x = Some (s', x \<notin> setobj_elems e s) \<and> setobj_inv e s' \<and>
    setobj_elems e s' = insert x (setobj_elems e s) \<and> setobj_room s' n"
proof -
  have e: "env_ok e" using inv by (simp add: setobj_inv_def)
  have cp: "sds_copy e x = Some x" using sds_copy_eq [OF e x] .
  show ?thesis
  proof (cases s)
    case (Set_Ht d)
    have d: "dict_inv (set_dt e) d" and sz: "dictSize d < 2 ^ 60"
      using inv room by (simp_all add: setobj_inv_def setobj_room_def Set_Ht)
    show ?thesis
    proof (cases "dict_map (set_dt e) d x")
      case None
      then obtain d' ref where r: "dictAddRaw (set_dt e) (sv_can_resize e) () d x = Some (d', Added ref)" "dict_inv (set_dt e) d'"
        "ref_ok d' ref" "key_matches (set_dt e) x (dict_deref d' ref)"
        "dict_map (set_dt e) d' = map_put (set_dt e) (dict_map (set_dt e) d) x ()" "dictSize d' = dictSize d + 1"
        using set_type.dictAddRaw_spec [OF d sz, of "sv_can_resize e" "()" x] by auto
      have "de_key (dict_deref d' ref) = x" using r(4) by (simp add: key_matches_iff)
      then have "dict_set_key (set_dt e) d' ref x = d'" "dict_set_val (set_dt e) d' ref () = d'"
        using dict_set_same [OF r(3)] r(2) by (auto simp: dict_inv_core)
      then show ?thesis using r None e cp room unfolding setTypeAdd_def setobj_elems_def setobj_inv_def setobj_room_def Set_Ht
        by (auto simp: map_put_def dom_def split: if_splits)
    next
      case (Some u)
      then obtain d' ref where r: "dictAddRaw (set_dt e) (sv_can_resize e) () d x = Some (d', Existing ref)" "dict_inv (set_dt e) d'"
        "dict_map (set_dt e) d' = dict_map (set_dt e) d" "dictSize d' = dictSize d"
        using set_type.dictAddRaw_spec [OF d sz, of "sv_can_resize e" "()" x] by auto
      then show ?thesis using Some e room unfolding setTypeAdd_def setobj_elems_def setobj_inv_def setobj_room_def Set_Ht by auto
    qed
  next
    case (Set_Intset iset)
    have iset: "intset_inv iset" and rm: "intset_room iset (Suc n)"
      using inv room by (simp_all add: setobj_inv_def setobj_room_def Set_Intset)
    have l59: "is_length iset < 2 ^ 29" using rm by (simp add: intset_room_def)
    show ?thesis
    proof (cases "isSdsRepresentableAsLongLong x")
      case None
      obtain d where d: "setTypeConvert e iset = Some (Set_Ht d)" "dict_inv (set_dt e) d"
        "dom (dict_map (set_dt e) d) = print_int ` intset_set iset"
        using setTypeConvert_spec [OF e iset] l59 by auto
      have new: "dict_map (set_dt e) d x = None" using repr_none [OF iset None] d(3) by blast
      have "card (print_int ` intset_set iset) \<le> is_length iset"
        using card_image_le [of "intset_set iset" print_int] card_length [of "intset_elems iset"] length_intset_elems by simp
      then have sz: "dictSize d \<le> is_length iset" using dict_size_card [OF d(2)] d(3) by simp
      then have "dictSize d < 2 ^ 60" using l59 by simp
      then obtain d' where d': "dictAdd (set_dt e) (sv_can_resize e) () d x () = Some (d', True)" "dict_inv (set_dt e) d'"
        "dict_map (set_dt e) d' = map_put (set_dt e) (dict_map (set_dt e) d) x ()" "dictSize d' = dictSize d + 1"
        using set_type.dictAdd_spec [OF d(2), of "sv_can_resize e" "()" x "()"] new by auto
      have "dom (dict_map (set_dt e) d') = insert x (print_int ` intset_set iset)"
        using d'(3) d(3) by (auto simp: map_put_def dom_def split: if_splits)
      moreover have "x \<notin> print_int ` intset_set iset" by (rule repr_none [OF iset None])
      ultimately show ?thesis using d d' None cp e sz rm
        by (simp add: Set_Intset setTypeAdd_def setobj_elems_def setobj_inv_def setobj_room_def intset_room_def)
    next
      case (Some v)
      have v: "x = print_int v" "int64 v" using Some by (simp_all add: repr_iff)
      obtain iset' where iset': "intsetAdd (sv_junk e) iset v = Some (iset', v \<notin> intset_set iset)" "intset_inv iset'"
        "intset_set iset' = insert v (intset_set iset)" "intset_room iset' n"
        using intset_impl.add_spec [OF iset v(2) rm] by blast
      have el: "print_int ` intset_set iset' = insert x (print_int ` intset_set iset)" using iset'(3) v(1) by simp
      have mem: "x \<in> print_int ` intset_set iset \<longleftrightarrow> v \<in> intset_set iset" by (rule repr_mem [OF iset Some])
      have l': "is_length iset' + n < 2 ^ 29" using iset'(4) by (simp add: intset_room_def)
      then obtain d where d: "setTypeConvert e iset' = Some (Set_Ht d)" "dict_inv (set_dt e) d"
        "dom (dict_map (set_dt e) d) = print_int ` intset_set iset'"
        using setTypeConvert_spec [OF e iset'(2)] by auto
      have "card (print_int ` intset_set iset') \<le> is_length iset'"
        using card_image_le [of "intset_set iset'" print_int] card_length [of "intset_elems iset'"] length_intset_elems by simp
      then have sz: "dictSize d \<le> is_length iset'" using dict_size_card [OF d(2)] d(3) by simp
      then show ?thesis using Some iset' d e el mem l'
        by (auto simp: Set_Intset setTypeAdd_def setobj_elems_def setobj_inv_def setobj_room_def Let_def)
    qed
  qed
qed

lemma dictResize_same:
  assumes "dict_inv (set_dt e) d"
  shows "\<exists>d' ok. dictResize can d = Some (d', ok) \<and> dict_inv (set_dt e) d' \<and> dict_map (set_dt e) d' = dict_map (set_dt e) d"
proof -
  have "dict_core (set_dt e) d" using assms by (simp add: dict_inv_core)
  note x = dictExpand_spec [OF this, of "if ht_used (ht0 d) < DICT_HT_INITIAL_SIZE then DICT_HT_INITIAL_SIZE else ht_used (ht0 d)"]
  then obtain d' ok where d': "dictExpand d (if ht_used (ht0 d) < DICT_HT_INITIAL_SIZE then DICT_HT_INITIAL_SIZE else ht_used (ht0 d)) = Some (d', ok)"
    "dict_core (set_dt e) d'" "dict_bag d' = dict_bag d" by blast
  show ?thesis using d'(1) set_type.dict_inv_same_bag [OF assms d'(2,3)] assms by (auto simp: dictResize_def Let_def)
qed

lemma setTypeRemove_spec:
  assumes inv: "setobj_inv e s"
  shows "\<exists>s'. setTypeRemove e s x = Some (s', x \<in> setobj_elems e s) \<and> setobj_inv e s' \<and>
    setobj_elems e s' = setobj_elems e s - {x}"
proof -
  have e: "env_ok e" using inv by (simp add: setobj_inv_def)
  show ?thesis
  proof (cases s)
    case (Set_Ht d)
    have d: "dict_inv (set_dt e) d" using inv by (simp add: setobj_inv_def Set_Ht)
    obtain d1 where d1: "dictDelete (set_dt e) d x = Some (d1, x \<in> dom (dict_map (set_dt e) d))" "dict_inv (set_dt e) d1"
      "dom (dict_map (set_dt e) d1) = dom (dict_map (set_dt e) d) - {x}"
      using dict_set.remove_spec [OF d TrueI] by blast
    obtain d2 ok where d2: "dictResize (sv_can_resize e) d1 = Some (d2, ok)" "dict_inv (set_dt e) d2"
      "dict_map (set_dt e) d2 = dict_map (set_dt e) d1" using dictResize_same [OF d1(2)] by blast
    show ?thesis using d1 d2 e by (auto simp: Set_Ht setTypeRemove_def setobj_elems_def setobj_inv_def)
  next
    case (Set_Intset iset)
    have iset: "intset_inv iset" using inv by (simp add: setobj_inv_def Set_Intset)
    show ?thesis
    proof (cases "isSdsRepresentableAsLongLong x")
      case None
      then show ?thesis using repr_none [OF iset None] inv
        by (simp add: Set_Intset setTypeRemove_def setobj_elems_def setobj_inv_def)
    next
      case (Some v)
      have v: "x = print_int v" "int64 v" using Some by (simp_all add: repr_iff)
      obtain iset' where i': "intsetRemove (sv_junk e) iset v = Some (iset', v \<in> intset_set iset)" "intset_inv iset'"
        "intset_set iset' = intset_set iset - {v}"
        using intset_impl.remove_spec [OF iset v(2)] by blast
      have "w = v" if "w \<in> intset_set iset" "print_int w = print_int v" for w
        using print_int_inj [OF v(2) intset_elem_range [OF iset that(1)]] that(2) by simp
      then have "print_int ` (intset_set iset - {v}) = print_int ` intset_set iset - {x}" using v(1) by auto
      then show ?thesis using Some i' repr_mem [OF iset Some] e
        by (simp add: Set_Intset setTypeRemove_def setobj_elems_def setobj_inv_def)
    qed
  qed
qed

lemma setTypeIsMember_spec:
  assumes inv: "setobj_inv e s"
  shows "\<exists>s'. setTypeIsMember e s x = Some (s', x \<in> setobj_elems e s) \<and> setobj_inv e s' \<and>
    setobj_elems e s' = setobj_elems e s"
proof (cases s)
  case (Set_Ht d)
  have d: "dict_inv (set_dt e) d" "env_ok e" using inv by (simp_all add: setobj_inv_def Set_Ht)
  show ?thesis using d(2) dict_set_member [OF d(1), of x]
    by (auto simp: Set_Ht setTypeIsMember_def setobj_elems_def setobj_inv_def)
next
  case (Set_Intset iset)
  have iset: "intset_inv iset" using inv by (simp add: setobj_inv_def Set_Intset)
  show ?thesis
  proof (cases "isSdsRepresentableAsLongLong x")
    case None
    then show ?thesis using repr_none [OF iset None] inv
      by (simp add: Set_Intset setTypeIsMember_def setobj_elems_def setobj_inv_def)
  next
    case (Some v)
    then have "intsetFind iset v = Some (v \<in> intset_set iset)" using intsetFind_ok [OF iset] by (simp add: repr_iff)
    then show ?thesis using Some repr_mem [OF iset Some] inv
      by (simp add: Set_Intset setTypeIsMember_def setobj_elems_def setobj_inv_def)
  qed
qed

lemma setobj_size:
  assumes "setobj_inv e s"
  shows "setTypeSize s = card (setobj_elems e s)" "finite (setobj_elems e s)"
proof -
  have "card (print_int ` intset_set i) = is_length i" if i: "intset_inv i" for i
  proof -
    have "inj_on print_int (intset_set i)"
      by (intro inj_onI) (use print_int_inj intset_elem_range [OF i] in metis)
    then show ?thesis using intset_inv_distinct [OF i] by (simp add: card_image distinct_card)
  qed
  then show "setTypeSize s = card (setobj_elems e s)" "finite (setobj_elems e s)"
    using assms entries_keys dict_size_card
    by (auto simp: setTypeSize_def setobj_elems_def setobj_inv_def intsetLen_def split: setobj.splits)
qed

interpretation setobj_impl: set_impl "setobj_inv e" "setobj_elems e" "storable e" setobj_room
  "setTypeAdd e" "setTypeRemove e" "setTypeIsMember e" setTypeSize for e
  by unfold_locales (use setTypeAdd_spec setTypeRemove_spec setTypeIsMember_spec setobj_size in auto)

lemma setTypeCreate_spec:
  assumes "env_ok e"
  shows "setobj_inv e (setTypeCreate x)" "setobj_elems e (setTypeCreate x) = {}" "setobj_inv e createIntsetObject"
    "setobj_elems e createIntsetObject = {}"
  using assms by (auto simp: setTypeCreate_def createIntsetObject_def createSetObject_def setobj_inv_def setobj_elems_def
      intsetNew_def intset_inv_def intset_elems_def INTSET_ENC_INT16_def)

section \<open>Properties\<close>

text \<open>
  C5. Adding any list of strings to a set object, as \<open>SADD\<close> does with its arguments, returns the number
  of strings that were not members, and the object then holds exactly the old elements and the
  arguments, whichever encoding it had and whenever it changes: integers move from the sorted array
  to the hash table as their decimal representations, none lost and none equal to another string.
\<close>

theorem sadd_elements:
  assumes "setobj_inv e s" "\<forall>x \<in> set args. storable e x" "setobj_room s (length args)"
  shows "\<exists>s'. add_loop (setTypeAdd e) s args 0 = Some (s', card (set args - setobj_elems e s)) \<and>
    setobj_inv e s' \<and> setobj_elems e s' = setobj_elems e s \<union> set args \<and>
    setTypeSize s' = card (setobj_elems e s \<union> set args)"
proof -
  obtain s' where "add_loop (setTypeAdd e) s args 0 = Some (s', 0 + card (set args - setobj_elems e s))"
    "setobj_inv e s'" "setobj_elems e s' = setobj_elems e s \<union> set args"
    using setobj_impl.add_loop_spec [OF assms, of 0] by blast
  then show ?thesis using setobj_size(1) [of e s'] by auto
qed

text \<open>An environment with memory for every request, and a limit of one integer.\<close>

definition set_env1 :: set_env where
  "set_env1 = \<lparr>sv_seed = replicate 16 0, sv_can_resize = True, sv_max_intset = 1, sv_al = roomy, sv_junk = (\<lambda>_. 0),
    sv_addr = (\<lambda>_. (0, 0)), sv_fp = 0\<rparr>"

lemma set_env1_ok: "env_ok set_env1" "length x < 2 ^ 62 \<Longrightarrow> storable set_env1 x"
  by (auto simp: env_ok_def set_env1_def alloc_ok_def enough_def roomy_def storable_def)

theorem sadd_elements_witness:
  "\<exists>s'. add_loop (setTypeAdd set_env1) createIntsetObject [[49], [45, 50], [49], [97]] 0 = Some (s', 3) \<and>
    setobj_elems set_env1 s' = {[49], [45, 50], [97]}"
proof -
  define args where "args = [[49], [45, 50], [49], [97 :: byte]]"
  have st: "\<forall>x \<in> set args. storable set_env1 x" by (auto simp: args_def intro: set_env1_ok(2))
  have rm: "setobj_room createIntsetObject (length args)"
    by (simp add: createIntsetObject_def setobj_room_def intset_room_def intsetNew_def args_def)
  note empty = setTypeCreate_spec(3,4) [OF set_env1_ok(1)]
  obtain s' where s': "add_loop (setTypeAdd set_env1) createIntsetObject args 0 = Some (s', card (set args - {}))"
    "setobj_elems set_env1 s' = {} \<union> set args"
    using sadd_elements [OF empty(1) st rm] unfolding empty(2) by blast
  have "card (set args - {}) = 3" "{} \<union> set args = {[49], [45, 50], [97]}"
    by (auto simp: args_def card_insert_if)
  with s' have "add_loop (setTypeAdd set_env1) createIntsetObject args 0 = Some (s', 3) \<and>
      setobj_elems set_env1 s' = {[49], [45, 50], [97]}" by (simp only: simp_thms)
  then show ?thesis unfolding args_def by (rule exI)
qed

end
