(* ===== verification/T_set_iter.thy ===== *)
theory T_set_iter
  imports T_set
begin

text \<open>
  Iteration over set objects (\<open>t_set.c\<close>): the iterator of either encoding, the copy of an object, the
  random element and the loop of \<open>SREM\<close>. The iterator over a hash table is unsafe: its release asserts
  that the fingerprint of the table has not changed. The operations take the subject of the iterator
  as an argument and return it; \<open>addr\<close> are the addresses of its tables. The position in an integer set is
  an \<open>int\<close> in the code and a natural number here: \<open>setTypeAdd\<close> keeps integer sets to 2^30 elements, and the
  properties are about sets of less than 2^29.
\<close>

datatype setTypeIterator = Si_Ht "(sds, unit) dictIterator" | Si_Intset nat

text \<open>What \<open>setTypeNext\<close> stores in \<open>sdsele\<close> or in \<open>llele\<close>, by the encoding it returns.\<close>

datatype set_ele = Ele_Sds sds | Ele_Int int

definition setTypeInitIterator :: "set_env \<Rightarrow> setobj \<Rightarrow> setTypeIterator" where
  "setTypeInitIterator e subject = (case subject of
     Set_Ht _ \<Rightarrow> Si_Ht (dictGetIterator (sv_fp e)) | Set_Intset _ \<Rightarrow> Si_Intset 0)"

definition setTypeReleaseIterator :: "u64 \<times> u64 \<Rightarrow> setobj \<Rightarrow> setTypeIterator \<Rightarrow> setobj option" where
  "setTypeReleaseIterator addr subject si = (case (si, subject) of
     (Si_Ht di, Set_Ht d) \<Rightarrow> map_option Set_Ht (dictReleaseIterator addr d di)
   | (Si_Ht _, Set_Intset _) \<Rightarrow> None
   | (Si_Intset _, _) \<Rightarrow> Some subject)"

definition setTypeNext ::
  "u64 \<times> u64 \<Rightarrow> setobj \<Rightarrow> setTypeIterator \<Rightarrow> (setobj \<times> setTypeIterator \<times> set_ele option) option" where
  "setTypeNext addr subject si = (case (si, subject) of
     (Si_Ht di, Set_Ht d) \<Rightarrow> do {
       (d, di, de) \<leftarrow> dictNext addr d di;
       Some (Set_Ht d, Si_Ht di, map_option (\<lambda>de. Ele_Sds (de_key de)) de) }
   | (Si_Intset ii, Set_Intset iset) \<Rightarrow> do {
       r \<leftarrow> intsetGet iset ii;
       Some (subject, Si_Intset (ii + 1), map_option Ele_Int r) }
   | _ \<Rightarrow> None)"

definition setTypeNextObject ::
  "set_env \<Rightarrow> u64 \<times> u64 \<Rightarrow> setobj \<Rightarrow> setTypeIterator \<Rightarrow> (setobj \<times> setTypeIterator \<times> sds option) option" where
  "setTypeNextObject e addr subject si = do {
     (subject, si, ele) \<leftarrow> setTypeNext addr subject si;
     (case ele of
        None \<Rightarrow> Some (subject, si, None)
      | Some (Ele_Int v) \<Rightarrow> do { x \<leftarrow> sds_from_ll e v; Some (subject, si, Some x) }
      | Some (Ele_Sds s) \<Rightarrow> do { x \<leftarrow> sds_copy e s; Some (subject, si, Some x) }) }"

text \<open>\<open>rnd\<close>, \<open>rnd'\<close> and \<open>r\<close> are the random numbers.\<close>

definition setTypeRandomElement ::
  "set_env \<Rightarrow> (nat \<Rightarrow> u64) \<Rightarrow> (nat \<Rightarrow> u64) \<Rightarrow> nat \<Rightarrow> setobj \<Rightarrow> (setobj \<times> set_ele) option" where
  "setTypeRandomElement e rnd rnd' r setobj = (case setobj of
     Set_Ht d \<Rightarrow> do {
       (d, de) \<leftarrow> dictGetFairRandomKey (set_dt e) rnd rnd' r d;
       de \<leftarrow> de;
       Some (Set_Ht d, Ele_Sds (de_key de)) }
   | Set_Intset iset \<Rightarrow> do { v \<leftarrow> intsetRandom r iset; Some (setobj, Ele_Int v) })"

text \<open>The loop of \<open>setTypeDup\<close> over a hash table, whose elements are strings.\<close>

partial_function (option) dup_loop ::
  "set_env \<Rightarrow> u64 \<times> u64 \<Rightarrow> setobj \<Rightarrow> setTypeIterator \<Rightarrow> setobj \<Rightarrow> (setobj \<times> setobj) option" where
  [code]: "dup_loop e addr subject si dup = do {
     (subject, si, ele) \<leftarrow> setTypeNext addr subject si;
     (case ele of
        None \<Rightarrow> do { subject \<leftarrow> setTypeReleaseIterator addr subject si; Some (subject, dup) }
      | Some (Ele_Sds x) \<Rightarrow> do {
          (dup, _) \<leftarrow> setTypeAdd e dup x;
          dup_loop e addr subject si dup }
      | Some (Ele_Int _) \<Rightarrow> None) }"

definition setTypeDup :: "set_env \<Rightarrow> u64 \<times> u64 \<Rightarrow> setobj \<Rightarrow> (setobj \<times> setobj) option" where
  "setTypeDup e addr subject = (case subject of
     Set_Intset iset \<Rightarrow> Some (subject, Set_Intset iset)
   | Set_Ht d \<Rightarrow> do {
       (d', _) \<leftarrow> dictExpand dictCreate (dictSize d);
       dup_loop e addr subject (setTypeInitIterator e subject) (Set_Ht d') })"

text \<open>The loop of \<open>SREM\<close>: the key is removed, and the loop left, once the set is empty.\<close>

fun srem_loop :: "set_env \<Rightarrow> setobj \<Rightarrow> sds list \<Rightarrow> nat \<Rightarrow> (setobj \<times> nat \<times> bool) option" where
  "srem_loop e s [] deleted = Some (s, deleted, False)"
| "srem_loop e s (x # xs) deleted = do {
     (s, ok) \<leftarrow> setTypeRemove e s x;
     if ok then (if setTypeSize s = 0 then Some (s, deleted + 1, True) else srem_loop e s xs (deleted + 1))
     else srem_loop e s xs deleted }"

section \<open>What an iterator has still to return\<close>

primrec ele_bytes :: "set_ele \<Rightarrow> sds" where
  "ele_bytes (Ele_Sds s) = s"
| "ele_bytes (Ele_Int v) = print_int v"

definition ele_ok :: "set_env \<Rightarrow> set_ele \<Rightarrow> bool" where
  "ele_ok e x \<longleftrightarrow> (case x of Ele_Int v \<Rightarrow> int64 v | Ele_Sds _ \<Rightarrow> True)"

definition set_eles :: "setobj \<Rightarrow> set_ele list" where
  "set_eles s = (case s of
     Set_Ht d \<Rightarrow> map (\<lambda>de. Ele_Sds (de_key de)) (dict_entries d) | Set_Intset iset \<Rightarrow> map Ele_Int (intset_elems iset))"

definition si_at :: "u64 \<times> u64 \<Rightarrow> setobj \<Rightarrow> setTypeIterator \<Rightarrow> set_ele list \<Rightarrow> bool" where
  "si_at addr s si xs \<longleftrightarrow> (case (si, s) of
     (Si_Ht di, Set_Ht d) \<Rightarrow>
       \<not> it_safe di \<and> iter_ok addr d d di \<and> xs = map (\<lambda>de. Ele_Sds (de_key de)) (iter_rest d di)
   | (Si_Intset ii, Set_Intset iset) \<Rightarrow> xs = map Ele_Int (drop ii (intset_elems iset))
   | _ \<Rightarrow> False)"

lemma si_at_init: "si_at addr s (setTypeInitIterator e s) (set_eles s)"
  by (auto simp: si_at_def setTypeInitIterator_def set_eles_def iter_ok_def iter_rest_def buckets_rest_def dict_entries_def
      dict_ht_def dictGetIterator_def split: setobj.splits)

lemma release_unsafe: "\<not> it_safe di \<Longrightarrow> dictReleaseIterator addr d di = Some d0 \<Longrightarrow> d = d0"
  by (auto simp: dictReleaseIterator_def split: if_splits)

lemma setTypeNext_spec:
  assumes inv: "setobj_inv e s" and si: "si_at addr s si xs"
  shows "\<exists>si'. case xs of
      [] \<Rightarrow> setTypeNext addr s si = Some (s, si', None) \<and> setTypeReleaseIterator addr s si' = Some s
    | x # xs \<Rightarrow> setTypeNext addr s si = Some (s, si', Some x) \<and> si_at addr s si' xs"
proof (cases s)
  case (Set_Ht d)
  obtain di where di: "si = Si_Ht di" using si by (auto simp: si_at_def Set_Ht split: setTypeIterator.splits)
  have ok: "\<not> it_safe di" "iter_ok addr d d di" "xs = map (\<lambda>de. Ele_Sds (de_key de)) (iter_rest d di)"
    using si by (simp_all add: si_at_def Set_Ht di)
  have core: "dict_core (set_dt e) d" using inv by (simp add: setobj_inv_def Set_Ht dict_inv_core)
  obtain d' di' where n: "\<not> it_safe di'" "case iter_rest d di of
       [] \<Rightarrow> dictNext addr d di = Some (d', di', None) \<and> dictReleaseIterator addr d' di' = Some d
     | x # xs \<Rightarrow> dictNext addr d di = Some (d', di', Some x) \<and> iter_ok addr d d' di' \<and> iter_rest d di' = xs"
    using dictNext_spec [OF core ok(2)] ok(1) by blast
  show ?thesis
  proof (cases "iter_rest d di")
    case Nil
    then have "dictReleaseIterator addr d' di' = Some d" using n(2) by simp
    then have "d' = d" using release_unsafe [OF n(1)] by blast
    then show ?thesis using Nil n ok(3) by (auto simp: Set_Ht di setTypeNext_def setTypeReleaseIterator_def)
  next
    case (Cons x ys)
    have "d' = d" using n Cons by (auto simp: iter_ok_def split: if_splits)
    then show ?thesis using Cons n ok(3) by (auto simp: Set_Ht di setTypeNext_def si_at_def)
  qed
next
  case (Set_Intset iset)
  obtain ii where ii: "si = Si_Intset ii" using si by (auto simp: si_at_def Set_Intset split: setTypeIterator.splits)
  have xs: "xs = map Ele_Int (drop ii (intset_elems iset))" using si by (simp add: si_at_def Set_Intset ii)
  have inv': "intset_inv iset" using inv by (simp add: setobj_inv_def Set_Intset)
  have l: "length (intset_elems iset) = is_length iset" using length_intset_elems by simp
  show ?thesis
  proof (cases "ii < is_length iset")
    case True
    then have "drop ii (intset_elems iset) = intset_elems iset ! ii # drop (Suc ii) (intset_elems iset)"
      using l by (simp add: Cons_nth_drop_Suc)
    then show ?thesis using True xs intsetGet_eq [OF inv', of ii]
      by (auto simp: Set_Intset ii setTypeNext_def si_at_def)
  next
    case False
    then show ?thesis using xs l intsetGet_eq [OF inv', of ii]
      by (auto simp: Set_Intset ii setTypeNext_def setTypeReleaseIterator_def)
  qed
qed

lemma setTypeNext_Nil:
  assumes "setobj_inv e s" "si_at addr s si []"
  obtains si' where "setTypeNext addr s si = Some (s, si', None)" "setTypeReleaseIterator addr s si' = Some s"
  using setTypeNext_spec [OF assms] by auto

lemma setTypeNext_Cons:
  assumes "setobj_inv e s" "si_at addr s si (x # xs)"
  obtains si' where "setTypeNext addr s si = Some (s, si', Some x)" "si_at addr s si' xs"
  using setTypeNext_spec [OF assms] by auto

lemma set_eles_elems:
  assumes "setobj_inv e s"
  shows "ele_bytes ` set (set_eles s) = setobj_elems e s" "distinct (map ele_bytes (set_eles s))"
    "length (set_eles s) = setTypeSize s" "x \<in> set (set_eles s) \<Longrightarrow> ele_ok e x"
proof -
  show el: "ele_bytes ` set (set_eles s) = setobj_elems e s"
    using assms entries_keys
    by (auto simp: set_eles_def setobj_elems_def setobj_inv_def image_image split: setobj.splits)
  show len: "length (set_eles s) = setTypeSize s"
  proof (cases s)
    case (Set_Ht d)
    then show ?thesis using assms dict_core_size [of "set_dt e" d] mset_dict_entries [of d, symmetric]
      by (simp add: set_eles_def setTypeSize_def setobj_inv_def dict_inv_core)
  next
    case (Set_Intset i)
    then show ?thesis by (simp add: set_eles_def setTypeSize_def intsetLen_def)
  qed
  then have "card (set (map ele_bytes (set_eles s))) = length (map ele_bytes (set_eles s))"
    using el setobj_size(1) [OF assms] by simp
  then show "distinct (map ele_bytes (set_eles s))" by (rule card_distinct)
  show "ele_ok e x" if "x \<in> set (set_eles s)"
    using that assms intset_elem_range by (auto simp: ele_ok_def set_eles_def setobj_inv_def split: setobj.splits)
qed

lemma setTypeNextObject_Nil:
  assumes "setobj_inv e s" "si_at addr s si []"
  obtains si' where "setTypeNextObject e addr s si = Some (s, si', None)" "setTypeReleaseIterator addr s si' = Some s"
proof -
  obtain si' where "setTypeNext addr s si = Some (s, si', None)" "setTypeReleaseIterator addr s si' = Some s"
    using setTypeNext_Nil [OF assms] .
  then show ?thesis by (intro that) (simp_all add: setTypeNextObject_def)
qed

lemma ele_sds:
  assumes "env_ok e" "ele_ok e x" "storable e (ele_bytes x)"
  shows "(case x of Ele_Int v \<Rightarrow> sds_from_ll e v | Ele_Sds s \<Rightarrow> sds_copy e s) = Some (ele_bytes x)"
  using assms sds_from_ll_eq sds_copy_eq by (auto simp: ele_ok_def split: set_ele.splits)

lemma setTypeNextObject_Cons:
  assumes "setobj_inv e s" "si_at addr s si (x # xs)" "ele_ok e x" "storable e (ele_bytes x)"
  obtains si' where "setTypeNextObject e addr s si = Some (s, si', Some (ele_bytes x))" "si_at addr s si' xs"
proof -
  obtain si' where n: "setTypeNext addr s si = Some (s, si', Some x)" "si_at addr s si' xs"
    using setTypeNext_Cons [OF assms(1,2)] .
  have "env_ok e" using assms(1) by (simp add: setobj_inv_def)
  then have "setTypeNextObject e addr s si = Some (s, si', Some (ele_bytes x))"
    using n(1) ele_sds [OF _ assms(3,4)] by (cases x) (simp_all add: setTypeNextObject_def)
  then show ?thesis using that n(2) by blast
qed

lemma setobj_room_mono: "setobj_room s n \<Longrightarrow> m \<le> n \<Longrightarrow> setobj_room s m"
  by (auto simp: setobj_room_def intset_room_def split: setobj.splits)

section \<open>Copies, removals and random elements\<close>

lemma dup_loop_spec:
  assumes "setobj_inv e (Set_Ht d)" "si_at addr (Set_Ht d) si xs" "setobj_inv e dup" "setobj_room dup (length xs)"
    "\<forall>x \<in> set xs. storable e (ele_bytes x)" "\<forall>x \<in> set xs. \<exists>s. x = Ele_Sds s"
  shows "\<exists>dup'. dup_loop e addr (Set_Ht d) si dup = Some (Set_Ht d, dup') \<and> setobj_inv e dup' \<and>
    setobj_elems e dup' = setobj_elems e dup \<union> ele_bytes ` set xs"
  using assms(2-)
proof (induction xs arbitrary: si dup)
  case Nil
  obtain si' where "setTypeNext addr (Set_Ht d) si = Some (Set_Ht d, si', None)"
    "setTypeReleaseIterator addr (Set_Ht d) si' = Some (Set_Ht d)"
    using setTypeNext_Nil [OF assms(1) Nil.prems(1)] .
  then show ?case using Nil.prems(2) by (subst dup_loop.simps) simp
next
  case (Cons x xs)
  obtain si' where n: "setTypeNext addr (Set_Ht d) si = Some (Set_Ht d, si', Some x)" "si_at addr (Set_Ht d) si' xs"
    using setTypeNext_Cons [OF assms(1) Cons.prems(1)] .
  obtain v where v: "x = Ele_Sds v" using Cons.prems(5) by auto
  obtain dup1 where a: "setTypeAdd e dup v = Some (dup1, v \<notin> setobj_elems e dup)" "setobj_inv e dup1"
    "setobj_elems e dup1 = insert v (setobj_elems e dup)" "setobj_room dup1 (length xs)"
    using setTypeAdd_spec [OF Cons.prems(2), of v "length xs"] Cons.prems(3,4) v by auto
  obtain dup' where "dup_loop e addr (Set_Ht d) si' dup1 = Some (Set_Ht d, dup')" "setobj_inv e dup'"
    "setobj_elems e dup' = setobj_elems e dup1 \<union> ele_bytes ` set xs"
    using Cons.IH [OF n(2) a(2,4)] Cons.prems(4,5) by auto
  then show ?case using n(1) a(1,3) v by (subst dup_loop.simps) simp
qed

text \<open>A copy has the elements and the encoding of the original, which is as before.\<close>

lemma setTypeDup_spec:
  assumes inv: "setobj_inv e s" and st: "\<forall>x \<in> setobj_elems e s. storable e x" and sz: "setTypeSize s < 2 ^ 60"
  shows "\<exists>s'. setTypeDup e addr s = Some (s, s') \<and> setobj_inv e s' \<and> setobj_elems e s' = setobj_elems e s"
proof (cases s)
  case (Set_Intset iset)
  then show ?thesis using inv by (simp add: setTypeDup_def)
next
  case (Set_Ht d)
  have e: "env_ok e" using inv by (simp add: setobj_inv_def)
  have "dict_core (set_dt e) dictCreate" using dict_inv_create(1) [of "set_dt e"] by (simp add: dict_inv_core del: dict_inv_create)
  then obtain d' ok where d': "dictExpand dictCreate (dictSize d) = Some (d', ok)" "dict_core (set_dt e) d'"
    "dict_bag d' = dict_bag (dictCreate :: (sds, unit) dict)"
    using dictExpand_spec [of "set_dt e" dictCreate "dictSize d"] by blast
  have i': "dict_inv (set_dt e) d'" "dict_map (set_dt e) d' = (\<lambda>k. None)"
    using set_type.dict_inv_same_bag [OF dict_inv_create(1) d'(2,3)] by auto
  then have emp: "setobj_inv e (Set_Ht d')" "setobj_elems e (Set_Ht d') = {}" "setobj_room (Set_Ht d') (dictSize d)"
    using e sz dict_size_card [OF i'(1)] by (simp_all add: setobj_inv_def setobj_elems_def setobj_room_def Set_Ht setTypeSize_def)
  note el = set_eles_elems [OF inv]
  have "\<forall>x \<in> set (set_eles s). storable e (ele_bytes x)" using st el(1) by blast
  moreover have "\<forall>x \<in> set (set_eles s). \<exists>v. x = Ele_Sds v" "setobj_room (Set_Ht d') (length (set_eles s))"
    using el(3) emp(3) by (auto simp: set_eles_def Set_Ht setTypeSize_def)
  ultimately have "\<forall>x \<in> set (set_eles (Set_Ht d)). storable e (ele_bytes x)"
    "\<forall>x \<in> set (set_eles (Set_Ht d)). \<exists>v. x = Ele_Sds v" "setobj_room (Set_Ht d') (length (set_eles (Set_Ht d)))"
    by (simp_all add: Set_Ht)
  then show ?thesis
    using dup_loop_spec [OF inv [unfolded Set_Ht] si_at_init [of addr "Set_Ht d" e] emp(1)] el(1) d'(1) emp(2)
    by (simp add: setTypeDup_def Set_Ht)
qed

text \<open>The count of \<open>SREM\<close> is the number of members among the arguments, and the key goes when they were all.\<close>

lemma srem_loop_spec:
  assumes "setobj_inv e s" "setobj_elems e s \<noteq> {}"
  shows "\<exists>s'. srem_loop e s xs n = Some (s', n + card (setobj_elems e s \<inter> set xs), setobj_elems e s \<subseteq> set xs) \<and>
    setobj_inv e s' \<and> setobj_elems e s' = setobj_elems e s - set xs"
  using assms
proof (induction xs arbitrary: s n)
  case Nil
  then show ?case by simp
next
  case (Cons x xs)
  note fin = setobj_size(2) [OF Cons.prems(1)]
  obtain s1 where s1: "setTypeRemove e s x = Some (s1, x \<in> setobj_elems e s)" "setobj_inv e s1"
    "setobj_elems e s1 = setobj_elems e s - {x}"
    using setTypeRemove_spec [OF Cons.prems(1)] by blast
  show ?case
  proof (cases "x \<in> setobj_elems e s")
    case False
    then have "setobj_elems e s1 = setobj_elems e s" using s1(3) by simp
    moreover from this obtain s' where "srem_loop e s1 xs n = Some (s', n + card (setobj_elems e s1 \<inter> set xs), setobj_elems e s1 \<subseteq> set xs)"
      "setobj_inv e s'" "setobj_elems e s' = setobj_elems e s1 - set xs"
      using Cons.IH [OF s1(2)] Cons.prems(2) by metis
    moreover have "setobj_elems e s \<inter> set (x # xs) = setobj_elems e s \<inter> set xs" "setobj_elems e s - set (x # xs) = setobj_elems e s - set xs"
      "(setobj_elems e s \<subseteq> set (x # xs)) = (setobj_elems e s \<subseteq> set xs)" using False by auto
    ultimately show ?thesis using s1(1) False by simp
  next
    case True
    have c: "card (setobj_elems e s \<inter> set (x # xs)) = Suc (card (setobj_elems e s1 \<inter> set xs))"
    proof -
      have "setobj_elems e s \<inter> set (x # xs) = insert x (setobj_elems e s1 \<inter> set xs)" using True s1(3) by auto
      then show ?thesis using s1(3) fin by simp
    qed
    have d: "setobj_elems e s - set (x # xs) = setobj_elems e s1 - set xs"
      "(setobj_elems e s \<subseteq> set (x # xs)) = (setobj_elems e s1 \<subseteq> set xs)" using s1(3) by auto
    show ?thesis
    proof (cases "setTypeSize s1 = 0")
      case e0: True
      then have "setobj_elems e s1 = {}" using setobj_size [OF s1(2)] by simp
      then show ?thesis using s1 True e0 c d by (auto simp del: set_simps)
    next
      case False
      then have "setobj_elems e s1 \<noteq> {}" using setobj_size [OF s1(2)] by auto
      then show ?thesis using Cons.IH [OF s1(2), of "n + 1"] s1(1) True False c d by (simp del: set_simps)
    qed
  qed
qed

end
