(* ===== verification/T_set_ops.thy ===== *)
theory T_set_ops
  imports T_set_iter "HOL-Library.Signed_Division"
begin

text \<open>
  The set algebra of \<open>t_set.c\<close>: intersection, union and difference of the sets at a list of keys. The set
  objects stand in a heap, because the same key may be given several times: the array \<open>sets\<close> then holds
  the same pointer twice, and looking an element up in a hash table may rehash it under an iterator.
  A pointer is an address, \<open>None\<close> the pointer of a missing key. The key lookups before the algorithms
  and the store of the result after them are not part of the model.
\<close>

type_synonym set_heap = "nat \<rightharpoonup> setobj"

section \<open>The operations\<close>

definition heap_size :: "set_heap \<Rightarrow> nat \<Rightarrow> nat" where
  "heap_size h a = (case h a of None \<Rightarrow> 0 | Some s \<Rightarrow> setTypeSize s)"

definition qsortCompareSetsByCardinality :: "set_heap \<Rightarrow> nat \<Rightarrow> nat \<Rightarrow> int" where
  "qsortCompareSetsByCardinality h s1 s2 =
     (if heap_size h s1 > heap_size h s2 then 1
      else if heap_size h s1 < heap_size h s2 then - 1
      else 0)"

definition qsortCompareSetsByRevCardinality :: "set_heap \<Rightarrow> nat option \<Rightarrow> nat option \<Rightarrow> int" where
  "qsortCompareSetsByRevCardinality h o1 o2 =
     (let first = (case o1 of None \<Rightarrow> 0 | Some a \<Rightarrow> heap_size h a);
          second = (case o2 of None \<Rightarrow> 0 | Some a \<Rightarrow> heap_size h a)
      in if first < second then 1 else if first > second then - 1 else 0)"

text \<open>\<open>qsort\<close> of the C library, with equal elements in the order they had.\<close>

fun qsort_insert :: "('a \<Rightarrow> 'a \<Rightarrow> int) \<Rightarrow> 'a \<Rightarrow> 'a list \<Rightarrow> 'a list" where
  "qsort_insert cmp x [] = [x]"
| "qsort_insert cmp x (y # ys) = (if cmp x y \<le> 0 then x # y # ys else y # qsort_insert cmp x ys)"

definition qsort :: "('a \<Rightarrow> 'a \<Rightarrow> int) \<Rightarrow> 'a list \<Rightarrow> 'a list" where
  "qsort cmp xs = foldr (qsort_insert cmp) xs []"

text \<open>The test of an element against one more set, and against all of them: equal pointers are skipped.\<close>

definition inter_test :: "set_env \<Rightarrow> setobj \<Rightarrow> set_ele \<Rightarrow> (setobj \<times> bool) option" where
  "inter_test e s ele = (case ele of
     Ele_Int v \<Rightarrow>
       (case s of
          Set_Intset iset \<Rightarrow> do { f \<leftarrow> intsetFind iset v; Some (s, f) }
        | Set_Ht _ \<Rightarrow> do { x \<leftarrow> sds_from_ll e v; setTypeIsMember e s x })
   | Ele_Sds x \<Rightarrow> setTypeIsMember e s x)"

fun inter_check :: "set_env \<Rightarrow> set_heap \<Rightarrow> nat \<Rightarrow> nat list \<Rightarrow> set_ele \<Rightarrow> (set_heap \<times> bool) option" where
  "inter_check e h a0 [] ele = Some (h, True)"
| "inter_check e h a0 (a # as) ele =
     (if a = a0 then inter_check e h a0 as ele
      else do {
        s \<leftarrow> h a;
        (s, f) \<leftarrow> inter_test e s ele;
        if f then inter_check e (h(a \<mapsto> s)) a0 as ele else Some (h(a \<mapsto> s), False) })"

text \<open>\<open>dstset\<close> is the set to store the result in, \<open>None\<close> when the elements are sent as replies.\<close>

partial_function (option) inter_loop ::
  "set_env \<Rightarrow> nat \<Rightarrow> nat list \<Rightarrow> set_heap \<Rightarrow> setTypeIterator \<Rightarrow> set_ele list \<Rightarrow> setobj option
    \<Rightarrow> (set_heap \<times> set_ele list \<times> setobj option) option" where
  [code]: "inter_loop e a0 others h si replies dstset = do {
     s \<leftarrow> h a0;
     (s, si, ele) \<leftarrow> setTypeNext (sv_addr e a0) s si;
     (case ele of
        None \<Rightarrow> do {
          s \<leftarrow> setTypeReleaseIterator (sv_addr e a0) s si;
          Some (h(a0 \<mapsto> s), replies, dstset) }
      | Some ele \<Rightarrow> do {
          (h, all) \<leftarrow> inter_check e (h(a0 \<mapsto> s)) a0 others ele;
          if \<not> all then inter_loop e a0 others h si replies dstset
          else (case dstset of
             None \<Rightarrow> inter_loop e a0 others h si (replies @ [ele]) None
           | Some dst \<Rightarrow> do {
               x \<leftarrow> (case ele of Ele_Int v \<Rightarrow> sds_from_ll e v | Ele_Sds x \<Rightarrow> Some x);
               (dst, _) \<leftarrow> setTypeAdd e dst x;
               inter_loop e a0 others h si replies (Some dst) }) }) }"

definition sinter_sets ::
  "set_env \<Rightarrow> bool \<Rightarrow> set_heap \<Rightarrow> nat option list \<Rightarrow> (set_heap \<times> set_ele list \<times> setobj option) option" where
  "sinter_sets e store h sets =
     (if None \<in> set sets then Some (h, [], None)
      else (case qsort (qsortCompareSetsByCardinality h) (map the sets) of
         [] \<Rightarrow> None
       | a0 # others \<Rightarrow> do {
           s \<leftarrow> h a0;
           inter_loop e a0 others h (setTypeInitIterator e s) [] (if store then Some createIntsetObject else None) }))"

datatype set_op = SET_OP_UNION | SET_OP_DIFF

text \<open>The work the two algorithms for the difference are expected to do, in \<open>long long\<close> variables.\<close>

definition diff_work :: "set_heap \<Rightarrow> nat \<Rightarrow> nat option list \<Rightarrow> u64 \<times> u64" where
  "diff_work h a0 sets =
     foldl (\<lambda>(one, two) s. case s of
         None \<Rightarrow> (one, two)
       | Some a \<Rightarrow> (one + of_nat (heap_size h a0), two + of_nat (heap_size h a))) (0, 0) sets"

definition diff_algo :: "set_heap \<Rightarrow> nat \<Rightarrow> nat option list \<Rightarrow> nat" where
  "diff_algo h a0 sets = (case diff_work h a0 sets of (one, two) \<Rightarrow>
     if sint one sdiv 2 \<le> sint two then 1 else 2)"

text \<open>
  The loop over one set that adds its elements to the result or removes them from it (\<open>f\<close>), counting the
  elements of the result by \<open>delta\<close>.
\<close>

partial_function (option) combine_loop ::
  "set_env \<Rightarrow> (setobj \<Rightarrow> sds \<Rightarrow> (setobj \<times> bool) option) \<Rightarrow> int \<Rightarrow> nat \<Rightarrow> set_heap \<Rightarrow> setTypeIterator \<Rightarrow> setobj \<Rightarrow> int
    \<Rightarrow> (set_heap \<times> setobj \<times> int) option" where
  [code]: "combine_loop e f delta a h si dst cardinality = do {
     s \<leftarrow> h a;
     (s, si, ele) \<leftarrow> setTypeNextObject e (sv_addr e a) s si;
     (case ele of
        None \<Rightarrow> do {
          s \<leftarrow> setTypeReleaseIterator (sv_addr e a) s si;
          Some (h(a \<mapsto> s), dst, cardinality) }
      | Some x \<Rightarrow> do {
          (dst, b) \<leftarrow> f dst x;
          combine_loop e f delta a (h(a \<mapsto> s)) si dst (if b then cardinality + delta else cardinality) }) }"

fun union_sets ::
  "set_env \<Rightarrow> set_heap \<Rightarrow> nat option list \<Rightarrow> setobj \<Rightarrow> int \<Rightarrow> (set_heap \<times> setobj \<times> int) option" where
  "union_sets e h [] dst cardinality = Some (h, dst, cardinality)"
| "union_sets e h (None # sets) dst cardinality = union_sets e h sets dst cardinality"
| "union_sets e h (Some a # sets) dst cardinality = do {
     s \<leftarrow> h a;
     (h, dst, cardinality) \<leftarrow> combine_loop e (setTypeAdd e) 1 a h (setTypeInitIterator e s) dst cardinality;
     union_sets e h sets dst cardinality }"

text \<open>Algorithm 1 of the difference: an equal pointer ends the test of an element at once.\<close>

fun diff_check :: "set_env \<Rightarrow> set_heap \<Rightarrow> nat \<Rightarrow> nat option list \<Rightarrow> sds \<Rightarrow> (set_heap \<times> bool) option" where
  "diff_check e h a0 [] ele = Some (h, True)"
| "diff_check e h a0 (None # sets) ele = diff_check e h a0 sets ele"
| "diff_check e h a0 (Some a # sets) ele =
     (if a = a0 then Some (h, False)
      else do {
        s \<leftarrow> h a;
        (s, f) \<leftarrow> setTypeIsMember e s ele;
        if f then Some (h(a \<mapsto> s), False) else diff_check e (h(a \<mapsto> s)) a0 sets ele })"

partial_function (option) diff1_loop ::
  "set_env \<Rightarrow> nat \<Rightarrow> nat option list \<Rightarrow> set_heap \<Rightarrow> setTypeIterator \<Rightarrow> setobj \<Rightarrow> int
    \<Rightarrow> (set_heap \<times> setobj \<times> int) option" where
  [code]: "diff1_loop e a0 others h si dst cardinality = do {
     s \<leftarrow> h a0;
     (s, si, ele) \<leftarrow> setTypeNextObject e (sv_addr e a0) s si;
     (case ele of
        None \<Rightarrow> do {
          s \<leftarrow> setTypeReleaseIterator (sv_addr e a0) s si;
          Some (h(a0 \<mapsto> s), dst, cardinality) }
      | Some x \<Rightarrow> do {
          (h, none) \<leftarrow> diff_check e (h(a0 \<mapsto> s)) a0 others x;
          if none then do {
            (dst, _) \<leftarrow> setTypeAdd e dst x;
            diff1_loop e a0 others h si dst (cardinality + 1) }
          else diff1_loop e a0 others h si dst cardinality }) }"

text \<open>Algorithm 2: the elements of the first set are added, those of the others removed.\<close>

fun diff2_sets ::
  "set_env \<Rightarrow> bool \<Rightarrow> set_heap \<Rightarrow> nat option list \<Rightarrow> setobj \<Rightarrow> int \<Rightarrow> (set_heap \<times> setobj \<times> int) option" where
  "diff2_sets e first h [] dst cardinality = Some (h, dst, cardinality)"
| "diff2_sets e first h (None # sets) dst cardinality = diff2_sets e False h sets dst cardinality"
| "diff2_sets e first h (Some a # sets) dst cardinality = do {
     s \<leftarrow> h a;
     (h, dst, cardinality) \<leftarrow>
       (if first then combine_loop e (setTypeAdd e) 1 a h (setTypeInitIterator e s) dst cardinality
        else combine_loop e (setTypeRemove e) (- 1) a h (setTypeInitIterator e s) dst cardinality);
     if cardinality = 0 then Some (h, dst, cardinality) else diff2_sets e False h sets dst cardinality }"

definition sunionDiff_sets ::
  "set_env \<Rightarrow> set_op \<Rightarrow> set_heap \<Rightarrow> nat option list \<Rightarrow> (set_heap \<times> setobj \<times> int) option" where
  "sunionDiff_sets e op h sets = (case op of
     SET_OP_UNION \<Rightarrow> union_sets e h sets createIntsetObject 0
   | SET_OP_DIFF \<Rightarrow>
       (case sets of
          [] \<Rightarrow> None
        | None # _ \<Rightarrow> Some (h, createIntsetObject, 0)
        | Some a0 # others \<Rightarrow>
            (if diff_algo h a0 sets = 1 then do {
               s \<leftarrow> h a0;
               diff1_loop e a0 (if length sets > 1 then qsort (qsortCompareSetsByRevCardinality h) others else others)
                 h (setTypeInitIterator e s) createIntsetObject 0 }
             else diff2_sets e True h sets createIntsetObject 0)))"

text \<open>The replies with the elements of the result.\<close>

partial_function (option) reply_loop ::
  "set_env \<Rightarrow> u64 \<times> u64 \<Rightarrow> setobj \<Rightarrow> setTypeIterator \<Rightarrow> sds list \<Rightarrow> (setobj \<times> sds list) option" where
  [code]: "reply_loop e addr dst si replies = do {
     (dst, si, ele) \<leftarrow> setTypeNextObject e addr dst si;
     (case ele of
        None \<Rightarrow> do { dst \<leftarrow> setTypeReleaseIterator addr dst si; Some (dst, replies) }
      | Some x \<Rightarrow> reply_loop e addr dst si (replies @ [x])) }"

section \<open>Heaps of set objects\<close>

definition elems_at :: "set_env \<Rightarrow> set_heap \<Rightarrow> nat option \<Rightarrow> sds set" where
  "elems_at e h p = (case p of None \<Rightarrow> {} | Some a \<Rightarrow> (case h a of None \<Rightarrow> {} | Some s \<Rightarrow> setobj_elems e s))"

text \<open>The pointer is null or that of a well-formed set object.\<close>

definition ptr_ok :: "set_env \<Rightarrow> set_heap \<Rightarrow> nat option \<Rightarrow> bool" where
  "ptr_ok e h p \<longleftrightarrow> (case p of None \<Rightarrow> True | Some a \<Rightarrow> (case h a of None \<Rightarrow> False | Some s \<Rightarrow> setobj_inv e s))"

text \<open>Every set object of the first heap is in the second with the same elements: rehashing is all that happened.\<close>

definition heap_sim :: "set_env \<Rightarrow> set_heap \<Rightarrow> set_heap \<Rightarrow> bool" where
  "heap_sim e h h' \<longleftrightarrow> (\<forall>a s. h a = Some s \<longrightarrow> setobj_inv e s \<longrightarrow>
     (\<exists>s'. h' a = Some s' \<and> setobj_inv e s' \<and> setobj_elems e s' = setobj_elems e s))"

lemma heap_sim_refl [simp, intro]: "heap_sim e h h"
  by (simp add: heap_sim_def)

lemma heap_sim_trans [trans]: "heap_sim e h h' \<Longrightarrow> heap_sim e h' h'' \<Longrightarrow> heap_sim e h h''"
  unfolding heap_sim_def by metis

lemma heap_sim_upd:
  "h a = Some s \<Longrightarrow> setobj_inv e s' \<Longrightarrow> setobj_elems e s' = setobj_elems e s \<Longrightarrow> heap_sim e h (h(a \<mapsto> s'))"
  by (auto simp: heap_sim_def)

lemma ptr_ok_Some: "ptr_ok e h (Some a) \<longleftrightarrow> (\<exists>s. h a = Some s \<and> setobj_inv e s)"
  by (simp add: ptr_ok_def split: option.splits)

lemma ptr_ok_None [simp]: "ptr_ok e h None"
  by (simp add: ptr_ok_def)

lemma elems_at_simps [simp]: "elems_at e h None = {}" "h a = Some s \<Longrightarrow> elems_at e h (Some a) = setobj_elems e s"
  by (simp_all add: elems_at_def)

lemma heap_sim_ptr:
  assumes "heap_sim e h h'" "ptr_ok e h p"
  shows "ptr_ok e h' p" "elems_at e h' p = elems_at e h p"
proof -
  have "ptr_ok e h' p \<and> elems_at e h' p = elems_at e h p"
  proof (cases p)
    case (Some a)
    obtain s where "h a = Some s" "setobj_inv e s" using assms(2) by (auto simp: Some ptr_ok_Some)
    moreover from this obtain s' where "h' a = Some s'" "setobj_inv e s'" "setobj_elems e s' = setobj_elems e s"
      using assms(1) unfolding heap_sim_def by blast
    ultimately show ?thesis by (simp add: Some ptr_ok_Some)
  qed simp
  then show "ptr_ok e h' p" "elems_at e h' p = elems_at e h p" by auto
qed

lemma heap_sim_all:
  assumes "heap_sim e h h'" "\<forall>p \<in> A. ptr_ok e h p"
  shows "\<forall>p \<in> A. ptr_ok e h' p" "\<forall>p \<in> A. elems_at e h' p = elems_at e h p"
  using heap_sim_ptr [OF assms(1)] assms(2) by auto

lemma mset_qsort_insert [simp]: "mset (qsort_insert cmp x ys) = add_mset x (mset ys)"
  by (induction ys) auto

lemma mset_qsort: "mset (qsort cmp xs) = mset xs"
  by (induction xs) (simp_all add: qsort_def)

lemma set_qsort [simp]: "set (qsort cmp xs) = set xs"
  by (metis mset_qsort set_mset_mset)

lemma length_qsort [simp]: "length (qsort cmp xs) = length xs"
  by (metis mset_qsort size_mset)

section \<open>Intersection\<close>

lemma inter_test_spec:
  assumes inv: "setobj_inv e s" and ok: "ele_ok e x"
  shows "\<exists>s'. inter_test e s x = Some (s', ele_bytes x \<in> setobj_elems e s) \<and> setobj_inv e s' \<and>
    setobj_elems e s' = setobj_elems e s"
proof (cases x)
  case (Ele_Sds b)
  then show ?thesis using setTypeIsMember_spec [OF inv, of b] by (simp add: inter_test_def)
next
  case (Ele_Int v)
  have v: "int64 v" "env_ok e" using ok inv by (simp_all add: ele_ok_def Ele_Int setobj_inv_def)
  show ?thesis
  proof (cases s)
    case (Set_Ht d)
    then show ?thesis using setTypeIsMember_spec [OF inv, of "print_int v"] sds_from_ll_eq [OF v(2,1)]
      by (simp add: inter_test_def Ele_Int)
  next
    case (Set_Intset iset)
    have i: "intset_inv iset" using inv by (simp add: setobj_inv_def Set_Intset)
    have "isSdsRepresentableAsLongLong (print_int v) = Some v" using v(1) by (simp add: repr_iff)
    then have "print_int v \<in> print_int ` intset_set iset \<longleftrightarrow> v \<in> intset_set iset" by (rule repr_mem [OF i])
    then show ?thesis using intsetFind_ok [OF i v(1)] inv
      by (simp add: inter_test_def Ele_Int Set_Intset setobj_elems_def)
  qed
qed

lemma inter_check_spec:
  assumes "\<forall>a \<in> set others. ptr_ok e h (Some a)" "ele_ok e x"
  shows "\<exists>h'. inter_check e h a0 others x = Some (h', \<forall>a \<in> set others - {a0}. ele_bytes x \<in> elems_at e h (Some a)) \<and>
    heap_sim e h h' \<and> h' a0 = h a0"
  using assms(1)
proof (induction others arbitrary: h)
  case Nil
  then show ?case by simp
next
  case (Cons a as)
  show ?case
  proof (cases "a = a0")
    case True
    then have "set (a # as) - {a0} = set as - {a0}" by auto
    then show ?thesis using Cons.IH [of h] Cons.prems True by simp
  next
    case False
    obtain s where s: "h a = Some s" "setobj_inv e s" using Cons.prems by (auto simp: ptr_ok_Some)
    obtain s' where t: "inter_test e s x = Some (s', ele_bytes x \<in> setobj_elems e s)" "setobj_inv e s'"
      "setobj_elems e s' = setobj_elems e s" using inter_test_spec [OF s(2) assms(2)] by blast
    define h1 where "h1 = h(a \<mapsto> s')"
    have sim: "heap_sim e h h1" unfolding h1_def using heap_sim_upd [of h a s] s(1) t(2,3) by blast
    have h1a: "h1 a0 = h a0" using False by (simp add: h1_def)
    have "\<forall>p \<in> Some ` set as. ptr_ok e h p" using Cons.prems by auto
    note sim' = heap_sim_all [OF sim this]
    have "\<forall>a \<in> set as. ptr_ok e h1 (Some a)" using sim'(1) by auto
    then obtain h' where h': "inter_check e h1 a0 as x = Some (h', \<forall>a \<in> set as - {a0}. ele_bytes x \<in> elems_at e h1 (Some a))"
      "heap_sim e h1 h'" "h' a0 = h1 a0" using Cons.IH [of h1] by blast
    have "(\<forall>a \<in> set as - {a0}. ele_bytes x \<in> elems_at e h1 (Some a)) = (\<forall>a \<in> set as - {a0}. ele_bytes x \<in> elems_at e h (Some a))"
      using sim'(2) by auto
    moreover have "set (a # as) - {a0} = insert a (set as - {a0})" using False by auto
    ultimately show ?thesis using s t h' h1a False sim heap_sim_trans [OF sim h'(2)]
      by (cases "ele_bytes x \<in> setobj_elems e s") (simp_all add: h1_def [symmetric] del: fun_upd_apply)
  qed
qed

text \<open>The elements the loop keeps, and what it has of the result.\<close>

definition in_all :: "set_env \<Rightarrow> set_heap \<Rightarrow> nat \<Rightarrow> nat list \<Rightarrow> set_ele \<Rightarrow> bool" where
  "in_all e h a0 others x \<longleftrightarrow> (\<forall>a \<in> set others - {a0}. ele_bytes x \<in> elems_at e h (Some a))"

definition dst_ok :: "set_env \<Rightarrow> setobj option \<Rightarrow> nat \<Rightarrow> bool" where
  "dst_ok e dst n \<longleftrightarrow> (case dst of None \<Rightarrow> True | Some d \<Rightarrow> setobj_inv e d \<and> setobj_room d n)"

definition dst_elems :: "set_env \<Rightarrow> setobj option \<Rightarrow> sds set" where
  "dst_elems e dst = (case dst of None \<Rightarrow> {} | Some d \<Rightarrow> setobj_elems e d)"

lemma in_all_sim:
  assumes "heap_sim e h h'" "\<forall>a \<in> set others. ptr_ok e h (Some a)"
  shows "\<forall>a \<in> set others. ptr_ok e h' (Some a)" "in_all e h' a0 others = in_all e h a0 others"
  using heap_sim_ptr [OF assms(1)] assms(2) by (auto simp: fun_eq_iff in_all_def)

lemma inter_loop_spec:
  assumes "h a0 = Some s" "setobj_inv e s" "si_at (sv_addr e a0) s si xs" "\<forall>a \<in> set others. ptr_ok e h (Some a)"
    "\<forall>x \<in> set xs. ele_ok e x \<and> storable e (ele_bytes x)" "dst_ok e dst (length xs)"
  shows "\<exists>h' dst'. inter_loop e a0 others h si replies dst =
      Some (h', replies @ (if dst = None then filter (in_all e h a0 others) xs else []), dst') \<and>
    heap_sim e h h' \<and> (dst' = None) = (dst = None) \<and> dst_ok e dst' 0 \<and>
    dst_elems e dst' = dst_elems e dst \<union> (if dst = None then {} else ele_bytes ` {x \<in> set xs. in_all e h a0 others x})"
  using assms
proof (induction xs arbitrary: h si replies dst)
  case Nil
  obtain si' where n: "setTypeNext (sv_addr e a0) s si = Some (s, si', None)"
    "setTypeReleaseIterator (sv_addr e a0) s si' = Some s" using setTypeNext_Nil [OF Nil.prems(2,3)] .
  have "h(a0 \<mapsto> s) = h" using Nil.prems(1) by (simp add: map_upd_triv)
  then show ?case using n Nil.prems(1,6) by (subst inter_loop.simps) simp
next
  case (Cons x xs)
  let ?P = "in_all e h a0 others"
  obtain si' where n: "setTypeNext (sv_addr e a0) s si = Some (s, si', Some x)" "si_at (sv_addr e a0) s si' xs"
    using setTypeNext_Cons [OF Cons.prems(2,3)] .
  have hh: "h(a0 \<mapsto> s) = h" using Cons.prems(1) by (simp add: map_upd_triv)
  have x: "ele_ok e x" "storable e (ele_bytes x)" and xs: "\<forall>x \<in> set xs. ele_ok e x \<and> storable e (ele_bytes x)"
    using Cons.prems(5) by auto
  obtain h1 where h1: "inter_check e h a0 others x = Some (h1, ?P x)" "heap_sim e h h1" "h1 a0 = h a0"
    using inter_check_spec [OF Cons.prems(4) x(1), folded in_all_def] by blast
  have h1a: "h1 a0 = Some s" using h1(3) Cons.prems(1) by simp
  note s1 = in_all_sim [OF h1(2) Cons.prems(4)]
  note IH = Cons.IH [OF h1a Cons.prems(2) n(2) s1(1) xs]
  note IH' = IH [unfolded s1(2)]
  have step: "inter_loop e a0 others h si replies dst =
      (if \<not> ?P x then inter_loop e a0 others h1 si' replies dst
       else (case dst of
          None \<Rightarrow> inter_loop e a0 others h1 si' (replies @ [x]) None
        | Some dst \<Rightarrow> do {
            (dst, _) \<leftarrow> setTypeAdd e dst (ele_bytes x);
            inter_loop e a0 others h1 si' replies (Some dst) }))"
    using n(1) Cons.prems(1) hh h1(1) x(1) Cons.prems(2) sds_from_ll_eq
    by (subst inter_loop.simps) (auto simp: ele_ok_def setobj_inv_def split: set_ele.splits option.splits)
  have ok: "dst_ok e dst (length xs)" using Cons.prems(6) setobj_room_mono
    by (fastforce simp: dst_ok_def split: option.splits)
  have tr: "heap_sim e h1 h' \<Longrightarrow> heap_sim e h h'" for h' using heap_sim_trans [OF h1(2)] .
  consider (skip) "\<not> ?P x" | (reply) "?P x" "dst = None" | (store) d where "?P x" "dst = Some d" by (cases dst) auto
  then show ?case
  proof cases
    case skip
    then have f: "{y \<in> set (x # xs). ?P y} = {y \<in> set xs. ?P y}" "filter ?P (x # xs) = filter ?P xs" by auto
    have eq: "inter_loop e a0 others h si replies dst = inter_loop e a0 others h1 si' replies dst"
      unfolding step by (simp only: skip simp_thms if_True)
    obtain h' dst' where "inter_loop e a0 others h1 si' replies dst =
        Some (h', replies @ (if dst = None then filter ?P xs else []), dst')" "heap_sim e h1 h'" "(dst' = None) = (dst = None)"
      "dst_ok e dst' 0" "dst_elems e dst' = dst_elems e dst \<union> (if dst = None then {} else ele_bytes ` {x \<in> set xs. ?P x})"
      using IH' [OF ok, of replies] by (elim exE conjE)
    then show ?thesis unfolding f eq using tr by (intro exI conjI)
  next
    case reply
    then have f: "filter ?P (x # xs) = x # filter ?P xs" by simp
    have eq: "inter_loop e a0 others h si replies dst = inter_loop e a0 others h1 si' (replies @ [x]) dst"
      unfolding step by (simp only: reply simp_thms if_False option.case)
    obtain h' dst' where "inter_loop e a0 others h1 si' (replies @ [x]) dst =
        Some (h', (replies @ [x]) @ (if dst = None then filter ?P xs else []), dst')" "heap_sim e h1 h'" "(dst' = None) = (dst = None)"
      "dst_ok e dst' 0" "dst_elems e dst' = dst_elems e dst \<union> (if dst = None then {} else ele_bytes ` {x \<in> set xs. ?P x})"
      using IH' [OF ok, of "replies @ [x]"] by (elim exE conjE)
    then show ?thesis unfolding f eq using tr reply(2) by (intro exI conjI) simp_all
  next
    case (store d)
    obtain d1 where d1: "setTypeAdd e d (ele_bytes x) = Some (d1, ele_bytes x \<notin> setobj_elems e d)" "setobj_inv e d1"
      "setobj_elems e d1 = insert (ele_bytes x) (setobj_elems e d)" "setobj_room d1 (length xs)"
      using setTypeAdd_spec [of e d "ele_bytes x" "length xs"] Cons.prems(6) x(2) store(2) by (auto simp: dst_ok_def)
    have ok1: "dst_ok e (Some d1) (length xs)" using d1 by (simp add: dst_ok_def)
    have f: "{y \<in> set (x # xs). ?P y} = insert x {y \<in> set xs. ?P y}" using store(1) by auto
    have e: "dst_elems e (Some d1) \<union> ele_bytes ` {y \<in> set xs. ?P y} = dst_elems e dst \<union> ele_bytes ` {y \<in> set (x # xs). ?P y}"
      unfolding f using d1(3) store(2) by (simp add: dst_elems_def)
    have eq: "inter_loop e a0 others h si replies dst = inter_loop e a0 others h1 si' replies (Some d1)"
      unfolding step by (simp only: store simp_thms if_False option.case d1(1) bind.bind_lunit prod.case)
    obtain h' dst' where "inter_loop e a0 others h1 si' replies (Some d1) =
        Some (h', replies @ (if Some d1 = None then filter ?P xs else []), dst')" "heap_sim e h1 h'" "(dst' = None) = (Some d1 = None)"
      "dst_ok e dst' 0" "dst_elems e dst' = dst_elems e (Some d1) \<union> (if Some d1 = None then {} else ele_bytes ` {x \<in> set xs. ?P x})"
      using IH' [OF ok1, of replies] by (elim exE conjE)
    then show ?thesis unfolding eq using tr store(2) e by (intro exI conjI) simp_all
  qed
qed

lemma set_objects:
  assumes "ptr_ok e h (Some a)" "\<forall>x \<in> elems_at e h (Some a). storable e x"
  obtains s where "h a = Some s" "setobj_inv e s" "elems_at e h (Some a) = setobj_elems e s"
    "\<forall>x \<in> set (set_eles s). ele_ok e x \<and> storable e (ele_bytes x)"
proof -
  obtain s where s: "h a = Some s" "setobj_inv e s" using assms(1) by (auto simp: ptr_ok_Some)
  then have "\<forall>x \<in> set (set_eles s). ele_ok e x \<and> storable e (ele_bytes x)"
    using set_eles_elems [OF s(2)] assms(2) by auto
  then show ?thesis using that s by simp
qed

lemma new_dst:
  assumes "env_ok e" "n < 2 ^ 29"
  shows "setobj_inv e createIntsetObject" "setobj_elems e createIntsetObject = {}" "setobj_room createIntsetObject n"
  using setTypeCreate_spec(3,4) [OF assms(1)] assms(2)
  by (simp_all add: createIntsetObject_def setobj_room_def intset_room_def intsetNew_def)

lemma in_all_image:
  assumes "setobj_elems e s = elems_at e h (Some a0)" "setobj_inv e s"
  shows "ele_bytes ` {x \<in> set (set_eles s). in_all e h a0 others x} = (\<Inter>a \<in> insert a0 (set others). elems_at e h (Some a))"
  using assms(1) set_eles_elems(1) [OF assms(2)] unfolding in_all_def by blast

lemma sinter_sets_spec:
  assumes sets: "sets = map Some ids" "ids \<noteq> []" and ok: "\<forall>p \<in> set sets. ptr_ok e h p"
    and st: "\<forall>p \<in> set sets. \<forall>x \<in> elems_at e h p. storable e x" and sz: "\<forall>p \<in> set sets. card (elems_at e h p) < 2 ^ 29"
  shows "\<exists>h' replies dst. sinter_sets e store h sets = Some (h', replies, dst) \<and> heap_sim e h h' \<and>
    (if store then replies = [] \<and> dst_ok e dst 0 \<and> dst_elems e dst = (\<Inter>p \<in> set sets. elems_at e h p)
     else dst = None \<and> distinct (map ele_bytes replies) \<and> ele_bytes ` set replies = (\<Inter>p \<in> set sets. elems_at e h p))"
proof -
  have "map the sets = ids" using sets(1) by simp
  then obtain a0 others where q: "qsort (qsortCompareSetsByCardinality h) (map the sets) = a0 # others"
    using sets(2) length_qsort [of "qsortCompareSetsByCardinality h" ids] by (metis length_0_conv neq_Nil_conv)
  then have "set ids = insert a0 (set others)" using set_qsort [of "qsortCompareSetsByCardinality h" ids] \<open>map the sets = ids\<close> by simp
  then have S: "set sets = Some ` insert a0 (set others)" using sets(1) by simp
  obtain s where s: "h a0 = Some s" "setobj_inv e s" "elems_at e h (Some a0) = setobj_elems e s"
    "\<forall>x \<in> set (set_eles s). ele_ok e x \<and> storable e (ele_bytes x)"
    using set_objects [of e h a0] ok st S by auto
  define dst where "dst = (if store then Some createIntsetObject else None)"
  have len: "length (set_eles s) < 2 ^ 29" using sz S s(3) setobj_size(1) [OF s(2)] set_eles_elems(3) [OF s(2)] by simp
  have e: "env_ok e" using s(2) by (simp add: setobj_inv_def)
  have d: "dst_ok e dst (length (set_eles s))" "dst_elems e dst = {}"
    using new_dst [OF e len] by (auto simp: dst_def dst_ok_def dst_elems_def)
  have oth: "\<forall>a \<in> set others. ptr_ok e h (Some a)" using ok S by auto
  obtain h' dst' where r: "inter_loop e a0 others h (setTypeInitIterator e s) [] dst =
      Some (h', [] @ (if dst = None then filter (in_all e h a0 others) (set_eles s) else []), dst')"
    "heap_sim e h h'" "(dst' = None) = (dst = None)" "dst_ok e dst' 0"
    "dst_elems e dst' = dst_elems e dst \<union> (if dst = None then {} else ele_bytes ` {x \<in> set (set_eles s). in_all e h a0 others x})"
    using inter_loop_spec [OF s(1,2) si_at_init oth s(4) d(1), of e "[]"] by (elim exE conjE)
  have I: "ele_bytes ` {x \<in> set (set_eles s). in_all e h a0 others x} = (\<Inter>p \<in> set sets. elems_at e h p)"
    unfolding in_all_image [OF s(3) [symmetric] s(2)] S image_image ..
  have eq: "sinter_sets e store h sets = inter_loop e a0 others h (setTypeInitIterator e s) [] dst"
    using q s(1) S by (auto simp: sinter_sets_def dst_def)
  have "distinct (map ele_bytes (filter (in_all e h a0 others) (set_eles s)))"
    by (intro distinct_map_filter set_eles_elems(2) [OF s(2)])
  then show ?thesis unfolding eq r(1) using r(2-5) I d(2) by (auto simp: dst_def)
qed

section \<open>Union and difference\<close>

lemma combine_add:
  assumes "h a = Some s" "setobj_inv e s" "si_at (sv_addr e a) s si xs" "\<forall>x \<in> set xs. ele_ok e x \<and> storable e (ele_bytes x)"
    "setobj_inv e dst" "setobj_room dst (length xs + n)" "c = int (card (setobj_elems e dst))"
  shows "\<exists>dst'. combine_loop e (setTypeAdd e) 1 a h si dst c = Some (h, dst', int (card (setobj_elems e dst'))) \<and>
    setobj_inv e dst' \<and> setobj_elems e dst' = setobj_elems e dst \<union> ele_bytes ` set xs \<and> setobj_room dst' n"
  using assms(3-)
proof (induction xs arbitrary: si dst c)
  case Nil
  obtain si' where n: "setTypeNextObject e (sv_addr e a) s si = Some (s, si', None)"
    "setTypeReleaseIterator (sv_addr e a) s si' = Some s" using setTypeNextObject_Nil [OF assms(2) Nil.prems(1)] .
  have "h(a \<mapsto> s) = h" using assms(1) by (simp add: map_upd_triv)
  then show ?case using n assms(1) Nil.prems by (subst combine_loop.simps) simp
next
  case (Cons x xs)
  have hh: "h(a \<mapsto> s) = h" using assms(1) by (simp add: map_upd_triv)
  have x: "ele_ok e x" "storable e (ele_bytes x)" and xs: "\<forall>x \<in> set xs. ele_ok e x \<and> storable e (ele_bytes x)"
    using Cons.prems(2) by auto
  obtain si' where n: "setTypeNextObject e (sv_addr e a) s si = Some (s, si', Some (ele_bytes x))" "si_at (sv_addr e a) s si' xs"
    using setTypeNextObject_Cons [OF assms(2) Cons.prems(1) x] .
  obtain d1 where d1: "setTypeAdd e dst (ele_bytes x) = Some (d1, ele_bytes x \<notin> setobj_elems e dst)" "setobj_inv e d1"
    "setobj_elems e d1 = insert (ele_bytes x) (setobj_elems e dst)" "setobj_room d1 (length xs + n)"
    using setTypeAdd_spec [OF Cons.prems(3) x(2), of "length xs + n"] Cons.prems(4) by auto
  let ?c = "if ele_bytes x \<notin> setobj_elems e dst then c + 1 else c"
  have c: "?c = int (card (setobj_elems e d1))"
    using d1(3) Cons.prems(5) setobj_size(2) [OF Cons.prems(3)] by (simp add: insert_absorb)
  have "combine_loop e (setTypeAdd e) 1 a h si dst c = combine_loop e (setTypeAdd e) 1 a h si' d1 ?c"
    using n(1) d1(1) hh assms(1) by (subst combine_loop.simps) simp
  then show ?case using Cons.IH [OF n(2) xs d1(2,4) c] d1(3) by simp
qed

lemma combine_remove:
  assumes "h a = Some s" "setobj_inv e s" "si_at (sv_addr e a) s si xs" "\<forall>x \<in> set xs. ele_ok e x \<and> storable e (ele_bytes x)"
    "setobj_inv e dst" "c = int (card (setobj_elems e dst))"
  shows "\<exists>dst'. combine_loop e (setTypeRemove e) (- 1) a h si dst c = Some (h, dst', int (card (setobj_elems e dst'))) \<and>
    setobj_inv e dst' \<and> setobj_elems e dst' = setobj_elems e dst - ele_bytes ` set xs"
  using assms(3-)
proof (induction xs arbitrary: si dst c)
  case Nil
  obtain si' where n: "setTypeNextObject e (sv_addr e a) s si = Some (s, si', None)"
    "setTypeReleaseIterator (sv_addr e a) s si' = Some s" using setTypeNextObject_Nil [OF assms(2) Nil.prems(1)] .
  have "h(a \<mapsto> s) = h" using assms(1) by (simp add: map_upd_triv)
  then show ?case using n assms(1) Nil.prems by (subst combine_loop.simps) simp
next
  case (Cons x xs)
  have hh: "h(a \<mapsto> s) = h" using assms(1) by (simp add: map_upd_triv)
  have x: "ele_ok e x" "storable e (ele_bytes x)" and xs: "\<forall>x \<in> set xs. ele_ok e x \<and> storable e (ele_bytes x)"
    using Cons.prems(2) by auto
  obtain si' where n: "setTypeNextObject e (sv_addr e a) s si = Some (s, si', Some (ele_bytes x))" "si_at (sv_addr e a) s si' xs"
    using setTypeNextObject_Cons [OF assms(2) Cons.prems(1) x] .
  obtain d1 where d1: "setTypeRemove e dst (ele_bytes x) = Some (d1, ele_bytes x \<in> setobj_elems e dst)" "setobj_inv e d1"
    "setobj_elems e d1 = setobj_elems e dst - {ele_bytes x}" using setTypeRemove_spec [OF Cons.prems(3)] by blast
  note fin = setobj_size(2) [OF Cons.prems(3)]
  let ?c = "if ele_bytes x \<in> setobj_elems e dst then c + - 1 else c"
  have c: "?c = int (card (setobj_elems e d1))"
  proof (cases "ele_bytes x \<in> setobj_elems e dst")
    case True
    then have "card (setobj_elems e dst) = Suc (card (setobj_elems e d1))" using card.remove [OF fin True] d1(3) by simp
    then show ?thesis using True Cons.prems(4) by simp
  next
    case False
    then show ?thesis using d1(3) Cons.prems(4) by simp
  qed
  have "combine_loop e (setTypeRemove e) (- 1) a h si dst c = combine_loop e (setTypeRemove e) (- 1) a h si' d1 ?c"
    using n(1) d1(1) hh assms(1) by (subst combine_loop.simps) simp
  moreover have "setobj_elems e d1 - ele_bytes ` set xs = setobj_elems e dst - ele_bytes ` set (x # xs)" using d1(3) by auto
  ultimately show ?case using Cons.IH [OF n(2) xs d1(2) c] by simp
qed

text \<open>Every pointer of a list is that of a set whose elements can be copied.\<close>

definition ptrs_ok :: "set_env \<Rightarrow> set_heap \<Rightarrow> nat option list \<Rightarrow> bool" where
  "ptrs_ok e h sets \<longleftrightarrow> (\<forall>p \<in> set sets. ptr_ok e h p \<and> (\<forall>x \<in> elems_at e h p. storable e x))"

definition total_size :: "set_env \<Rightarrow> set_heap \<Rightarrow> nat option list \<Rightarrow> nat" where
  "total_size e h sets = sum_list (map (\<lambda>p. card (elems_at e h p)) sets)"

lemma ptrs_ok_Cons [simp]:
  "ptrs_ok e h (p # sets) \<longleftrightarrow> ptr_ok e h p \<and> (\<forall>x \<in> elems_at e h p. storable e x) \<and> ptrs_ok e h sets"
  by (auto simp: ptrs_ok_def)

lemma total_size_simps [simp]: "total_size e h [] = 0" "total_size e h (p # sets) = card (elems_at e h p) + total_size e h sets"
  by (simp_all add: total_size_def)

lemma union_sets_spec:
  assumes "ptrs_ok e h sets" "setobj_inv e dst" "setobj_room dst (total_size e h sets)" "c = int (card (setobj_elems e dst))"
  shows "\<exists>dst'. union_sets e h sets dst c = Some (h, dst', int (card (setobj_elems e dst'))) \<and> setobj_inv e dst' \<and>
    setobj_elems e dst' = setobj_elems e dst \<union> (\<Union>p \<in> set sets. elems_at e h p)"
  using assms
proof (induction sets arbitrary: dst c)
  case Nil
  then show ?case by simp
next
  case (Cons p sets)
  show ?case
  proof (cases p)
    case None
    then show ?thesis using Cons.IH [of dst c] Cons.prems by simp
  next
    case (Some a)
    obtain s where s: "h a = Some s" "setobj_inv e s" "elems_at e h p = setobj_elems e s"
      "\<forall>x \<in> set (set_eles s). ele_ok e x \<and> storable e (ele_bytes x)"
      using set_objects [of e h a] Cons.prems(1) by (auto simp: Some)
    have "length (set_eles s) = card (elems_at e h p)" using set_eles_elems(3) [OF s(2)] setobj_size(1) [OF s(2)] s(3) by simp
    then have room: "setobj_room dst (length (set_eles s) + total_size e h sets)" using Cons.prems(3) by simp
    obtain d1 where d1: "combine_loop e (setTypeAdd e) 1 a h (setTypeInitIterator e s) dst c =
        Some (h, d1, int (card (setobj_elems e d1)))" "setobj_inv e d1"
      "setobj_elems e d1 = setobj_elems e dst \<union> elems_at e h p" "setobj_room d1 (total_size e h sets)"
      using combine_add [of h a s e, OF s(1,2) si_at_init s(4) Cons.prems(2) room Cons.prems(4), of e]
        set_eles_elems(1) [OF s(2)] s(3) by auto
    then show ?thesis using Cons.IH [OF _ d1(2,4) refl] Cons.prems(1) s(1)
      by (simp add: Some Un_assoc)
  qed
qed

lemma diff2_remove:
  assumes "ptrs_ok e h sets" "setobj_inv e dst" "c = int (card (setobj_elems e dst))"
  shows "\<exists>dst'. diff2_sets e False h sets dst c = Some (h, dst', int (card (setobj_elems e dst'))) \<and> setobj_inv e dst' \<and>
    setobj_elems e dst' = setobj_elems e dst - (\<Union>p \<in> set sets. elems_at e h p)"
  using assms
proof (induction sets arbitrary: dst c)
  case Nil
  then show ?case by simp
next
  case (Cons p sets)
  show ?case
  proof (cases p)
    case None
    then show ?thesis using Cons.IH [of dst c] Cons.prems by simp
  next
    case (Some a)
    obtain s where s: "h a = Some s" "setobj_inv e s" "elems_at e h p = setobj_elems e s"
      "\<forall>x \<in> set (set_eles s). ele_ok e x \<and> storable e (ele_bytes x)"
      using set_objects [of e h a] Cons.prems(1) by (auto simp: Some)
    obtain d1 where d1: "combine_loop e (setTypeRemove e) (- 1) a h (setTypeInitIterator e s) dst c =
        Some (h, d1, int (card (setobj_elems e d1)))" "setobj_inv e d1"
      "setobj_elems e d1 = setobj_elems e dst - elems_at e h p"
      using combine_remove [of h a s e, OF s(1,2) si_at_init s(4) Cons.prems(2,3), of e] set_eles_elems(1) [OF s(2)] s(3) by auto
    show ?thesis
    proof (cases "card (setobj_elems e d1) = 0")
      case True
      then have "setobj_elems e d1 = {}" using setobj_size(2) [OF d1(2)] by simp
      then show ?thesis using d1 s(1) True by (auto simp: Some)
    next
      case False
      have "setobj_elems e d1 - (\<Union>p \<in> set sets. elems_at e h p) = setobj_elems e dst - (\<Union>p \<in> set (p # sets). elems_at e h p)"
        using d1(3) by auto
      then show ?thesis using Cons.IH [OF _ d1(2) refl] Cons.prems(1) s(1) d1(1) False by (simp add: Some)
    qed
  qed
qed

lemma diff2_sets_spec:
  assumes "ptrs_ok e h (Some a # sets)" "setobj_inv e dst" "setobj_elems e dst = {}"
    "setobj_room dst (card (elems_at e h (Some a)))"
  shows "\<exists>dst'. diff2_sets e True h (Some a # sets) dst 0 = Some (h, dst', int (card (setobj_elems e dst'))) \<and> setobj_inv e dst' \<and>
    setobj_elems e dst' = elems_at e h (Some a) - (\<Union>p \<in> set sets. elems_at e h p)"
proof -
  obtain s where s: "h a = Some s" "setobj_inv e s" "elems_at e h (Some a) = setobj_elems e s"
    "\<forall>x \<in> set (set_eles s). ele_ok e x \<and> storable e (ele_bytes x)"
    using set_objects [of e h a] assms(1) by auto
  have "length (set_eles s) = card (elems_at e h (Some a))"
    using set_eles_elems(3) [OF s(2)] setobj_size(1) [OF s(2)] s(3) by simp
  then have room: "setobj_room dst (length (set_eles s) + 0)" using assms(4) by simp
  have c: "(0 :: int) = int (card (setobj_elems e dst))" using assms(3) by simp
  obtain d1 where d1: "combine_loop e (setTypeAdd e) 1 a h (setTypeInitIterator e s) dst 0 =
      Some (h, d1, int (card (setobj_elems e d1)))" "setobj_inv e d1" "setobj_elems e d1 = elems_at e h (Some a)"
    using combine_add [of h a s e, OF s(1,2) si_at_init s(4) assms(2) room c, of e] assms(3) set_eles_elems(1) [OF s(2)] s(3) by auto
  show ?thesis
  proof (cases "card (setobj_elems e d1) = 0")
    case True
    then have "setobj_elems e d1 = {}" using setobj_size(2) [OF d1(2)] by simp
    then show ?thesis using d1 s(1) True by simp
  next
    case False
    then show ?thesis using diff2_remove [OF _ d1(2) refl, of h sets] assms(1) d1(1,3) s(1) by simp
  qed
qed

lemma diff_check_spec:
  assumes "\<forall>p \<in> set sets. ptr_ok e h p" "x \<in> elems_at e h (Some a0)"
  shows "\<exists>h'. diff_check e h a0 sets x = Some (h', \<forall>p \<in> set sets. x \<notin> elems_at e h p) \<and> heap_sim e h h' \<and> h' a0 = h a0"
  using assms
proof (induction sets arbitrary: h)
  case Nil
  then show ?case by simp
next
  case (Cons p sets)
  consider "p = None" | "p = Some a0" | (other) a where "p = Some a" "a \<noteq> a0" by (cases p) auto
  then show ?case
  proof cases
    case other
    obtain s where s: "h a = Some s" "setobj_inv e s" using Cons.prems other(1) by (auto simp: ptr_ok_Some)
    obtain s' where t: "setTypeIsMember e s x = Some (s', x \<in> setobj_elems e s)" "setobj_inv e s'"
      "setobj_elems e s' = setobj_elems e s" using setTypeIsMember_spec [OF s(2)] by blast
    define h1 where "h1 = h(a \<mapsto> s')"
    have sim: "heap_sim e h h1" unfolding h1_def using heap_sim_upd [of h a s] s(1) t(2,3) by blast
    have h1a: "h1 a0 = h a0" using other(2) by (simp add: h1_def)
    have "\<forall>p \<in> set sets. ptr_ok e h p" using Cons.prems(1) by simp
    note sim' = heap_sim_all [OF sim this]
    have "x \<in> elems_at e h1 (Some a0)" using Cons.prems(2) h1a by (simp add: elems_at_def)
    then obtain h' where h': "diff_check e h1 a0 sets x = Some (h', \<forall>p \<in> set sets. x \<notin> elems_at e h1 p)"
      "heap_sim e h1 h'" "h' a0 = h1 a0" using Cons.IH [OF sim'(1)] by blast
    have "(\<forall>p \<in> set sets. x \<notin> elems_at e h1 p) = (\<forall>p \<in> set sets. x \<notin> elems_at e h p)" using sim'(2) by auto
    then show ?thesis using s t h' h1a other sim heap_sim_trans [OF sim h'(2)]
      by (cases "x \<in> setobj_elems e s") (simp_all add: h1_def [symmetric] del: fun_upd_apply)
  qed (use Cons in auto)
qed

definition in_none :: "set_env \<Rightarrow> set_heap \<Rightarrow> nat option list \<Rightarrow> sds \<Rightarrow> bool" where
  "in_none e h others x \<longleftrightarrow> (\<forall>p \<in> set others. x \<notin> elems_at e h p)"

lemma in_none_sim:
  assumes "heap_sim e h h'" "\<forall>p \<in> set others. ptr_ok e h p"
  shows "in_none e h' others = in_none e h others"
  using heap_sim_ptr [OF assms(1)] assms(2) by (auto simp: fun_eq_iff in_none_def)

text \<open>Each element is met once, so that counting every addition counts the elements of the result.\<close>

lemma diff1_loop_spec:
  assumes "h a0 = Some s" "setobj_inv e s" "si_at (sv_addr e a0) s si xs" "\<forall>p \<in> set others. ptr_ok e h p"
    "\<forall>x \<in> set xs. ele_ok e x \<and> storable e (ele_bytes x) \<and> ele_bytes x \<in> setobj_elems e s"
    "setobj_inv e dst" "setobj_room dst (length xs)" "c = int (card (setobj_elems e dst))"
    "distinct (map ele_bytes xs)" "setobj_elems e dst \<inter> ele_bytes ` set xs = {}"
  shows "\<exists>h' dst'. diff1_loop e a0 others h si dst c = Some (h', dst', int (card (setobj_elems e dst'))) \<and> heap_sim e h h' \<and>
    setobj_inv e dst' \<and> setobj_elems e dst' = setobj_elems e dst \<union> {y \<in> ele_bytes ` set xs. in_none e h others y}"
  using assms
proof (induction xs arbitrary: h si dst c)
  case Nil
  obtain si' where n: "setTypeNextObject e (sv_addr e a0) s si = Some (s, si', None)"
    "setTypeReleaseIterator (sv_addr e a0) s si' = Some s" using setTypeNextObject_Nil [OF Nil.prems(2,3)] .
  have "h(a0 \<mapsto> s) = h" using Nil.prems(1) by (simp add: map_upd_triv)
  then show ?case using n Nil.prems(1,6,8) by (subst diff1_loop.simps) simp
next
  case (Cons x xs)
  let ?x = "ele_bytes x"
  have hh: "h(a0 \<mapsto> s) = h" using Cons.prems(1) by (simp add: map_upd_triv)
  have x: "ele_ok e x" "storable e ?x" "?x \<in> setobj_elems e s"
    and xs: "\<forall>x \<in> set xs. ele_ok e x \<and> storable e (ele_bytes x) \<and> ele_bytes x \<in> setobj_elems e s"
    using Cons.prems(5) by auto
  obtain si' where n: "setTypeNextObject e (sv_addr e a0) s si = Some (s, si', Some ?x)" "si_at (sv_addr e a0) s si' xs"
    using setTypeNextObject_Cons [OF Cons.prems(2,3) x(1,2)] .
  have "?x \<in> elems_at e h (Some a0)" using x(3) Cons.prems(1) by simp
  then obtain h1 where h1: "diff_check e h a0 others ?x = Some (h1, in_none e h others ?x)" "heap_sim e h h1" "h1 a0 = h a0"
    using diff_check_spec [OF Cons.prems(4), folded in_none_def] by blast
  have h1a: "h1 a0 = Some s" using h1(3) Cons.prems(1) by simp
  have ptr: "\<forall>p \<in> set others. ptr_ok e h1 p" using heap_sim_all(1) [OF h1(2) Cons.prems(4)] .
  note P = in_none_sim [OF h1(2) Cons.prems(4)]
  note IH = Cons.IH [OF h1a Cons.prems(2) n(2) ptr xs, unfolded P]
  have tr: "heap_sim e h1 h' \<Longrightarrow> heap_sim e h h'" for h' using heap_sim_trans [OF h1(2)] .
  have dj: "distinct (map ele_bytes xs)" "?x \<notin> setobj_elems e dst" "?x \<notin> ele_bytes ` set xs"
    "setobj_elems e dst \<inter> ele_bytes ` set xs = {}" using Cons.prems(9,10) by auto
  show ?case
  proof (cases "in_none e h others ?x")
    case True
    obtain d1 where d1: "setTypeAdd e dst ?x = Some (d1, ?x \<notin> setobj_elems e dst)" "setobj_inv e d1"
      "setobj_elems e d1 = insert ?x (setobj_elems e dst)" "setobj_room d1 (length xs)"
      using setTypeAdd_spec [OF Cons.prems(6) x(2), of "length xs"] Cons.prems(7) by auto
    have c: "c + 1 = int (card (setobj_elems e d1))"
      using Cons.prems(8) d1(3) dj(2) setobj_size(2) [OF Cons.prems(6)] by simp
    have "setobj_elems e d1 \<inter> ele_bytes ` set xs = {}" using d1(3) dj(3,4) by auto
    then obtain h' dst' where r: "diff1_loop e a0 others h1 si' d1 (c + 1) = Some (h', dst', int (card (setobj_elems e dst')))"
      "heap_sim e h1 h'" "setobj_inv e dst'"
      "setobj_elems e dst' = setobj_elems e d1 \<union> {y \<in> ele_bytes ` set xs. in_none e h others y}"
      using IH [OF d1(2,4) c dj(1)] by blast
    have "diff1_loop e a0 others h si dst c = diff1_loop e a0 others h1 si' d1 (c + 1)"
      using n(1) Cons.prems(1) hh h1(1) True d1(1) by (subst diff1_loop.simps) simp
    moreover have "setobj_elems e dst' = setobj_elems e dst \<union> {y \<in> ele_bytes ` set (x # xs). in_none e h others y}"
      using r(4) d1(3) True by auto
    ultimately show ?thesis using r(1-3) tr by (intro exI conjI) auto
  next
    case False
    have "setobj_room dst (length xs)" using Cons.prems(7) setobj_room_mono by fastforce
    then obtain h' dst' where r: "diff1_loop e a0 others h1 si' dst c = Some (h', dst', int (card (setobj_elems e dst')))"
      "heap_sim e h1 h'" "setobj_inv e dst'"
      "setobj_elems e dst' = setobj_elems e dst \<union> {y \<in> ele_bytes ` set xs. in_none e h others y}"
      using IH [OF Cons.prems(6) _ Cons.prems(8) dj(1,4)] by blast
    have "diff1_loop e a0 others h si dst c = diff1_loop e a0 others h1 si' dst c"
      using n(1) Cons.prems(1) hh h1(1) False by (subst diff1_loop.simps) simp
    moreover have "setobj_elems e dst' = setobj_elems e dst \<union> {y \<in> ele_bytes ` set (x # xs). in_none e h others y}"
      using r(4) False by auto
    ultimately show ?thesis using r(1-3) tr by (intro exI conjI) auto
  qed
qed

text \<open>The replies are the elements of the result, each once.\<close>

lemma reply_loop_spec:
  assumes "setobj_inv e dst" "si_at addr dst si xs" "\<forall>x \<in> set xs. ele_ok e x \<and> storable e (ele_bytes x)"
  shows "reply_loop e addr dst si replies = Some (dst, replies @ map ele_bytes xs)"
  using assms(2,3)
proof (induction xs arbitrary: si replies)
  case Nil
  obtain si' where "setTypeNextObject e addr dst si = Some (dst, si', None)" "setTypeReleaseIterator addr dst si' = Some dst"
    using setTypeNextObject_Nil [OF assms(1) Nil.prems(1)] .
  then show ?case by (subst reply_loop.simps) simp
next
  case (Cons x xs)
  obtain si' where "setTypeNextObject e addr dst si = Some (dst, si', Some (ele_bytes x))" "si_at addr dst si' xs"
    using setTypeNextObject_Cons [OF assms(1) Cons.prems(1)] Cons.prems(2) by auto
  then show ?case using Cons.IH [of si' "replies @ [ele_bytes x]"] Cons.prems(2) by (subst reply_loop.simps) simp
qed

definition set_op_result :: "set_env \<Rightarrow> set_heap \<Rightarrow> set_op \<Rightarrow> nat option list \<Rightarrow> sds set" where
  "set_op_result e h op sets = (case op of
     SET_OP_UNION \<Rightarrow> \<Union>p \<in> set sets. elems_at e h p
   | SET_OP_DIFF \<Rightarrow> elems_at e h (hd sets) - (\<Union>p \<in> set (tl sets). elems_at e h p))"

lemma diff1_sets_spec:
  assumes e: "env_ok e" and ok: "ptrs_ok e h (Some a # others)" and sz: "card (elems_at e h (Some a)) < 2 ^ 29"
    and oth: "set others' = set others" and s: "h a = Some s"
  shows "\<exists>h' dst. diff1_loop e a others' h (setTypeInitIterator e s) createIntsetObject 0 = Some (h', dst, int (card (setobj_elems e dst))) \<and>
    heap_sim e h h' \<and> setobj_inv e dst \<and> setobj_elems e dst = elems_at e h (Some a) - (\<Union>p \<in> set others. elems_at e h p)"
proof -
  have s': "setobj_inv e s" "elems_at e h (Some a) = setobj_elems e s"
    "\<forall>x \<in> set (set_eles s). ele_ok e x \<and> storable e (ele_bytes x)"
    using set_objects [of e h a] ok s by auto
  note el = set_eles_elems [OF s'(1)]
  have xs: "\<forall>x \<in> set (set_eles s). ele_ok e x \<and> storable e (ele_bytes x) \<and> ele_bytes x \<in> setobj_elems e s" using s'(3) el(1) by blast
  have len: "length (set_eles s) < 2 ^ 29" using el(3) setobj_size(1) [OF s'(1)] s'(2) sz by simp
  have ptr: "\<forall>p \<in> set others'. ptr_ok e h p" using ok oth by (simp add: ptrs_ok_def)
  note new = new_dst [OF e len]
  have "{y \<in> ele_bytes ` set (set_eles s). in_none e h others' y} = elems_at e h (Some a) - (\<Union>p \<in> set others. elems_at e h p)"
    using el(1) s'(2) oth by (auto simp: in_none_def)
  moreover have c: "(0 :: int) = int (card (setobj_elems e createIntsetObject))"
    "setobj_elems e createIntsetObject \<inter> ele_bytes ` set (set_eles s) = {}" using new(2) by simp_all
  ultimately show ?thesis
    using diff1_loop_spec [OF s s'(1) si_at_init ptr xs new(1,3) c(1) el(2) c(2), of e] new(2) by simp
qed

lemma sunionDiff_sets_spec:
  assumes e: "env_ok e" and ne: "sets \<noteq> []" and ok: "ptrs_ok e h sets" and sz: "total_size e h sets < 2 ^ 29"
  shows "\<exists>h' dst. sunionDiff_sets e op h sets = Some (h', dst, int (card (setobj_elems e dst))) \<and> heap_sim e h h' \<and>
    setobj_inv e dst \<and> setobj_elems e dst = set_op_result e h op sets"
proof (cases op)
  case SET_OP_UNION
  note new = new_dst [OF e sz]
  then show ?thesis using union_sets_spec [OF ok new(1,3)] by (auto simp: SET_OP_UNION sunionDiff_sets_def set_op_result_def)
next
  case SET_OP_DIFF
  obtain p others where sets: "sets = p # others" using ne by (cases sets) auto
  show ?thesis
  proof (cases p)
    case None
    then show ?thesis using new_dst(1,2) [OF e, of 0]
      by (simp add: SET_OP_DIFF sunionDiff_sets_def set_op_result_def sets)
  next
    case (Some a)
    have sz': "card (elems_at e h (Some a)) < 2 ^ 29" using sz by (simp add: sets Some)
    obtain s where s: "h a = Some s" using ok by (auto simp: sets Some ptr_ok_Some)
    note new = new_dst [OF e sz']
    have ok': "ptrs_ok e h (Some a # others)" using ok by (simp add: sets Some)
    have q: "set (if length sets > 1 then qsort (qsortCompareSetsByRevCardinality h) others else others) = set others" by simp
    show ?thesis
    proof (cases "diff_algo h a sets = 1")
      case True
      then show ?thesis using diff1_sets_spec [OF e ok' sz' q s] s
        by (simp add: SET_OP_DIFF sunionDiff_sets_def set_op_result_def sets Some)
    next
      case False
      then show ?thesis using diff2_sets_spec [OF ok' new]
        by (auto simp: SET_OP_DIFF sunionDiff_sets_def set_op_result_def sets Some)
    qed
  qed
qed

lemma set_op_result_storable: "ptrs_ok e h sets \<Longrightarrow> sets \<noteq> [] \<Longrightarrow> x \<in> set_op_result e h op sets \<Longrightarrow> storable e x"
  by (cases sets) (auto simp: set_op_result_def ptrs_ok_def split: set_op.splits)

section \<open>Properties\<close>

text \<open>
  C3. \<open>SINTER\<close> and \<open>SINTERSTORE\<close> compute the intersection: for any list of keys, with missing keys as empty
  sets and any key given any number of times, the loop returns, no assertion of an iterator fails,
  the replies are the elements of the intersection, each once, or the set to store has exactly them,
  and every source set keeps its elements although lookups may rehash it.
\<close>

theorem sinter_correct:
  assumes "sets \<noteq> []" "ptrs_ok e h sets" "\<forall>p \<in> set sets. card (elems_at e h p) < 2 ^ 29"
  shows "\<exists>h' replies dst. sinter_sets e store h sets = Some (h', replies, dst) \<and> heap_sim e h h' \<and>
    (if store then replies = [] \<and> dst_ok e dst 0 \<and> dst_elems e dst = (\<Inter>p \<in> set sets. elems_at e h p)
     else dst = None \<and> distinct (map ele_bytes replies) \<and> ele_bytes ` set replies = (\<Inter>p \<in> set sets. elems_at e h p))"
proof (cases "None \<in> set sets")
  case True
  then have "(\<Inter>p \<in> set sets. elems_at e h p) = {}" using elems_at_simps(1) [of e h] by blast
  then show ?thesis using True by (simp add: sinter_sets_def dst_ok_def dst_elems_def)
next
  case False
  then have "sets = map Some (map the sets)" by (induction sets) auto
  then show ?thesis using sinter_sets_spec [of sets "map the sets" e h store] assms by (simp add: ptrs_ok_def)
qed

text \<open>Two sets, the second a hash table, for concrete instances.\<close>

lemma two_sets:
  obtains sa sb where "add_loop (setTypeAdd set_env1) createIntsetObject [[49], [50], [51]] 0 = Some (sa, 3)"
    "add_loop (setTypeAdd set_env1) createIntsetObject [[50], [97]] 0 = Some (sb, 2)"
    "ptrs_ok set_env1 [0 \<mapsto> sa, 1 \<mapsto> sb] [Some 0, Some 1, Some 0, None]"
    "elems_at set_env1 [0 \<mapsto> sa, 1 \<mapsto> sb] (Some 0) = {[49], [50], [51]}"
    "elems_at set_env1 [0 \<mapsto> sa, 1 \<mapsto> sb] (Some 1) = {[50], [97]}"
proof -
  have mk: "\<exists>s. add_loop (setTypeAdd set_env1) createIntsetObject args 0 = Some (s, card (set args)) \<and>
      setobj_inv set_env1 s \<and> setobj_elems set_env1 s = set args"
    if "\<forall>x \<in> set args. length x < 2 ^ 62" "length args < 2 ^ 29" for args
    using setobj_impl.add_loop_spec [OF new_dst(1) [OF set_env1_ok(1) that(2)] _ new_dst(3) [OF set_env1_ok(1) that(2)], of 0]
      new_dst(2) [OF set_env1_ok(1) that(2)] that(1) set_env1_ok(2) by simp
  obtain sa where sa: "add_loop (setTypeAdd set_env1) createIntsetObject [[49], [50], [51]] 0 = Some (sa, card {[49], [50], [51 :: byte]})"
    "setobj_inv set_env1 sa" "setobj_elems set_env1 sa = {[49], [50], [51]}"
    using mk [of "[[49], [50], [51]]"] by (simp only: list.set list.size) auto
  obtain sb where sb: "add_loop (setTypeAdd set_env1) createIntsetObject [[50], [97]] 0 = Some (sb, card {[50], [97 :: byte]})"
    "setobj_inv set_env1 sb" "setobj_elems set_env1 sb = {[50], [97]}"
    using mk [of "[[50], [97]]"] by (simp only: list.set list.size) auto
  have c: "card {[49], [50], [51 :: byte]} = 3" "card {[50], [97 :: byte]} = 2" by (simp_all add: card_insert_if)
  define h :: set_heap where "h = [0 \<mapsto> sa, 1 \<mapsto> sb]"
  have h: "h 0 = Some sa" "h 1 = Some sb" by (simp_all add: h_def)
  have el: "elems_at set_env1 h (Some 0) = {[49], [50], [51]}" "elems_at set_env1 h (Some 1) = {[50], [97]}"
    using sa(3) sb(3) by (simp_all only: elems_at_def option.case h)
  have "ptr_ok set_env1 h (Some 0)" "ptr_ok set_env1 h (Some 1)" using h sa(2) sb(2) by (simp_all add: ptr_ok_Some)
  moreover have "\<forall>x \<in> {[49], [50], [51]}. storable set_env1 x" "\<forall>x \<in> {[50], [97]}. storable set_env1 x"
    by (auto intro: set_env1_ok(2))
  ultimately have "ptrs_ok set_env1 h [Some 0, Some 1, Some 0, None]" using el unfolding ptrs_ok_def by simp
  then show thesis using that [of sa sb] sa(1) sb(1) el unfolding h_def c by blast
qed

theorem sinter_correct_witness:
  "\<exists>sa sb h' replies. add_loop (setTypeAdd set_env1) createIntsetObject [[49], [50], [51]] 0 = Some (sa, 3) \<and>
    add_loop (setTypeAdd set_env1) createIntsetObject [[50], [97]] 0 = Some (sb, 2) \<and>
    sinter_sets set_env1 False [0 \<mapsto> sa, 1 \<mapsto> sb] [Some 0, Some 1, Some 0] = Some (h', replies, None) \<and>
    ele_bytes ` set replies = {[50]}"
proof -
  obtain sa sb where t: "add_loop (setTypeAdd set_env1) createIntsetObject [[49], [50], [51]] 0 = Some (sa, 3)"
    "add_loop (setTypeAdd set_env1) createIntsetObject [[50], [97]] 0 = Some (sb, 2)"
    "ptrs_ok set_env1 [0 \<mapsto> sa, 1 \<mapsto> sb] [Some 0, Some 1, Some 0, None]"
    "elems_at set_env1 [0 \<mapsto> sa, 1 \<mapsto> sb] (Some 0) = {[49], [50], [51]}"
    "elems_at set_env1 [0 \<mapsto> sa, 1 \<mapsto> sb] (Some 1) = {[50], [97]}" using two_sets .
  define h :: set_heap where "h = [0 \<mapsto> sa, 1 \<mapsto> sb]"
  define sets :: "nat option list" where "sets = [Some 0, Some 1, Some 0]"
  have pre: "sets \<noteq> []" "ptrs_ok set_env1 h sets" "\<forall>p \<in> set sets. card (elems_at set_env1 h p) < 2 ^ 29"
    using t(3-5) unfolding h_def sets_def by (auto simp: card_insert_if)
  have "(\<Inter>p \<in> set sets. elems_at set_env1 h p) = {[50]}" using t(4,5) unfolding h_def sets_def by auto
  then obtain h' replies where "sinter_sets set_env1 False h sets = Some (h', replies, None)" "ele_bytes ` set replies = {[50]}"
    using sinter_correct [OF pre, of False] by auto
  then show ?thesis using t(1,2) unfolding h_def sets_def by blast
qed

text \<open>
  C2. \<open>SUNION\<close> and \<open>SDIFF\<close> and their storing forms compute the union, and the difference of the first set
  and all others, whichever of the two algorithms for the difference is chosen and with any key given
  several times. The number sent first is the number of elements, each of which is sent once; the
  source sets keep their elements and no assertion of an iterator fails.
\<close>

theorem sunion_sdiff_correct:
  assumes "env_ok e" "sets \<noteq> []" "ptrs_ok e h sets" "total_size e h sets < 2 ^ 29"
  shows "\<exists>h' dst rs. sunionDiff_sets e op h sets = Some (h', dst, int (card (set_op_result e h op sets))) \<and>
    heap_sim e h h' \<and> setobj_inv e dst \<and> setobj_elems e dst = set_op_result e h op sets \<and>
    reply_loop e addr dst (setTypeInitIterator e dst) [] = Some (dst, rs) \<and> distinct rs \<and>
    set rs = set_op_result e h op sets"
proof -
  obtain h' dst where r: "sunionDiff_sets e op h sets = Some (h', dst, int (card (setobj_elems e dst)))" "heap_sim e h h'"
    "setobj_inv e dst" "setobj_elems e dst = set_op_result e h op sets"
    using sunionDiff_sets_spec [OF assms] by blast
  note el = set_eles_elems [OF r(3)]
  have "\<forall>x \<in> set (set_eles dst). ele_ok e x \<and> storable e (ele_bytes x)"
    using el(1,4) r(4) set_op_result_storable [OF assms(3,2), of _ op] by blast
  then have "reply_loop e addr dst (setTypeInitIterator e dst) [] = Some (dst, map ele_bytes (set_eles dst))"
    using reply_loop_spec [OF r(3) si_at_init] by simp
  then show ?thesis using r el(1,2) by auto
qed

theorem sunion_sdiff_correct_witness:
  "\<exists>sa sb h' dst. add_loop (setTypeAdd set_env1) createIntsetObject [[49], [50], [51]] 0 = Some (sa, 3) \<and>
    add_loop (setTypeAdd set_env1) createIntsetObject [[50], [97]] 0 = Some (sb, 2) \<and>
    sunionDiff_sets set_env1 SET_OP_DIFF [0 \<mapsto> sa, 1 \<mapsto> sb] [Some 0, None, Some 1] = Some (h', dst, 2) \<and>
    setobj_elems set_env1 dst = {[49], [51]}"
proof -
  obtain sa sb where t: "add_loop (setTypeAdd set_env1) createIntsetObject [[49], [50], [51]] 0 = Some (sa, 3)"
    "add_loop (setTypeAdd set_env1) createIntsetObject [[50], [97]] 0 = Some (sb, 2)"
    "ptrs_ok set_env1 [0 \<mapsto> sa, 1 \<mapsto> sb] [Some 0, Some 1, Some 0, None]"
    "elems_at set_env1 [0 \<mapsto> sa, 1 \<mapsto> sb] (Some 0) = {[49], [50], [51]}"
    "elems_at set_env1 [0 \<mapsto> sa, 1 \<mapsto> sb] (Some 1) = {[50], [97]}" using two_sets .
  define h :: set_heap where "h = [0 \<mapsto> sa, 1 \<mapsto> sb]"
  define sets :: "nat option list" where "sets = [Some 0, None, Some 1]"
  have pre: "sets \<noteq> []" "ptrs_ok set_env1 h sets" "total_size set_env1 h sets < 2 ^ 29"
    using t(3-5) unfolding h_def sets_def by (auto simp: card_insert_if)
  have r: "set_op_result set_env1 h SET_OP_DIFF sets = {[49], [51]}"
    unfolding set_op_result_def sets_def by (simp add: t(4,5) [folded h_def] del: One_nat_def) auto
  have "card {[49], [51 :: byte]} = 2" by (simp add: card_insert_if)
  with r obtain h' dst where "sunionDiff_sets set_env1 SET_OP_DIFF h sets = Some (h', dst, 2)" "setobj_elems set_env1 dst = {[49], [51]}"
    using sunion_sdiff_correct [OF set_env1_ok(1) pre, of SET_OP_DIFF "(0, 0)"] by auto
  then show ?thesis using t(1,2) unfolding h_def sets_def by blast
qed

end
