(* ===== verification/Adlist.thy ===== *)
theory Adlist
  imports Redis_Prelude
begin

text \<open>
  The doubly linked lists of \<open>adlist.c\<close>, on an explicit heap: a node is a record at an address, a
  pointer is an optional address, and \<open>None\<close> is the null pointer. Following a null pointer or
  a pointer to a freed node is the value \<open>None\<close> of the option monad. The allocator is the argument
  \<open>alloc\<close>: the address \<open>zmalloc\<close> returns in the given heap, if any. The callback \<open>free\<close> of a list,
  which releases values, has no counterpart.
\<close>

section \<open>Nodes, lists, iterators\<close>

type_synonym addr = nat

record 'v listNode =
  ln_prev :: "addr option"
  ln_next :: "addr option"
  ln_value :: 'v

type_synonym 'v lheap = "addr \<Rightarrow> 'v listNode option"

datatype direction = AL_START_HEAD | AL_START_TAIL

record listIter =
  li_next :: "addr option"
  li_direction :: direction

record 'v adlist =
  l_head :: "addr option"
  l_tail :: "addr option"
  l_dup :: "('v \<Rightarrow> 'v option) option"
  l_match :: "('v \<Rightarrow> 'v \<Rightarrow> bool) option"
  l_len :: nat

definition deref :: "'v lheap \<Rightarrow> addr option \<Rightarrow> 'v listNode option" where
  "deref h p = Option.bind p h"

definition set_next :: "'v lheap \<Rightarrow> addr option \<Rightarrow> addr option \<Rightarrow> 'v lheap option" where
  "set_next h p v = do { a \<leftarrow> p; n \<leftarrow> h a; Some (h(a \<mapsto> n\<lparr>ln_next := v\<rparr>)) }"

definition set_prev :: "'v lheap \<Rightarrow> addr option \<Rightarrow> addr option \<Rightarrow> 'v lheap option" where
  "set_prev h p v = do { a \<leftarrow> p; n \<leftarrow> h a; Some (h(a \<mapsto> n\<lparr>ln_prev := v\<rparr>)) }"

definition zfree :: "'v lheap \<Rightarrow> addr \<Rightarrow> 'v lheap" where
  "zfree h a = h(a := None)"

section \<open>Operations\<close>

definition listCreate :: "'v adlist" where
  "listCreate = \<lparr>l_head = None, l_tail = None, l_dup = None, l_match = None, l_len = 0\<rparr>"

primrec listEmpty_loop :: "'v lheap \<Rightarrow> nat \<Rightarrow> addr option \<Rightarrow> 'v lheap option" where
  "listEmpty_loop h 0 current = Some h"
| "listEmpty_loop h (Suc len) current = do {
     a \<leftarrow> current;
     n \<leftarrow> h a;
     listEmpty_loop (zfree h a) len (ln_next n) }"

definition listEmpty :: "'v lheap \<Rightarrow> 'v adlist \<Rightarrow> ('v lheap \<times> 'v adlist) option" where
  "listEmpty h l = do {
     h \<leftarrow> listEmpty_loop h (l_len l) (l_head l);
     Some (h, l\<lparr>l_head := None, l_tail := None, l_len := 0\<rparr>) }"

definition listRelease :: "'v lheap \<Rightarrow> 'v adlist \<Rightarrow> 'v lheap option" where
  "listRelease h l = map_option fst (listEmpty h l)"

text \<open>The results of the insertions: the heap, the list, and whether \<open>NULL\<close> was not returned.\<close>

definition listAddNodeHead ::
  "('v lheap \<Rightarrow> addr option) \<Rightarrow> 'v lheap \<Rightarrow> 'v adlist \<Rightarrow> 'v \<Rightarrow> ('v lheap \<times> 'v adlist \<times> bool) option" where
  "listAddNodeHead alloc h l v =
     (case alloc h of
        None \<Rightarrow> Some (h, l, False)
      | Some node \<Rightarrow>
          (if l_len l = 0
           then Some (h(node \<mapsto> \<lparr>ln_prev = None, ln_next = None, ln_value = v\<rparr>),
                      l\<lparr>l_head := Some node, l_tail := Some node, l_len := l_len l + 1\<rparr>, True)
           else do {
             let h = h(node \<mapsto> \<lparr>ln_prev = None, ln_next = l_head l, ln_value = v\<rparr>);
             h \<leftarrow> set_prev h (l_head l) (Some node);
             Some (h, l\<lparr>l_head := Some node, l_len := l_len l + 1\<rparr>, True) }))"

definition listAddNodeTail ::
  "('v lheap \<Rightarrow> addr option) \<Rightarrow> 'v lheap \<Rightarrow> 'v adlist \<Rightarrow> 'v \<Rightarrow> ('v lheap \<times> 'v adlist \<times> bool) option" where
  "listAddNodeTail alloc h l v =
     (case alloc h of
        None \<Rightarrow> Some (h, l, False)
      | Some node \<Rightarrow>
          (if l_len l = 0
           then Some (h(node \<mapsto> \<lparr>ln_prev = None, ln_next = None, ln_value = v\<rparr>),
                      l\<lparr>l_head := Some node, l_tail := Some node, l_len := l_len l + 1\<rparr>, True)
           else do {
             let h = h(node \<mapsto> \<lparr>ln_prev = l_tail l, ln_next = None, ln_value = v\<rparr>);
             h \<leftarrow> set_next h (l_tail l) (Some node);
             Some (h, l\<lparr>l_tail := Some node, l_len := l_len l + 1\<rparr>, True) }))"

definition listInsertNode ::
  "('v lheap \<Rightarrow> addr option) \<Rightarrow> 'v lheap \<Rightarrow> 'v adlist \<Rightarrow> addr \<Rightarrow> 'v \<Rightarrow> bool
    \<Rightarrow> ('v lheap \<times> 'v adlist \<times> bool) option" where
  "listInsertNode alloc h l old_node v after =
     (case alloc h of
        None \<Rightarrow> Some (h, l, False)
      | Some node \<Rightarrow> do {
          old \<leftarrow> h old_node;
          let n = (if after then \<lparr>ln_prev = Some old_node, ln_next = ln_next old, ln_value = v\<rparr>
                   else \<lparr>ln_prev = ln_prev old, ln_next = Some old_node, ln_value = v\<rparr>);
          let l = (if after then (if l_tail l = Some old_node then l\<lparr>l_tail := Some node\<rparr> else l)
                   else (if l_head l = Some old_node then l\<lparr>l_head := Some node\<rparr> else l));
          let h = h(node \<mapsto> n);
          h \<leftarrow> (if ln_prev n \<noteq> None then set_next h (ln_prev n) (Some node) else Some h);
          h \<leftarrow> (if ln_next n \<noteq> None then set_prev h (ln_next n) (Some node) else Some h);
          Some (h, l\<lparr>l_len := l_len l + 1\<rparr>, True) })"

definition listDelNode :: "'v lheap \<Rightarrow> 'v adlist \<Rightarrow> addr \<Rightarrow> ('v lheap \<times> 'v adlist) option" where
  "listDelNode h l node = do {
     n \<leftarrow> h node;
     h \<leftarrow> (if ln_prev n \<noteq> None then set_next h (ln_prev n) (ln_next n) else Some h);
     let l = (if ln_prev n \<noteq> None then l else l\<lparr>l_head := ln_next n\<rparr>);
     n \<leftarrow> h node;
     h \<leftarrow> (if ln_next n \<noteq> None then set_prev h (ln_next n) (ln_prev n) else Some h);
     let l = (if ln_next n \<noteq> None then l else l\<lparr>l_tail := ln_prev n\<rparr>);
     Some (zfree h node, l\<lparr>l_len := l_len l - 1\<rparr>) }"

definition listGetIterator :: "'v adlist \<Rightarrow> direction \<Rightarrow> listIter" where
  "listGetIterator l dirn =
     \<lparr>li_next = (if dirn = AL_START_HEAD then l_head l else l_tail l), li_direction = dirn\<rparr>"

definition listRewind :: "'v adlist \<Rightarrow> listIter" where
  "listRewind l = \<lparr>li_next = l_head l, li_direction = AL_START_HEAD\<rparr>"

definition listRewindTail :: "'v adlist \<Rightarrow> listIter" where
  "listRewindTail l = \<lparr>li_next = l_tail l, li_direction = AL_START_TAIL\<rparr>"

definition listNext :: "'v lheap \<Rightarrow> listIter \<Rightarrow> (listIter \<times> addr option) option" where
  "listNext h iter =
     (case li_next iter of
        None \<Rightarrow> Some (iter, None)
      | Some current \<Rightarrow> do {
          n \<leftarrow> h current;
          Some (iter\<lparr>li_next := (if li_direction iter = AL_START_HEAD then ln_next n else ln_prev n)\<rparr>,
                Some current) })"

partial_function (option) listDup_loop ::
  "('v lheap \<Rightarrow> addr option) \<Rightarrow> 'v lheap \<Rightarrow> 'v adlist \<Rightarrow> listIter \<Rightarrow> ('v lheap \<times> 'v adlist option) option" where
  [code]: "listDup_loop alloc h copy iter = do {
     (iter, node) \<leftarrow> listNext h iter;
     (case node of
        None \<Rightarrow> Some (h, Some copy)
      | Some a \<Rightarrow> do {
          n \<leftarrow> h a;
          (case (case l_dup copy of Some dup \<Rightarrow> dup (ln_value n) | None \<Rightarrow> Some (ln_value n)) of
             None \<Rightarrow> do { h \<leftarrow> listRelease h copy; Some (h, None) }
           | Some v \<Rightarrow> do {
               (h, copy, ok) \<leftarrow> listAddNodeTail alloc h copy v;
               if \<not> ok then do { h \<leftarrow> listRelease h copy; Some (h, None) }
               else listDup_loop alloc h copy iter }) }) }"

definition listDup ::
  "('v lheap \<Rightarrow> addr option) \<Rightarrow> 'v lheap \<Rightarrow> 'v adlist \<Rightarrow> ('v lheap \<times> 'v adlist option) option" where
  "listDup alloc h orig =
     listDup_loop alloc h (listCreate\<lparr>l_dup := l_dup orig, l_match := l_match orig\<rparr>) (listRewind orig)"

partial_function (option) listSearchKey_loop ::
  "'v lheap \<Rightarrow> 'v adlist \<Rightarrow> 'v \<Rightarrow> listIter \<Rightarrow> addr option option" where
  [code]: "listSearchKey_loop h l key iter = do {
     (iter, node) \<leftarrow> listNext h iter;
     (case node of
        None \<Rightarrow> Some None
      | Some a \<Rightarrow> do {
          n \<leftarrow> h a;
          if (case l_match l of Some match \<Rightarrow> match (ln_value n) key | None \<Rightarrow> key = ln_value n)
          then Some (Some a)
          else listSearchKey_loop h l key iter }) }"

definition listSearchKey :: "'v lheap \<Rightarrow> 'v adlist \<Rightarrow> 'v \<Rightarrow> addr option option" where
  "listSearchKey h l key = listSearchKey_loop h l key (listRewind l)"

text \<open>The loop \<open>while(index-- && n) n = n->next\<close>, with the field to follow as an argument.\<close>

primrec listIndex_loop ::
  "('v listNode \<Rightarrow> addr option) \<Rightarrow> 'v lheap \<Rightarrow> nat \<Rightarrow> addr option \<Rightarrow> addr option option" where
  "listIndex_loop fld h 0 p = Some p"
| "listIndex_loop fld h (Suc i) p =
     (case p of None \<Rightarrow> Some None | Some a \<Rightarrow> do { n \<leftarrow> h a; listIndex_loop fld h i (fld n) })"

definition listIndex :: "'v lheap \<Rightarrow> 'v adlist \<Rightarrow> int \<Rightarrow> addr option option" where
  "listIndex h l index =
     (if index < 0 then listIndex_loop ln_prev h (nat ((- index) - 1)) (l_tail l)
      else listIndex_loop ln_next h (nat index) (l_head l))"

definition listRotateTailToHead :: "'v lheap \<Rightarrow> 'v adlist \<Rightarrow> ('v lheap \<times> 'v adlist) option" where
  "listRotateTailToHead h l =
     (if l_len l \<le> 1 then Some (h, l)
      else do {
        let tail = l_tail l;
        t \<leftarrow> deref h tail;
        let l = l\<lparr>l_tail := ln_prev t\<rparr>;
        h \<leftarrow> set_next h (l_tail l) None;
        h \<leftarrow> set_prev h (l_head l) tail;
        h \<leftarrow> set_prev h tail None;
        h \<leftarrow> set_next h tail (l_head l);
        Some (h, l\<lparr>l_head := tail\<rparr>) })"

definition listRotateHeadToTail :: "'v lheap \<Rightarrow> 'v adlist \<Rightarrow> ('v lheap \<times> 'v adlist) option" where
  "listRotateHeadToTail h l =
     (if l_len l \<le> 1 then Some (h, l)
      else do {
        let head = l_head l;
        n \<leftarrow> deref h head;
        let l = l\<lparr>l_head := ln_next n\<rparr>;
        h \<leftarrow> set_prev h (l_head l) None;
        h \<leftarrow> set_next h (l_tail l) head;
        h \<leftarrow> set_next h head None;
        h \<leftarrow> set_prev h head (l_tail l);
        Some (h, l\<lparr>l_tail := head\<rparr>) })"

definition listJoin :: "'v lheap \<Rightarrow> 'v adlist \<Rightarrow> 'v adlist \<Rightarrow> ('v lheap \<times> 'v adlist \<times> 'v adlist) option" where
  "listJoin h l o' =
     (if l_len o' = 0 then Some (h, l, o')
      else do {
        h \<leftarrow> set_prev h (l_head o') (l_tail l);
        h \<leftarrow> (if l_tail l \<noteq> None then set_next h (l_tail l) (l_head o') else Some h);
        let l = (if l_tail l \<noteq> None then l else l\<lparr>l_head := l_head o'\<rparr>);
        Some (h, l\<lparr>l_tail := l_tail o', l_len := l_len l + l_len o'\<rparr>,
              o'\<lparr>l_head := None, l_tail := None, l_len := 0\<rparr>) })"

section \<open>Segments\<close>

text \<open>
  \<open>dseg h pr as nx\<close>: the nodes at the addresses \<open>as\<close> are linked in both directions, the first one
  points back to \<open>pr\<close> and the last one forward to \<open>nx\<close>.
\<close>

definition first :: "addr list \<Rightarrow> addr option \<Rightarrow> addr option" where
  "first as nx = (case as of [] \<Rightarrow> nx | a # _ \<Rightarrow> Some a)"

definition final :: "addr option \<Rightarrow> addr list \<Rightarrow> addr option" where
  "final pr as = (if as = [] then pr else Some (last as))"

fun dseg :: "'v lheap \<Rightarrow> addr option \<Rightarrow> addr list \<Rightarrow> addr option \<Rightarrow> bool" where
  "dseg h pr [] nx \<longleftrightarrow> True"
| "dseg h pr (a # as) nx \<longleftrightarrow>
     (\<exists>v. h a = Some \<lparr>ln_prev = pr, ln_next = first as nx, ln_value = v\<rparr>) \<and> dseg h (Some a) as nx"

definition vals :: "'v lheap \<Rightarrow> addr list \<Rightarrow> 'v list" where
  "vals h as = map (\<lambda>a. ln_value (the (h a))) as"

definition list_at :: "'v lheap \<Rightarrow> 'v adlist \<Rightarrow> addr list \<Rightarrow> bool" where
  "list_at h l as \<longleftrightarrow> distinct as \<and> dseg h None as None \<and> l_head l = first as None \<and>
     l_tail l = final None as \<and> l_len l = length as"

lemma first_simps [simp]: "first [] nx = nx" "first (a # as) nx = Some a" "first (as @ bs) nx = first as (first bs nx)"
  by (simp_all add: first_def split: list.split)

lemma final_simps [simp]: "final pr [] = pr" "final pr [a] = Some a" "final pr (as @ bs) = final (final pr as) bs"
  "final pr (a # as) = final (Some a) as"
  by (auto simp: final_def)

lemma dseg_append [simp]: "dseg h pr (as @ bs) nx \<longleftrightarrow> dseg h pr as (first bs nx) \<and> dseg h (final pr as) bs nx"
  by (induction as arbitrary: pr) auto

lemma dseg_frame: "(\<And>a. a \<in> set as \<Longrightarrow> h' a = h a) \<Longrightarrow> dseg h' pr as nx = dseg h pr as nx"
  by (induction as arbitrary: pr) auto

lemma dseg_upd [simp]: "a \<notin> set as \<Longrightarrow> dseg (h(a := x)) pr as nx = dseg h pr as nx"
  by (rule dseg_frame) auto

lemma dseg_dom: "dseg h pr as nx \<Longrightarrow> a \<in> set as \<Longrightarrow> h a \<noteq> None"
  by (induction as arbitrary: pr) auto

lemma vals_simps [simp]: "vals h [] = []" "vals h (a # as) = ln_value (the (h a)) # vals h as"
  "vals h (as @ bs) = vals h as @ vals h bs" "length (vals h as) = length as"
  by (simp_all add: vals_def)

lemma vals_frame: "(\<And>a. a \<in> set as \<Longrightarrow> h' a = h a) \<Longrightarrow> vals h' as = vals h as"
  by (simp add: vals_def)

lemma vals_upd [simp]: "a \<notin> set as \<Longrightarrow> vals (h(a := x)) as = vals h as"
  by (rule vals_frame) auto

text \<open>Redirecting the last forward and the first backward pointer of a segment.\<close>

lemma set_next_final:
  assumes "dseg h pr as nx" "distinct as" "as \<noteq> []"
  obtains h' where "set_next h (final None as) nx' = Some h'" "dseg h' pr as nx'" "vals h' as = vals h as"
    "\<And>a. a \<notin> set as \<Longrightarrow> h' a = h a"
proof -
  obtain bs b where as: "as = bs @ [b]" using assms(3) by (cases as rule: rev_cases) auto
  then obtain v where v: "h b = Some \<lparr>ln_prev = final pr bs, ln_next = nx, ln_value = v\<rparr>" using assms(1) by auto
  show thesis
  proof (rule that)
    show "set_next h (final None as) nx' = Some (h(b \<mapsto> \<lparr>ln_prev = final pr bs, ln_next = nx', ln_value = v\<rparr>))"
      using v by (simp add: set_next_def as)
  qed (use assms as v in auto)
qed

lemma set_prev_first:
  assumes "dseg h pr as nx" "distinct as" "as \<noteq> []"
  obtains h' where "set_prev h (first as None) pr' = Some h'" "dseg h' pr' as nx" "vals h' as = vals h as"
    "\<And>a. a \<notin> set as \<Longrightarrow> h' a = h a"
proof -
  obtain b bs where as: "as = b # bs" using assms(3) by (cases as) auto
  then obtain v where v: "h b = Some \<lparr>ln_prev = pr, ln_next = first bs nx, ln_value = v\<rparr>" using assms(1) by auto
  show thesis
  proof (rule that)
    show "set_prev h (first as None) pr' = Some (h(b \<mapsto> \<lparr>ln_prev = pr', ln_next = first bs nx, ln_value = v\<rparr>))"
      using v by (simp add: set_prev_def as)
  qed (use assms as v in auto)
qed

lemma final_None [simp]: "final None P = None \<longleftrightarrow> P = []"
  by (simp add: final_def)

lemma first_None [simp]: "first Q None = None \<longleftrightarrow> Q = []"
  by (cases Q) auto

lemma final_ex [simp]: "(\<exists>y. final None P = Some y) \<longleftrightarrow> P \<noteq> []"
  by (simp add: final_def)

lemma first_ex [simp]: "(\<exists>y. first Q None = Some y) \<longleftrightarrow> Q \<noteq> []"
  by (cases Q) auto

lemma relink:
  assumes "dseg h None P nx" "dseg h pr Q None" "distinct (P @ Q)"
  shows "\<exists>h1 h2. (if final None P \<noteq> None then set_next h (final None P) t else Some h) = Some h1 \<and>
    (if first Q None \<noteq> None then set_prev h1 (first Q None) s else Some h1) = Some h2 \<and>
    dseg h2 None P t \<and> dseg h2 s Q None \<and> vals h2 P = vals h P \<and> vals h2 Q = vals h Q \<and>
    (\<forall>a. a \<notin> set P \<longrightarrow> h1 a = h a) \<and> (\<forall>a. a \<notin> set P \<union> set Q \<longrightarrow> h2 a = h a)"
proof -
  obtain h1 where h1: "(if final None P \<noteq> None then set_next h (final None P) t else Some h) = Some h1"
    "dseg h1 None P t" "vals h1 P = vals h P" "\<And>a. a \<notin> set P \<Longrightarrow> h1 a = h a"
  proof (cases "P = []")
    case False
    then show ?thesis using set_next_final [OF assms(1), of t] assms(3) that by (auto simp: final_def)
  qed (use that in auto)
  have disj: "\<And>a. a \<in> set Q \<Longrightarrow> a \<notin> set P" "\<And>a. a \<in> set P \<Longrightarrow> a \<notin> set Q" using assms(3) by auto
  have Q: "dseg h1 pr Q None" "vals h1 Q = vals h Q"
    using assms(2) dseg_frame [of Q h1 h] vals_frame [of Q h1 h] h1(4) disj(1) by simp_all
  obtain h2 where h2: "(if first Q None \<noteq> None then set_prev h1 (first Q None) s else Some h1) = Some h2"
    "dseg h2 s Q None" "vals h2 Q = vals h1 Q" "\<And>a. a \<notin> set Q \<Longrightarrow> h2 a = h1 a"
  proof (cases "Q = []")
    case False
    then show ?thesis using set_prev_first [OF Q(1), of s] assms(3) that by auto
  qed (use that in auto)
  have "dseg h2 None P t" "vals h2 P = vals h1 P"
    using h1(2) dseg_frame [of P h2 h1] vals_frame [of P h2 h1] h2(4) disj(2) by simp_all
  then show ?thesis using h1 h2 Q(2) by (intro exI [of _ h1] exI [of _ h2]) auto
qed

section \<open>Correctness of the operations\<close>

lemma list_atD:
  assumes "list_at h l as"
  shows "distinct as" "dseg h None as None" "l_head l = first as None" "l_tail l = final None as" "l_len l = length as"
  using assms by (auto simp: list_at_def)

text \<open>Inserting and removing between two parts of a list.\<close>

lemma insert_between:
  assumes l: "dseg h None (P @ Q) None" "distinct (P @ Q)" and x: "h x = None"
    and h0: "h0 = h(x \<mapsto> \<lparr>ln_prev = final None P, ln_next = first Q None, ln_value = v\<rparr>)"
  shows "\<exists>h1 h2. (if final None P \<noteq> None then set_next h0 (final None P) (Some x) else Some h0) = Some h1 \<and>
    (if first Q None \<noteq> None then set_prev h1 (first Q None) (Some x) else Some h1) = Some h2 \<and>
    dseg h2 None (P @ x # Q) None \<and> distinct (P @ x # Q) \<and> vals h2 (P @ x # Q) = vals h P @ v # vals h Q \<and>
    (\<forall>a. a \<notin> set (P @ x # Q) \<longrightarrow> h2 a = h a)"
proof -
  have nx: "x \<notin> set P" "x \<notin> set Q" using dseg_dom [OF l(1), of x] x by auto
  have "dseg h0 None P (first Q None)" "dseg h0 (final None P) Q None" using l(1) nx by (simp_all add: h0)
  from relink [OF this l(2), where t = "Some x" and s = "Some x"] obtain h1 h2 where
    h: "(if final None P \<noteq> None then set_next h0 (final None P) (Some x) else Some h0) = Some h1"
    "(if first Q None \<noteq> None then set_prev h1 (first Q None) (Some x) else Some h1) = Some h2"
    "dseg h2 None P (Some x)" "dseg h2 (Some x) Q None" "vals h2 P = vals h0 P" "vals h2 Q = vals h0 Q"
    "\<forall>a. a \<notin> set P \<union> set Q \<longrightarrow> h2 a = h0 a" by (elim exE conjE) rule
  have "h2 x = Some \<lparr>ln_prev = final None P, ln_next = first Q None, ln_value = v\<rparr>" using h(7) nx by (simp add: h0)
  then show ?thesis using h nx l(2) by (intro exI [of _ h1] exI [of _ h2]) (auto simp: h0)
qed

lemma delete_between:
  assumes l: "dseg h None (P @ x # Q) None" "distinct (P @ x # Q)"
  shows "\<exists>h1 h2. (if final None P \<noteq> None then set_next h (final None P) (first Q None) else Some h) = Some h1 \<and>
    (if first Q None \<noteq> None then set_prev h1 (first Q None) (final None P) else Some h1) = Some h2 \<and> h1 x = h x \<and>
    dseg (zfree h2 x) None (P @ Q) None \<and> distinct (P @ Q) \<and> vals (zfree h2 x) (P @ Q) = vals h (P @ Q) \<and>
    (\<forall>a. a \<notin> set (P @ x # Q) \<longrightarrow> zfree h2 x a = h a)"
proof -
  have "dseg h None P (Some x)" "dseg h (Some x) Q None" "distinct (P @ Q)" using l by auto
  from relink [OF this, where t = "first Q None" and s = "final None P"] obtain h1 h2 where
    h: "(if final None P \<noteq> None then set_next h (final None P) (first Q None) else Some h) = Some h1"
    "(if first Q None \<noteq> None then set_prev h1 (first Q None) (final None P) else Some h1) = Some h2"
    "dseg h2 None P (first Q None)" "dseg h2 (final None P) Q None" "vals h2 P = vals h P" "vals h2 Q = vals h Q"
    "\<forall>a. a \<notin> set P \<longrightarrow> h1 a = h a" "\<forall>a. a \<notin> set P \<union> set Q \<longrightarrow> h2 a = h a" by (elim exE conjE) rule
  show ?thesis using h l(2) by (intro exI [of _ h1] exI [of _ h2]) (auto simp: zfree_def)
qed

lemma listInsertNode_spec:
  assumes l: "list_at h l (P @ x # Q)" and new: "alloc h = Some node" "h node = None"
  shows "\<exists>h' l'. listInsertNode alloc h l x v after = Some (h', l', True) \<and>
    (if after then list_at h' l' (P @ x # node # Q) \<and> vals h' (P @ x # node # Q) = vals h (P @ [x]) @ v # vals h Q
     else list_at h' l' (P @ node # x # Q) \<and> vals h' (P @ node # x # Q) = vals h P @ v # vals h (x # Q)) \<and>
    (\<forall>a. a \<notin> set (node # P @ x # Q) \<longrightarrow> h' a = h a)"
proof -
  note d = list_atD [OF l]
  obtain w where w: "h x = Some \<lparr>ln_prev = final None P, ln_next = first Q None, ln_value = w\<rparr>" using d(2) by auto
  show ?thesis
  proof (cases after)
    case True
    have "dseg h None ((P @ [x]) @ Q) None" "distinct ((P @ [x]) @ Q)" using d(1,2) by simp_all
    from insert_between [OF this new(2) refl, of v] obtain h1 h2 where
      h: "set_next (h(node \<mapsto> \<lparr>ln_prev = Some x, ln_next = first Q None, ln_value = v\<rparr>)) (Some x) (Some node) = Some h1"
      "(if first Q None \<noteq> None then set_prev h1 (first Q None) (Some node) else Some h1) = Some h2"
      "dseg h2 None ((P @ [x]) @ node # Q) None" "distinct ((P @ [x]) @ node # Q)"
      "vals h2 ((P @ [x]) @ node # Q) = vals h (P @ [x]) @ v # vals h Q"
      "\<forall>a. a \<notin> set ((P @ [x]) @ node # Q) \<longrightarrow> h2 a = h a"
      by (simp del: set_append append_assoc distinct_append dseg_append vals_simps(3)) blast
    have n: "ln_next \<lparr>ln_prev = Some x, ln_next = first Q None, ln_value = v\<rparr> = first Q None" by simp
    have t: "l_tail l = Some x \<longleftrightarrow> Q = []" using d(1,4) by (auto simp: final_def)
    have "listInsertNode alloc h l x v after = Some (h2, (if Q = [] then l\<lparr>l_tail := Some node\<rparr> else l)\<lparr>l_len := l_len l + 1\<rparr>, True)"
      using True new w h(1,2) t by (cases "Q = []") (simp_all add: listInsertNode_def Let_def)
    moreover have "list_at h2 ((if Q = [] then l\<lparr>l_tail := Some node\<rparr> else l)\<lparr>l_len := l_len l + 1\<rparr>) (P @ x # node # Q)"
      unfolding list_at_def using h(3,4) d(3-5) by (cases Q) simp_all
    ultimately show ?thesis using True h(5,6) by auto
  next
    case False
    have "dseg h None (P @ (x # Q)) None" "distinct (P @ (x # Q))" using d(1,2) by simp_all
    from insert_between [OF this new(2) refl, of v] obtain h1 h2 where
      h: "(if final None P \<noteq> None then set_next (h(node \<mapsto> \<lparr>ln_prev = final None P, ln_next = Some x, ln_value = v\<rparr>)) (final None P) (Some node)
          else Some (h(node \<mapsto> \<lparr>ln_prev = final None P, ln_next = Some x, ln_value = v\<rparr>))) = Some h1"
      "set_prev h1 (Some x) (Some node) = Some h2"
      "dseg h2 None (P @ node # x # Q) None" "distinct (P @ node # x # Q)"
      "vals h2 (P @ node # x # Q) = vals h P @ v # vals h (x # Q)"
      "\<forall>a. a \<notin> set (P @ node # x # Q) \<longrightarrow> h2 a = h a"
      unfolding first_simps by (simp only: option.distinct simp_thms if_True) blast
    have t: "l_head l = Some x \<longleftrightarrow> P = []" using d(1,3) by (cases P) auto
    have "listInsertNode alloc h l x v after = Some (h2, (if P = [] then l\<lparr>l_head := Some node\<rparr> else l)\<lparr>l_len := l_len l + 1\<rparr>, True)"
      using False new w h(1,2) t by (cases "P = []") (simp_all add: listInsertNode_def Let_def)
    moreover have "list_at h2 ((if P = [] then l\<lparr>l_head := Some node\<rparr> else l)\<lparr>l_len := l_len l + 1\<rparr>) (P @ node # x # Q)"
      unfolding list_at_def using h(3,4) d(3-5) by (cases P) simp_all
    ultimately show ?thesis using False h(5,6) by auto
  qed
qed

lemma listDelNode_spec:
  assumes l: "list_at h l (P @ x # Q)"
  shows "\<exists>h' l'. listDelNode h l x = Some (h', l') \<and> list_at h' l' (P @ Q) \<and> vals h' (P @ Q) = vals h (P @ Q) \<and>
    h' x = None \<and> (\<forall>a. a \<notin> set (P @ x # Q) \<longrightarrow> h' a = h a)"
proof -
  note d = list_atD [OF l]
  obtain w where w: "h x = Some \<lparr>ln_prev = final None P, ln_next = first Q None, ln_value = w\<rparr>" using d(2) by auto
  from delete_between [OF d(2,1)] obtain h1 h2 where
    h: "(if final None P \<noteq> None then set_next h (final None P) (first Q None) else Some h) = Some h1"
    "(if first Q None \<noteq> None then set_prev h1 (first Q None) (final None P) else Some h1) = Some h2" "h1 x = h x"
    "dseg (zfree h2 x) None (P @ Q) None" "distinct (P @ Q)" "vals (zfree h2 x) (P @ Q) = vals h (P @ Q)"
    "\<forall>a. a \<notin> set (P @ x # Q) \<longrightarrow> zfree h2 x a = h a" by (elim exE conjE) rule
  define l' where "l' = (if Q = [] then (if P = [] then l\<lparr>l_head := first Q None\<rparr> else l)\<lparr>l_tail := final None P\<rparr>
    else (if P = [] then l\<lparr>l_head := first Q None\<rparr> else l))"
  have "listDelNode h l x = Some (zfree h2 x, l'\<lparr>l_len := l_len l - 1\<rparr>)"
  proof -
    have w1: "h1 x = Some \<lparr>ln_prev = final None P, ln_next = first Q None, ln_value = w\<rparr>" using h(3) w by simp
    have e: "P \<noteq> [] \<Longrightarrow> set_next h (final None P) (first Q None) = Some h1" "P = [] \<Longrightarrow> h1 = h"
      "Q \<noteq> [] \<Longrightarrow> set_prev h1 (first Q None) (final None P) = Some h2" "Q = [] \<Longrightarrow> h2 = h1"
      "P = [] \<Longrightarrow> Q \<noteq> [] \<Longrightarrow> set_prev h (first Q None) None = Some h2"
      "P \<noteq> [] \<Longrightarrow> Q = [] \<Longrightarrow> set_next h (final None P) None = Some h1"
      using h(1,2) by simp_all
    show ?thesis
    proof (cases "P = []")
      case True
      then show ?thesis by (cases "Q = []") (simp_all add: listDelNode_def Let_def w w1 e l'_def)
    next
      case False
      then show ?thesis by (cases "Q = []") (simp_all add: listDelNode_def Let_def w w1 e l'_def)
    qed
  qed
  moreover have "list_at (zfree h2 x) (l'\<lparr>l_len := l_len l - 1\<rparr>) (P @ Q)"
    unfolding list_at_def l'_def using h(4,5) d(3-5) by (cases P; cases Q) simp_all
  ultimately show ?thesis using h(6,7) by (auto simp: zfree_def)
qed

lemma listAddNodeHead_spec:
  assumes l: "list_at h l as" and new: "alloc h = Some node" "h node = None"
  shows "\<exists>h' l'. listAddNodeHead alloc h l v = Some (h', l', True) \<and> list_at h' l' (node # as) \<and>
    vals h' (node # as) = v # vals h as \<and> (\<forall>a. a \<notin> set (node # as) \<longrightarrow> h' a = h a)"
proof -
  note d = list_atD [OF l]
  from insert_between [of h "[]" as, OF _ _ new(2) refl, of v, unfolded final_simps append_Nil, OF d(2,1)] obtain h2 where
    h: "(if first as None \<noteq> None then set_prev (h(node \<mapsto> \<lparr>ln_prev = None, ln_next = first as None, ln_value = v\<rparr>)) (first as None) (Some node)
         else Some (h(node \<mapsto> \<lparr>ln_prev = None, ln_next = first as None, ln_value = v\<rparr>))) = Some h2"
    "dseg h2 None (node # as) None" "distinct (node # as)" "vals h2 (node # as) = v # vals h as"
    "\<forall>a. a \<notin> set (node # as) \<longrightarrow> h2 a = h a" by auto
  define l' where "l' = (if as = [] then l\<lparr>l_head := Some node, l_tail := Some node\<rparr> else l\<lparr>l_head := Some node\<rparr>)\<lparr>l_len := l_len l + 1\<rparr>"
  have "listAddNodeHead alloc h l v = Some (h2, l', True)"
    using new h(1) d by (cases "as = []") (simp_all add: listAddNodeHead_def Let_def l'_def)
  moreover have "list_at h2 l' (node # as)" using h(2,3) d by (auto simp: list_at_def l'_def final_def)
  ultimately show ?thesis using h(4,5) by blast
qed

lemma listAddNodeTail_spec:
  assumes l: "list_at h l as" and new: "alloc h = Some node" "h node = None"
  shows "\<exists>h' l'. listAddNodeTail alloc h l v = Some (h', l', True) \<and> list_at h' l' (as @ [node]) \<and>
    vals h' (as @ [node]) = vals h as @ [v] \<and> l_dup l' = l_dup l \<and> l_match l' = l_match l \<and>
    (\<forall>a. a \<notin> set (node # as) \<longrightarrow> h' a = h a)"
proof -
  note d = list_atD [OF l]
  from insert_between [of h as "[]", OF _ _ new(2) refl, of v, unfolded first_simps append_Nil2, OF d(2,1)] obtain h2 where
    h: "(if final None as \<noteq> None then set_next (h(node \<mapsto> \<lparr>ln_prev = final None as, ln_next = None, ln_value = v\<rparr>)) (final None as) (Some node)
         else Some (h(node \<mapsto> \<lparr>ln_prev = final None as, ln_next = None, ln_value = v\<rparr>))) = Some h2"
    "dseg h2 None (as @ [node]) None" "distinct (as @ [node])" "vals h2 (as @ [node]) = vals h as @ [v]"
    "\<forall>a. a \<notin> set (as @ [node]) \<longrightarrow> h2 a = h a" by auto
  define l' where "l' = (if as = [] then l\<lparr>l_head := Some node, l_tail := Some node\<rparr> else l\<lparr>l_tail := Some node\<rparr>)\<lparr>l_len := l_len l + 1\<rparr>"
  have "listAddNodeTail alloc h l v = Some (h2, l', True)"
    using new h(1) d by (cases "as = []") (simp_all add: listAddNodeTail_def Let_def l'_def)
  moreover have "list_at h2 l' (as @ [node])" using h(2,3) d by (cases as) (auto simp: list_at_def l'_def)
  ultimately show ?thesis using h(4,5) by (auto simp: l'_def)
qed

lemma listEmpty_loop_spec:
  "dseg h pr as None \<Longrightarrow> distinct as \<Longrightarrow>
   \<exists>h'. listEmpty_loop h (length as) (first as None) = Some h' \<and>
     (\<forall>a. h' a = (if a \<in> set as then None else h a))"
proof (induction as arbitrary: h pr)
  case (Cons a as)
  then obtain v where v: "h a = Some \<lparr>ln_prev = pr, ln_next = first as None, ln_value = v\<rparr>" by auto
  have "dseg (zfree h a) (Some a) as None" using Cons.prems by (simp add: zfree_def)
  from Cons.IH [OF this] Cons.prems(2) obtain h' where
    h': "listEmpty_loop (zfree h a) (length as) (first as None) = Some h'"
    "\<forall>b. h' b = (if b \<in> set as then None else zfree h a b)" by auto
  have "listEmpty_loop h (length (a # as)) (first (a # as) None) = Some h'" using v h'(1) by simp
  moreover have "\<forall>b. h' b = (if b \<in> set (a # as) then None else h b)" using h'(2) by (simp add: zfree_def)
  ultimately show ?case by blast
qed simp

lemma listEmpty_spec:
  assumes "list_at h l as"
  shows "\<exists>h' l'. listEmpty h l = Some (h', l') \<and> list_at h' l' [] \<and> (\<forall>a. h' a = (if a \<in> set as then None else h a))"
  using listEmpty_loop_spec [of h None as] list_atD [OF assms] by (auto simp: listEmpty_def list_at_def)

lemma listRelease_spec:
  assumes "list_at h l as"
  shows "listRelease h l = Some (\<lambda>a. if a \<in> set as then None else h a)"
  using listEmpty_spec [OF assms] by (auto simp: listRelease_def fun_eq_iff)

text \<open>Following the forward and the backward pointers.\<close>

lemma listIndex_loop_forward:
  "dseg h pr as None \<Longrightarrow> listIndex_loop ln_next h i (first as None) = Some (first (drop i as) None)"
proof (induction as arbitrary: i pr)
  case Nil
  then show ?case by (cases i) auto
next
  case (Cons a as)
  then show ?case by (cases i) auto
qed

lemma listIndex_loop_backward:
  "dseg h None as nx \<Longrightarrow> listIndex_loop ln_prev h i (final None as) = Some (final None (take (length as - i) as))"
proof (induction as arbitrary: i nx rule: rev_induct)
  case Nil
  then show ?case by (cases i) auto
next
  case (snoc a as)
  then show ?case by (cases i) auto
qed

lemma first_drop: "first (drop i as) None = (if i < length as then Some (as ! i) else None)"
  by (cases "i < length as") (simp_all add: Cons_nth_drop_Suc [symmetric])

lemma final_take: "final None (take k as) = (if 0 < k \<and> as \<noteq> [] then Some (as ! (min k (length as) - 1)) else None)"
  by (auto simp: final_def last_conv_nth min_def)

lemma listIndex_spec:
  assumes "list_at h l as"
  shows "listIndex h l index = Some
    (if 0 \<le> index \<and> index < int (length as) then Some (as ! nat index)
     else if index < 0 \<and> - int (length as) \<le> index then Some (as ! nat (int (length as) + index)) else None)"
proof (cases "index < 0")
  case True
  define i where "i = nat (- index - 1)"
  have "listIndex h l index = Some (final None (take (length as - i) as))"
    using listIndex_loop_backward [of h as None i] list_atD [OF assms] True by (simp add: listIndex_def i_def)
  moreover have "i < length as \<longleftrightarrow> - int (length as) \<le> index" using True by (auto simp: i_def)
  moreover have "nat (int (length as) + index) = length as - i - 1" if "i < length as" using that True by (simp add: i_def)
  ultimately show ?thesis using True by (auto simp: final_take)
next
  case False
  then show ?thesis using listIndex_loop_forward [of h None as "nat index"] list_atD [OF assms]
    by (simp add: listIndex_def first_drop) auto
qed

lemma listNext_forward:
  assumes "dseg h pr (a # as) nx"
  shows "listNext h \<lparr>li_next = Some a, li_direction = AL_START_HEAD\<rparr> =
    Some (\<lparr>li_next = first as nx, li_direction = AL_START_HEAD\<rparr>, Some a)"
  using assms by (auto simp: listNext_def)

lemma listSearchKey_loop_spec:
  "dseg h pr as None \<Longrightarrow>
   listSearchKey_loop h l key \<lparr>li_next = first as None, li_direction = AL_START_HEAD\<rparr> =
     Some (find (\<lambda>a. case l_match l of Some match \<Rightarrow> match (ln_value (the (h a))) key
                       | None \<Rightarrow> key = ln_value (the (h a))) as)"
proof (induction as arbitrary: pr)
  case Nil
  then show ?case by (subst listSearchKey_loop.simps) (simp add: listNext_def)
next
  case (Cons a as)
  obtain n where n: "h a = Some n" using Cons.prems by auto
  show ?case using listNext_forward [OF Cons.prems] Cons.IH [of "Some a"] Cons.prems n
    by (subst listSearchKey_loop.simps) (cases "l_match l"; simp)
qed

lemma listSearchKey_spec:
  assumes "list_at h l as"
  shows "listSearchKey h l key =
     Some (find (\<lambda>a. case l_match l of Some match \<Rightarrow> match (ln_value (the (h a))) key
                       | None \<Rightarrow> key = ln_value (the (h a))) as)"
  using listSearchKey_loop_spec [of h None as l key] list_atD [OF assms]
  by (simp add: listSearchKey_def listRewind_def)

section \<open>Duplication\<close>

definition dup_of :: "'v adlist \<Rightarrow> 'v \<Rightarrow> 'v option" where
  "dup_of l v = (case l_dup l of Some dup \<Rightarrow> dup v | None \<Rightarrow> Some v)"

text \<open>What a call of \<open>listDup\<close> does: a fresh copy, or nothing at all.\<close>

definition dup_post :: "'v lheap \<Rightarrow> 'v adlist \<Rightarrow> addr list \<Rightarrow> ('v lheap \<times> 'v adlist option) option \<Rightarrow> bool" where
  "dup_post h l as r \<longleftrightarrow>
     (\<exists>h' c. r = Some (h', c) \<and>
        (case c of
           None \<Rightarrow> h' = h
         | Some l' \<Rightarrow> \<exists>bs. list_at h' l' bs \<and> map Some (vals h' bs) = map (dup_of l) (vals h as) \<and>
                       (\<forall>b\<in>set bs. h b = None) \<and> (\<forall>a. a \<notin> set bs \<longrightarrow> h' a = h a)))"

text \<open>The allocator never returns an address that is in use; it may fail.\<close>

definition alloc_fresh :: "('v lheap \<Rightarrow> addr option) \<Rightarrow> bool" where
  "alloc_fresh alloc \<longleftrightarrow> (\<forall>h p. alloc h = Some p \<longrightarrow> h p = None)"

lemma listDup_loop_spec:
  assumes alloc: "alloc_fresh alloc"
  shows "dseg h pr as None \<Longrightarrow> list_at h1 c bs \<Longrightarrow> l_dup c = l_dup l \<Longrightarrow>
    map Some (vals h1 bs) = map (dup_of l) (vals h as0) \<Longrightarrow> (\<forall>b\<in>set bs. h b = None) \<Longrightarrow>
    (\<forall>a. a \<notin> set bs \<longrightarrow> h1 a = h a) \<Longrightarrow>
    dup_post h l (as0 @ as) (listDup_loop alloc h1 c \<lparr>li_next = first as None, li_direction = AL_START_HEAD\<rparr>)"
proof (induction as arbitrary: pr h1 c bs as0)
  case Nil
  then show ?case by (subst listDup_loop.simps) (auto simp: listNext_def dup_post_def)
next
  case (Cons a as)
  have notin: "b \<notin> set bs" if "b \<in> set (a # as)" for b using dseg_dom [OF Cons.prems(1) that] Cons.prems(5) by auto
  have seg1: "dseg h1 pr (a # as) None"
    using Cons.prems(1,6) notin by (subst dseg_frame [of "a # as" h1 h]) auto
  obtain n where n: "h1 a = Some n" "h a = Some n"
    using seg1 Cons.prems(6) notin by fastforce
  have rel: "dup_post h l xs (Some (\<lambda>a. if a \<in> set bs then None else h1 a, None))" for xs
  proof -
    have "(\<lambda>a. if a \<in> set bs then None else h1 a) = h" using Cons.prems(5,6) by (auto simp: fun_eq_iff)
    then show ?thesis by (simp add: dup_post_def)
  qed
  note next1 = listNext_forward [OF seg1]
  show ?case
  proof (cases "dup_of l (ln_value n)")
    case None
    then have "listDup_loop alloc h1 c \<lparr>li_next = first (a # as) None, li_direction = AL_START_HEAD\<rparr> =
        Some (\<lambda>a. if a \<in> set bs then None else h1 a, None)"
      using next1 n(1) Cons.prems(3) listRelease_spec [OF Cons.prems(2)]
      by (subst listDup_loop.simps) (simp add: dup_of_def)
    then show ?thesis using rel by (simp only:)
  next
    case (Some v)
    show ?thesis
    proof (cases "alloc h1")
      case None
      then have "listDup_loop alloc h1 c \<lparr>li_next = first (a # as) None, li_direction = AL_START_HEAD\<rparr> =
          Some (\<lambda>a. if a \<in> set bs then None else h1 a, None)"
        using next1 n(1) Some Cons.prems(3) listRelease_spec [OF Cons.prems(2)]
        by (subst listDup_loop.simps) (simp add: dup_of_def listAddNodeTail_def)
      then show ?thesis using rel by (simp only:)
    next
      case (Some node)
      have fresh: "h1 node = None" using alloc Some by (simp add: alloc_fresh_def)
      obtain h2 c2 where h2: "listAddNodeTail alloc h1 c v = Some (h2, c2, True)" "list_at h2 c2 (bs @ [node])"
        "vals h2 (bs @ [node]) = vals h1 bs @ [v]" "l_dup c2 = l_dup c" "\<forall>a. a \<notin> set (node # bs) \<longrightarrow> h2 a = h1 a"
        using listAddNodeTail_spec [of h1 c bs alloc node v, OF Cons.prems(2) Some fresh] by blast
      have hn: "h node = None"
      proof (cases "node \<in> set bs")
        case False
        then show ?thesis using Cons.prems(6) fresh by simp
      qed (use Cons.prems(5) in blast)
      have "dup_post h l ((as0 @ [a]) @ as) (listDup_loop alloc h2 c2 \<lparr>li_next = first as None, li_direction = AL_START_HEAD\<rparr>)"
      proof (rule Cons.IH)
        show "dseg h (Some a) as None" using Cons.prems(1) by simp
        show "map Some (vals h2 (bs @ [node])) = map (dup_of l) (vals h (as0 @ [a]))"
          using h2(3) Cons.prems(4) \<open>dup_of l (ln_value n) = Some v\<close> n(2) by simp
      qed (use h2 Cons.prems hn in auto)
      moreover have "listDup_loop alloc h1 c \<lparr>li_next = first (a # as) None, li_direction = AL_START_HEAD\<rparr> =
          listDup_loop alloc h2 c2 \<lparr>li_next = first as None, li_direction = AL_START_HEAD\<rparr>"
        using next1 n(1) \<open>dup_of l (ln_value n) = Some v\<close> Cons.prems(3) h2(1)
        by (subst listDup_loop.simps) (simp add: dup_of_def)
      ultimately show ?thesis by simp
    qed
  qed
qed

lemma listDup_spec:
  assumes "alloc_fresh alloc" "list_at h l as"
  shows "dup_post h l as (listDup alloc h l)"
proof -
  have "list_at h (listCreate\<lparr>l_dup := l_dup l, l_match := l_match l\<rparr>) []" by (simp add: list_at_def listCreate_def)
  moreover note list_atD [OF assms(2)]
  ultimately show ?thesis
    using listDup_loop_spec [of alloc h None as h "listCreate\<lparr>l_dup := l_dup l, l_match := l_match l\<rparr>" "[]" l "[]", OF assms(1)]
    by (simp add: listDup_def listRewind_def)
qed

section \<open>Rotations and concatenation\<close>

lemma listRotateTailToHead_spec:
  assumes l: "list_at h l (P @ [t])"
  shows "\<exists>h' l'. listRotateTailToHead h l = Some (h', l') \<and> list_at h' l' (t # P) \<and>
    vals h' (t # P) = vals h [t] @ vals h P \<and> (\<forall>a. a \<notin> set (t # P) \<longrightarrow> h' a = h a)"
proof (cases "P = []")
  case True
  then show ?thesis using l by (auto simp: listRotateTailToHead_def list_at_def)
next
  case False
  note d = list_atD [OF l]
  have t: "t \<notin> set P" "distinct P" using d(1) by auto
  obtain v where v: "h t = Some \<lparr>ln_prev = final None P, ln_next = None, ln_value = v\<rparr>" using d(2) by auto
  have "dseg h None P (Some t)" using d(2) by simp
  from set_next_final [OF this t(2) False, of None] obtain h1 where h1: "set_next h (final None P) None = Some h1"
    "dseg h1 None P None" "vals h1 P = vals h P" "\<And>a. a \<notin> set P \<Longrightarrow> h1 a = h a" by blast
  from set_prev_first [OF h1(2) t(2) False, of "Some t"] obtain h2 where
    h2: "set_prev h1 (first P None) (Some t) = Some h2" "dseg h2 (Some t) P None" "vals h2 P = vals h1 P"
    "\<And>a. a \<notin> set P \<Longrightarrow> h2 a = h1 a" by blast
  let ?h = "h2(t \<mapsto> \<lparr>ln_prev = None, ln_next = first P None, ln_value = v\<rparr>)"
  let ?l = "l\<lparr>l_tail := final None P, l_head := Some t\<rparr>"
  have hd: "l_head l = first P None" using d(3) False by (cases P) auto
  have "h2 t = h t" using h1(4) h2(4) t(1) by simp
  then have r: "listRotateTailToHead h l = Some (?h, ?l)"
    using h1(1) h2(1) v False d(4,5) hd
    by (simp add: listRotateTailToHead_def deref_def Let_def set_prev_def [of h2] set_next_def [of "h2(t := _)"])
  moreover have "list_at ?h ?l (t # P)" using h2(2) t d False by (simp add: list_at_def final_def)
  moreover have "vals ?h (t # P) = vals h [t] @ vals h P" using h1(3) h2(3) t(1) v by simp
  ultimately show ?thesis using h1(4) h2(4) by (intro exI [of _ ?h] exI [of _ ?l]) auto
qed

lemma listRotateHeadToTail_spec:
  assumes l: "list_at h l (x # Q)"
  shows "\<exists>h' l'. listRotateHeadToTail h l = Some (h', l') \<and> list_at h' l' (Q @ [x]) \<and>
    vals h' (Q @ [x]) = vals h Q @ vals h [x] \<and> (\<forall>a. a \<notin> set (x # Q) \<longrightarrow> h' a = h a)"
proof (cases "Q = []")
  case True
  then show ?thesis using l by (auto simp: listRotateHeadToTail_def list_at_def)
next
  case False
  note d = list_atD [OF l]
  have x: "x \<notin> set Q" "distinct Q" using d(1) by auto
  obtain v where v: "h x = Some \<lparr>ln_prev = None, ln_next = first Q None, ln_value = v\<rparr>" using d(2) by auto
  have "dseg h (Some x) Q None" using d(2) by simp
  from set_prev_first [OF this x(2) False, of None] obtain h1 where h1: "set_prev h (first Q None) None = Some h1"
    "dseg h1 None Q None" "vals h1 Q = vals h Q" "\<And>a. a \<notin> set Q \<Longrightarrow> h1 a = h a" by blast
  from set_next_final [OF h1(2) x(2) False, of "Some x"] obtain h2 where
    h2: "set_next h1 (final None Q) (Some x) = Some h2" "dseg h2 None Q (Some x)" "vals h2 Q = vals h1 Q"
    "\<And>a. a \<notin> set Q \<Longrightarrow> h2 a = h1 a" by blast
  let ?h = "h2(x \<mapsto> \<lparr>ln_prev = final None Q, ln_next = None, ln_value = v\<rparr>)"
  let ?l = "l\<lparr>l_head := first Q None, l_tail := Some x\<rparr>"
  have tl: "l_tail l = final None Q" using d(4) False by (simp add: final_def)
  have "h2 x = h x" using h1(4) h2(4) x(1) by simp
  then have r: "listRotateHeadToTail h l = Some (?h, ?l)"
    using h1(1) h2(1) v False d(3,5) tl
    by (simp add: listRotateHeadToTail_def deref_def Let_def set_next_def [of h2] set_prev_def [of "h2(x := _)"])
  moreover have "list_at ?h ?l (Q @ [x])" using h2(2) x d False by (cases Q) (simp_all add: list_at_def)
  moreover have "vals ?h (Q @ [x]) = vals h Q @ vals h [x]" using h1(3) h2(3) x(1) v by simp
  ultimately show ?thesis using h1(4) h2(4) by (intro exI [of _ ?h] exI [of _ ?l]) auto
qed

lemma listJoin_spec:
  assumes l: "list_at h l as" "list_at h k bs" "set as \<inter> set bs = {}"
  shows "\<exists>h' l' k'. listJoin h l k = Some (h', l', k') \<and> list_at h' l' (as @ bs) \<and> list_at h' k' [] \<and>
    vals h' (as @ bs) = vals h as @ vals h bs \<and> (\<forall>a. a \<notin> set (as @ bs) \<longrightarrow> h' a = h a)"
proof (cases "bs = []")
  case True
  then show ?thesis using l by (auto simp: listJoin_def list_at_def)
next
  case False
  note d = list_atD [OF l(1)] and e = list_atD [OF l(2)]
  from set_prev_first [OF e(2,1) False, of "final None as"] obtain h1 where
    h1: "set_prev h (first bs None) (final None as) = Some h1" "dseg h1 (final None as) bs None" "vals h1 bs = vals h bs"
    "\<And>a. a \<notin> set bs \<Longrightarrow> h1 a = h a" by blast
  have as: "dseg h1 None as None" "vals h1 as = vals h as"
    using d(2) l(3) h1(4) by (subst dseg_frame [of as h1 h] vals_frame [of as h1 h]; auto)+
  obtain h2 where h2: "(if as \<noteq> [] then set_next h1 (final None as) (first bs None) else Some h1) = Some h2"
    "dseg h2 None as (first bs None)" "vals h2 as = vals h1 as" "\<And>a. a \<notin> set as \<Longrightarrow> h2 a = h1 a"
  proof (cases "as = []")
    case False
    then show ?thesis using set_next_final [OF as(1) d(1) False, of "first bs None"] that by auto
  qed (use that in auto)
  have bs: "dseg h2 (final None as) bs None" "vals h2 bs = vals h1 bs"
    using h1(2) l(3) h2(4) by (subst dseg_frame [of bs h2 h1] vals_frame [of bs h2 h1]; auto)+
  define l' where "l' = (if as \<noteq> [] then l else l\<lparr>l_head := first bs None\<rparr>)\<lparr>l_tail := final None bs, l_len := l_len l + l_len k\<rparr>"
  have "listJoin h l k = Some (h2, l', k\<lparr>l_head := None, l_tail := None, l_len := 0\<rparr>)"
    using h1(1) h2(1) False d(4) e(3-5) by (cases "as = []") (simp_all add: listJoin_def Let_def l'_def)
  moreover have "list_at h2 l' (as @ bs)"
    using h2(2) bs(1) d e l(3) False by (cases as) (auto simp: list_at_def l'_def final_def)
  ultimately show ?thesis using as(2) bs(2) h1(3,4) h2(3,4) by (auto simp: list_at_def)
qed

section \<open>Properties\<close>

text \<open>
  C25. \<open>listInsertNode\<close> inserts exactly one node before or after the given one, whichever place in the
  list that is: the nodes are still linked consistently in both directions, head, tail and length
  are right, the other nodes and their values are the same and in the same order, and no memory
  outside the list is touched.
\<close>

theorem listInsertNode_correct:
  assumes "list_at h l (P @ x # Q)" "alloc h = Some node" "h node = None"
  shows "\<exists>h' l'. listInsertNode alloc h l x v after = Some (h', l', True) \<and>
    (if after then list_at h' l' (P @ x # node # Q) \<and> vals h' (P @ x # node # Q) = vals h (P @ [x]) @ v # vals h Q
     else list_at h' l' (P @ node # x # Q) \<and> vals h' (P @ node # x # Q) = vals h P @ v # vals h (x # Q)) \<and>
    (\<forall>a. a \<notin> set (node # P @ x # Q) \<longrightarrow> h' a = h a)"
  using listInsertNode_spec [of h l P x Q alloc node v after, OF assms] .

theorem listInsertNode_correct_witness:
  "\<exists>h' l'. listInsertNode (\<lambda>h. Some 9) [1 \<mapsto> \<lparr>ln_prev = None, ln_next = None, ln_value = 5\<rparr>]
      \<lparr>l_head = Some 1, l_tail = Some 1, l_dup = None, l_match = None, l_len = 1\<rparr> 1 (7 :: nat) True = Some (h', l', True) \<and>
    vals h' [1, 9] = [5, 7]"
  using listInsertNode_correct [of "[1 \<mapsto> \<lparr>ln_prev = None, ln_next = None, ln_value = 5\<rparr>]"
    "\<lparr>l_head = Some 1, l_tail = Some 1, l_dup = None, l_match = None, l_len = 1\<rparr>" "[]" 1 "[]" "\<lambda>h. Some 9" 9 "7 :: nat" True]
  by (auto simp: list_at_def)

text \<open>
  C26. \<open>listDelNode\<close> unlinks exactly the given node, wherever it is in the list, and frees it; the rest
  is linked consistently, with the same values in the same order.
\<close>

theorem listDelNode_correct:
  assumes "list_at h l (P @ x # Q)"
  shows "\<exists>h' l'. listDelNode h l x = Some (h', l') \<and> list_at h' l' (P @ Q) \<and> vals h' (P @ Q) = vals h (P @ Q) \<and>
    h' x = None \<and> (\<forall>a. a \<notin> set (P @ x # Q) \<longrightarrow> h' a = h a)"
  using listDelNode_spec [OF assms] .

theorem listDelNode_correct_witness:
  "\<exists>h' l'. listDelNode [1 \<mapsto> \<lparr>ln_prev = None, ln_next = None, ln_value = 5 :: nat\<rparr>]
      \<lparr>l_head = Some 1, l_tail = Some 1, l_dup = None, l_match = None, l_len = 1\<rparr> 1 = Some (h', l') \<and> l_head l' = None"
  using listDelNode_correct [of "[1 \<mapsto> \<lparr>ln_prev = None, ln_next = None, ln_value = 5 :: nat\<rparr>]"
    "\<lparr>l_head = Some 1, l_tail = Some 1, l_dup = None, l_match = None, l_len = 1\<rparr>" "[]" 1 "[]"]
  by (auto simp: list_at_def)



end
