(* ===== verification/Bitops.thy ===== *)
theory Bitops
  imports Redis_Prelude
begin

text \<open>
  Bit strings (\<open>bitops.c\<close>): bit 0 is the most significant bit of the first byte. A bitmap is the
  list of its bytes, and an access outside it is \<open>None\<close>. Signed 64-bit values are integers; the
  conversions between signed and unsigned values and the additions that may wrap are written out.
\<close>

section \<open>Integers of arbitrary width inside a bitmap\<close>

definition get_byte :: "byte list \<Rightarrow> nat \<Rightarrow> byte option" where
  "get_byte p i = (if i < length p then Some (p ! i) else None)"

text \<open>The loops with the number of bits left, \<open>bits - j\<close>, as the recursion argument.\<close>

primrec setUnsignedBitfield_loop :: "byte list \<Rightarrow> nat \<Rightarrow> u64 \<Rightarrow> nat \<Rightarrow> byte list option" where
  "setUnsignedBitfield_loop p offset v 0 = Some p"
| "setUnsignedBitfield_loop p offset v (Suc n) = do {
     let bitval = (if v AND push_bit n 1 \<noteq> 0 then 1 else 0 :: byte);
     let byte = offset div 8;
     let bt = 7 - offset mod 8;
     byteval \<leftarrow> get_byte p byte;
     let byteval = byteval AND NOT (push_bit bt 1);
     let byteval = byteval OR push_bit bt bitval;
     setUnsignedBitfield_loop (p[byte := byteval]) (offset + 1) v n }"

definition setUnsignedBitfield :: "byte list \<Rightarrow> nat \<Rightarrow> nat \<Rightarrow> u64 \<Rightarrow> byte list option" where
  "setUnsignedBitfield p offset bits v = setUnsignedBitfield_loop p offset v bits"

definition setSignedBitfield :: "byte list \<Rightarrow> nat \<Rightarrow> nat \<Rightarrow> int \<Rightarrow> byte list option" where
  "setSignedBitfield p offset bits v = setUnsignedBitfield p offset bits (of_int v)"

primrec getUnsignedBitfield_loop :: "byte list \<Rightarrow> nat \<Rightarrow> u64 \<Rightarrow> nat \<Rightarrow> u64 option" where
  "getUnsignedBitfield_loop p offset v 0 = Some v"
| "getUnsignedBitfield_loop p offset v (Suc n) = do {
     let byte = offset div 8;
     let bt = 7 - offset mod 8;
     byteval \<leftarrow> get_byte p byte;
     let bitval = drop_bit bt (ucast byteval) AND 1;
     getUnsignedBitfield_loop p (offset + 1) (push_bit 1 v OR bitval) n }"

definition getUnsignedBitfield :: "byte list \<Rightarrow> nat \<Rightarrow> nat \<Rightarrow> u64 option" where
  "getUnsignedBitfield p offset bits = getUnsignedBitfield_loop p offset 0 bits"

definition getSignedBitfield :: "byte list \<Rightarrow> nat \<Rightarrow> nat \<Rightarrow> int option" where
  "getSignedBitfield p offset bits = do {
     v \<leftarrow> getUnsignedBitfield p offset bits;
     Some (sint (if bits < 64 \<and> v AND push_bit (bits - 1) 1 \<noteq> 0 then v OR push_bit bits (- 1) else v)) }"

section \<open>Overflow checks\<close>

datatype bfoverflow = BFOVERFLOW_WRAP | BFOVERFLOW_SAT | BFOVERFLOW_FAIL

definition u64_of :: "int \<Rightarrow> int" where "u64_of v = v mod 2 ^ 64"

definition s64_of :: "int \<Rightarrow> int" where "s64_of v = signed_take_bit 63 v"

text \<open>
  The results are the return value and what is stored in \<open>*limit\<close>, if anything. A signed subtraction
  outside the range of \<open>int64_t\<close>, which C leaves undefined, wraps here, as it does with the compilers
  in use, and a shift by 64 bits leaves the value as it is, as on x86-64. The value and \<open>max\<close> of the unsigned check are unsigned 64-bit integers.
\<close>

definition unsigned_wrap :: "int \<Rightarrow> int \<Rightarrow> nat \<Rightarrow> int" where
  "unsigned_wrap v incr bits =
     (let mask = (if bits < 64 then u64_of (push_bit bits (- 1)) else u64_of (- 1));
          res = u64_of (v + incr)
      in res AND NOT mask)"

definition checkUnsignedBitfieldOverflow ::
  "int \<Rightarrow> int \<Rightarrow> nat \<Rightarrow> bfoverflow \<Rightarrow> int \<times> int option" where
  "checkUnsignedBitfieldOverflow v incr bits owtype =
     (let mx = (if bits = 64 then 2 ^ 64 - 1 else 2 ^ bits - 1);
          maxincr = s64_of (mx - v);
          minincr = s64_of (- v)
      in if v > mx \<or> (incr > 0 \<and> incr > maxincr) then
           (1, case owtype of BFOVERFLOW_WRAP \<Rightarrow> Some (unsigned_wrap v incr bits)
                | BFOVERFLOW_SAT \<Rightarrow> Some mx | BFOVERFLOW_FAIL \<Rightarrow> None)
         else if incr < 0 \<and> incr < minincr then
           (case owtype of BFOVERFLOW_WRAP \<Rightarrow> (1, Some (unsigned_wrap v incr bits))
            | BFOVERFLOW_SAT \<Rightarrow> (- 1, Some 0) | BFOVERFLOW_FAIL \<Rightarrow> (- 1, None))
         else (0, None))"

definition signed_wrap :: "int \<Rightarrow> int \<Rightarrow> nat \<Rightarrow> int" where
  "signed_wrap v incr bits =
     (let msb = (2 :: int) ^ (bits - 1);
          c = u64_of (u64_of v + u64_of incr);
          mask = u64_of (push_bit bits (- 1))
      in s64_of (if bits < 64 then (if c AND msb \<noteq> 0 then c OR mask else c AND NOT mask) else c))"

definition checkSignedBitfieldOverflow ::
  "int \<Rightarrow> int \<Rightarrow> nat \<Rightarrow> bfoverflow \<Rightarrow> int \<times> int option" where
  "checkSignedBitfieldOverflow v incr bits owtype =
     (let mx = (if bits = 64 then 2 ^ 63 - 1 else 2 ^ (bits - 1) - 1);
          mn = (- mx) - 1;
          maxincr = s64_of (mx - v);
          minincr = s64_of (mn - v)
      in if v > mx \<or> (bits \<noteq> 64 \<and> incr > maxincr) \<or> (v \<ge> 0 \<and> incr > 0 \<and> incr > maxincr) then
           (1, case owtype of BFOVERFLOW_WRAP \<Rightarrow> Some (signed_wrap v incr bits)
                | BFOVERFLOW_SAT \<Rightarrow> Some mx | BFOVERFLOW_FAIL \<Rightarrow> None)
         else if v < mn \<or> (bits \<noteq> 64 \<and> incr < minincr) \<or> (v < 0 \<and> incr < 0 \<and> incr < minincr) then
           (case owtype of BFOVERFLOW_WRAP \<Rightarrow> (1, Some (signed_wrap v incr bits))
            | BFOVERFLOW_SAT \<Rightarrow> (- 1, Some mn) | BFOVERFLOW_FAIL \<Rightarrow> (- 1, None))
         else (0, None))"

section \<open>Searching for a bit\<close>

text \<open>
  \<open>align\<close> is the address of the string modulo 8. The first loop goes byte by byte up to an aligned
  address, the second by words of eight bytes; the results are the rest of the string and the
  position, and whether the first loop stopped at a byte that is not all skipped bits.
\<close>

fun bitpos_bytes :: "byte \<Rightarrow> nat \<Rightarrow> byte list \<Rightarrow> int \<Rightarrow> byte list \<times> int \<times> bool" where
  "bitpos_bytes skipval addr [] pos = ([], pos, False)"
| "bitpos_bytes skipval addr (c # cs) pos =
     (if addr mod 8 = 0 then (c # cs, pos, False)
      else if c \<noteq> skipval then (c # cs, pos, True)
      else bitpos_bytes skipval (addr + 1) cs (pos + 8))"

function bitpos_words :: "byte \<Rightarrow> byte list \<Rightarrow> int \<Rightarrow> byte list \<times> int" where
  "bitpos_words skipval cs pos =
     (if length cs \<ge> 8 then
        (if take 8 cs \<noteq> replicate 8 skipval then (cs, pos) else bitpos_words skipval (drop 8 cs) (pos + 64))
      else (cs, pos))"
  by pat_completeness auto
termination by (relation "measure (\<lambda>(s, cs, pos). length cs)") auto

declare bitpos_words.simps [simp del]

primrec bitpos_load :: "nat \<Rightarrow> byte list \<Rightarrow> u64 \<Rightarrow> u64" where
  "bitpos_load 0 cs wrd = wrd"
| "bitpos_load (Suc n) cs wrd =
     (case cs of [] \<Rightarrow> bitpos_load n [] (push_bit 8 wrd)
      | c # cs \<Rightarrow> bitpos_load n cs (push_bit 8 wrd OR ucast c))"

text \<open>The loop \<open>while(one)\<close>: \<open>one\<close> is \<open>2 ^ n\<close> when \<open>n + 1\<close> iterations are left.\<close>

primrec bitpos_scan :: "nat \<Rightarrow> u64 \<Rightarrow> bool \<Rightarrow> int \<Rightarrow> int option" where
  "bitpos_scan 0 wrd bt pos = None"
| "bitpos_scan (Suc n) wrd bt pos =
     (if (push_bit n 1 AND wrd \<noteq> 0) = bt then Some pos else bitpos_scan n wrd bt (pos + 1))"

definition redisBitpos :: "nat \<Rightarrow> byte list \<Rightarrow> bool \<Rightarrow> int option" where
  "redisBitpos align s bt =
     (let skipval = (if bt then 0 else 0xff);
          (cs, pos, found) = bitpos_bytes skipval align s 0;
          (cs, pos) = (if \<not> found then bitpos_words skipval cs pos else (cs, pos));
          wrd = bitpos_load 8 cs 0
      in if bt \<and> wrd = 0 then Some (- 1) else bitpos_scan 64 wrd bt pos)"

section \<open>Bits of a bitmap\<close>

definition bm_bit :: "byte list \<Rightarrow> nat \<Rightarrow> bool" where
  "bm_bit p i \<longleftrightarrow> bit (p ! (i div 8)) (7 - i mod 8)"

lemma test_bit_and: "v AND push_bit n 1 \<noteq> 0 \<longleftrightarrow> bit (v :: 'a :: len word) n" if "n < LENGTH('a)"
proof
  assume "bit v n"
  then have "bit (v AND push_bit n 1) n" using that by (simp add: bit_and_iff bit_exp_iff)
  then show "v AND push_bit n 1 \<noteq> 0" by (metis bit_0_eq bot_apply bot_bool_def)
next
  have "v AND push_bit n 1 = 0" if "\<not> bit v n"
    using that by (intro bit_word_eqI) (auto simp: bit_and_iff bit_exp_iff)
  then show "bit v n" if "v AND push_bit n 1 \<noteq> 0" using that by blast
qed

lemma bm_bit_update:
  assumes "i div 8 < length p"
  shows "bm_bit (p[i div 8 := (p ! (i div 8) AND NOT (push_bit (7 - i mod 8) 1)) OR push_bit (7 - i mod 8) (if b then 1 else 0)]) k =
    (if k = i then b else bm_bit p k)"
proof (cases "k div 8 = i div 8")
  case True
  have "7 - k mod 8 = 7 - i mod 8 \<longleftrightarrow> k = i"
  proof
    assume "7 - k mod 8 = 7 - i mod 8"
    moreover have "k mod 8 \<le> 7" "i mod 8 \<le> 7" by simp_all
    ultimately have "k mod 8 = i mod 8" by arith
    then show "k = i" using True by (metis div_mult_mod_eq)
  qed simp
  moreover have "7 - k mod 8 < 8" "7 - i mod 8 < 8" by simp_all
  ultimately show ?thesis using assms True
    by (cases b) (simp_all add: bm_bit_def bit_or_iff bit_and_iff bit_not_iff bit_exp_iff)
next
  case False
  then show ?thesis by (auto simp: bm_bit_def)
qed

lemma setUnsignedBitfield_loop_spec:
  assumes "n \<le> 64" "offset + n \<le> 8 * length p"
  shows "\<exists>p'. setUnsignedBitfield_loop p offset v n = Some p' \<and> length p' = length p \<and>
    (\<forall>k. bm_bit p' k = (if offset \<le> k \<and> k < offset + n then bit v (offset + n - 1 - k) else bm_bit p k))"
  using assms
proof (induction n arbitrary: p offset)
  case (Suc n)
  let ?p = "p[offset div 8 := (p ! (offset div 8) AND NOT (push_bit (7 - offset mod 8) 1)) OR
      push_bit (7 - offset mod 8) (if bit v n then 1 else 0)]"
  have o: "offset div 8 < length p" using Suc.prems by simp
  obtain p' where p': "setUnsignedBitfield_loop ?p (offset + 1) v n = Some p'" "length p' = length ?p"
    "\<forall>k. bm_bit p' k = (if offset + 1 \<le> k \<and> k < offset + 1 + n then bit v (offset + 1 + n - 1 - k) else bm_bit ?p k)"
    using Suc.IH [of "offset + 1" ?p] Suc.prems by auto
  have "setUnsignedBitfield_loop p offset v (Suc n) = Some p'"
    using p'(1) o Suc.prems(1) test_bit_and [of n v] by (simp add: get_byte_def)
  moreover have "bm_bit p' k = (if offset \<le> k \<and> k < offset + Suc n then bit v (offset + Suc n - 1 - k) else bm_bit p k)" for k
    using p'(3) bm_bit_update [OF o, of "bit v n" k] by (cases "k = offset") auto
  ultimately show ?case using p'(2) by auto
qed auto

lemma getUnsignedBitfield_loop_spec:
  assumes "offset + n \<le> 8 * length p"
  shows "\<exists>w. getUnsignedBitfield_loop p offset v n = Some w \<and>
    (\<forall>k < 64. bit w k = (if k < n then bm_bit p (offset + n - 1 - k) else bit v (k - n)))"
  using assms
proof (induction n arbitrary: offset v)
  case (Suc n)
  have o: "offset div 8 < length p" using Suc.prems by simp
  define v1 where "v1 = push_bit 1 v OR (drop_bit (7 - offset mod 8) (ucast (p ! (offset div 8))) AND 1)"
  obtain w where w: "getUnsignedBitfield_loop p (offset + 1) v1 n = Some w"
    "\<forall>k < 64. bit w k = (if k < n then bm_bit p (offset + 1 + n - 1 - k) else bit v1 (k - n))"
    using Suc.IH [of "offset + 1" v1] Suc.prems by auto
  have v: "bit v1 k = (if k = 0 then bm_bit p offset else bit v (k - 1))" if "k < 64" for k
    unfolding v1_def bit_or_iff bit_and_iff bit_push_bit_iff bit_1_iff bit_drop_bit_eq bit_ucast_iff bm_bit_def using that by auto
  have "bit w k = (if k < Suc n then bm_bit p (offset + Suc n - 1 - k) else bit v (k - Suc n))" if "k < 64" for k
    using w(2) v [of "k - n"] that by (cases k n rule: linorder_cases) auto
  moreover have "getUnsignedBitfield_loop p offset v (Suc n) = Some w"
    using w(1) o by (simp only: getUnsignedBitfield_loop.simps Let_def get_byte_def if_True bind.bind_lunit v1_def)
  ultimately show ?case by blast
qed simp

lemma bitfield_set_get:
  assumes "bits \<le> 64" "offset + bits \<le> 8 * length p"
  obtains p' where "setUnsignedBitfield p offset bits v = Some p'" "length p' = length p"
    "getUnsignedBitfield p' offset bits = Some (take_bit bits v)"
    "\<And>k. k < offset \<or> offset + bits \<le> k \<Longrightarrow> bm_bit p' k = bm_bit p k"
proof -
  obtain p' where p': "setUnsignedBitfield_loop p offset v bits = Some p'" "length p' = length p"
    "\<forall>k. bm_bit p' k = (if offset \<le> k \<and> k < offset + bits then bit v (offset + bits - 1 - k) else bm_bit p k)"
    using setUnsignedBitfield_loop_spec [OF assms, of v] by blast
  obtain w where w: "getUnsignedBitfield_loop p' offset 0 bits = Some w"
    "\<forall>k < 64. bit w k = (if k < bits then bm_bit p' (offset + bits - 1 - k) else bit (0 :: u64) (k - bits))"
    using getUnsignedBitfield_loop_spec [of offset bits p' 0] assms(2) p'(2) by auto
  have "w = take_bit bits v"
  proof (rule bit_word_eqI)
    fix k assume "k < LENGTH(64)"
    then show "bit w k = bit (take_bit bits v) k" using w(2) p'(3) by (auto simp: bit_take_bit_iff)
  qed
  moreover have "bm_bit p' k = bm_bit p k" if "k < offset \<or> offset + bits \<le> k" for k using p'(3) that by auto
  ultimately show thesis
    using that [of p'] p'(1,2) w(1) unfolding setUnsignedBitfield_def getUnsignedBitfield_def by blast
qed

lemma sign_extend:
  assumes "0 < bits" "bits \<le> 64"
  shows "sint (if bits < 64 \<and> take_bit bits w AND push_bit (bits - 1) 1 \<noteq> 0 then take_bit bits w OR push_bit bits (- 1)
               else take_bit bits (w :: u64)) = signed_take_bit (bits - 1) (sint w)"
proof -
  define x where "x = (if bits < 64 \<and> take_bit bits w AND push_bit (bits - 1) 1 \<noteq> 0 then take_bit bits w OR push_bit bits (- 1)
               else take_bit bits w)"
  have b: "take_bit bits w AND push_bit (bits - 1) 1 \<noteq> 0 \<longleftrightarrow> bit w (bits - 1)"
    using assms by (subst test_bit_and) (auto simp: bit_take_bit_iff)
  have "x = signed_take_bit (bits - 1) w"
  proof (rule bit_word_eqI)
    fix k assume k: "k < LENGTH(64)"
    have "bit x k = (if k < bits then bit w k else bits < 64 \<and> bit w (bits - 1))"
      unfolding x_def b using k by (auto simp: bit_or_iff bit_not_iff bit_mask_iff bit_take_bit_iff)
    then show "bit x k = bit (signed_take_bit (bits - 1) w) k"
      using k assms by (cases k "bits - 1" rule: linorder_cases) (auto simp: bit_signed_take_bit_iff min_def)
  qed
  then have "sint x = signed_take_bit (bits - 1) (sint w)" 
    using assms by (intro bit_eqI) (auto simp: bit_sint_iff bit_signed_take_bit_iff min_def)
  then show ?thesis by (simp only: x_def)
qed

lemma u64_of_take: "u64_of v = take_bit 64 v"
  by (simp add: u64_of_def take_bit_eq_mod)

lemma int_test_bit: "(x :: int) AND 2 ^ n \<noteq> 0 \<longleftrightarrow> bit x n"
proof -
  have "x AND 2 ^ n = (if bit x n then 2 ^ n else 0)" by (intro bit_eqI) (auto simp: bit_and_iff bit_exp_iff)
  then show ?thesis by simp
qed

lemma signed_wrap_eq:
  assumes "0 < bits" "bits \<le> 64"
  shows "signed_wrap v incr bits = signed_take_bit (bits - 1) (v + incr)"
proof -
  define c where "c = u64_of (u64_of v + u64_of incr)"
  define m where "m = u64_of (push_bit bits (- 1))"
  have c: "c = take_bit 64 (v + incr)" by (simp add: c_def u64_of_take take_bit_add)
  have m: "bit m k \<longleftrightarrow> bits \<le> k \<and> k < 64" for k
    unfolding m_def u64_of_take by (auto simp: bit_take_bit_iff bit_not_iff bit_mask_iff)
  have t: "c AND 2 ^ (bits - 1) \<noteq> 0 \<longleftrightarrow> bit (v + incr) (bits - 1)"
    unfolding int_test_bit c using assms by (auto simp: bit_take_bit_iff)
  define r where "r = (if bits < 64 then (if c AND 2 ^ (bits - 1) \<noteq> 0 then c OR m else c AND NOT m) else c)"
  have r: "bit r k = (if k < bits then bit (v + incr) k else bits < 64 \<and> k < 64 \<and> bit (v + incr) (bits - 1))" for k
    unfolding r_def t using assms by (auto simp: bit_or_iff bit_and_iff bit_not_iff m c bit_take_bit_iff)
  have "signed_wrap v incr bits = s64_of r"
    unfolding signed_wrap_def Let_def c_def [symmetric] m_def [symmetric] r_def ..
  also have "\<dots> = signed_take_bit (bits - 1) (v + incr)"
  proof (rule bit_eqI)
    fix k
    show "bit (s64_of r) k = bit (signed_take_bit (bits - 1) (v + incr)) k"
    proof (cases "bits = 64")
      case True
      then show ?thesis by (auto simp: s64_of_def bit_signed_take_bit_iff r min_def)
    next
      case False
      then show ?thesis using assms
        by (cases k "bits - 1" rule: linorder_cases) (auto simp: s64_of_def bit_signed_take_bit_iff r min_def)
    qed
  qed
  finally show ?thesis .
qed

lemma unsigned_wrap_eq:
  assumes "bits < 64"
  shows "unsigned_wrap v incr bits = take_bit bits (v + incr)"
proof (rule bit_eqI)
  fix k
  show "bit (unsigned_wrap v incr bits) k = bit (take_bit bits (v + incr)) k"
    using assms by (auto simp: unsigned_wrap_def u64_of_take bit_and_iff bit_not_iff bit_take_bit_iff bit_mask_iff)
qed

lemma s64_of_id: "- (2 ^ 63) \<le> v \<Longrightarrow> v < 2 ^ 63 \<Longrightarrow> s64_of v = v"
  by (simp add: s64_of_def signed_take_bit_int_eq_self_iff)

section \<open>The position of a bit\<close>

text \<open>The bits of a bitmap, padded with zeros on the right.\<close>

definition pad :: "byte list \<Rightarrow> nat \<Rightarrow> bool" where
  "pad s i \<longleftrightarrow> i < 8 * length s \<and> bm_bit s i"

lemma pad_drop: "m \<le> length s \<Longrightarrow> pad (drop m s) i = pad s (8 * m + i)"
  by (auto simp: pad_def bm_bit_def)

lemma pad_Cons: "pad (c # cs) i = (if i < 8 then bit c (7 - i) else pad cs (i - 8))"
proof (cases "i < 8")
  case False
  then have "i div 8 = Suc ((i - 8) div 8)" "i mod 8 = (i - 8) mod 8" by (auto simp: div_if mod_if)
  then show ?thesis using False by (auto simp: pad_def bm_bit_def)
qed (auto simp: pad_def bm_bit_def)

lemma pad_Nil [simp]: "\<not> pad [] i"
  by (simp add: pad_def)

lemma byte_eqI: "(\<And>i. i < 8 \<Longrightarrow> bit c (7 - i) = bit d (7 - i)) \<Longrightarrow> c = (d :: byte)"
proof (rule bit_word_eqI)
  fix n assume a: "\<And>i. i < 8 \<Longrightarrow> bit c (7 - i) = bit d (7 - i)" and "n < LENGTH(8)"
  then show "bit c n = bit d n" using a [of "7 - n"] by simp
qed

abbreviation skip_byte :: "bool \<Rightarrow> byte" where "skip_byte bt \<equiv> (if bt then 0 else 0xff)"

lemma bit_skip: "k < 8 \<Longrightarrow> bit (skip_byte bt) k = (\<not> bt)"
proof -
  assume k: "k < 8"
  have "(0xff :: byte) = mask 8" by (simp add: mask_eq_exp_minus_1)
  then show ?thesis using k bit_mask_iff [where 'a = "8 word", of 8 k] by simp
qed

lemma not_skip_bit: "c \<noteq> skip_byte bt \<Longrightarrow> \<exists>i<8. bit c (7 - i) = bt"
proof (rule ccontr)
  assume c: "c \<noteq> skip_byte bt" and "\<not> (\<exists>i<8. bit c (7 - i) = bt)"
  then have "bit c (7 - i) = bit (skip_byte bt) (7 - i)" if "i < 8" for i
    using that bit_skip [of "7 - i" bt] by auto
  then show False using byte_eqI [of c "skip_byte bt"] c by blast
qed

text \<open>What the skipping loops leave: a suffix whose prefix has no bit of the value looked for.\<close>

definition skipped :: "byte list \<Rightarrow> bool \<Rightarrow> byte list \<Rightarrow> int \<Rightarrow> bool" where
  "skipped s bt cs pos \<longleftrightarrow>
     (\<exists>m \<le> length s. cs = drop m s \<and> pos = int (8 * m) \<and> (\<forall>i < 8 * m. pad s i \<noteq> bt))"

lemma skipped_step:
  assumes "skipped s bt cs pos" "n \<le> length cs" "take n cs = replicate n (skip_byte bt)"
  shows "skipped s bt (drop n cs) (pos + int (8 * n))"
proof -
  obtain m where m: "m \<le> length s" "cs = drop m s" "pos = int (8 * m)" "\<forall>i < 8 * m. pad s i \<noteq> bt"
    using assms(1) by (auto simp: skipped_def)
  have "pad s i \<noteq> bt" if "i < 8 * (m + n)" for i
  proof (cases "i < 8 * m")
    case False
    define k where "k = i - 8 * m"
    have i: "i = 8 * m + k" "k < 8 * n" using False that by (auto simp: k_def)
    then have kn: "k div 8 < n" by auto
    then have "cs ! (k div 8) = take n cs ! (k div 8)" by simp
    then have "cs ! (k div 8) = skip_byte bt" using assms(3) kn by simp
    then have "bit (cs ! (k div 8)) (7 - k mod 8) = (\<not> bt)" using bit_skip [of "7 - k mod 8" bt] by simp
    moreover have "k < 8 * length cs" using i(2) assms(2) by simp
    ultimately have "pad cs k = (\<not> bt)" by (simp add: pad_def bm_bit_def)
    then show ?thesis using pad_drop [OF m(1), of k] m(2) i(1) by simp
  qed (use m(4) in blast)
  then show ?thesis using m assms(2) unfolding skipped_def
    by (intro exI [of _ "m + n"]) (auto simp: add.commute)
qed

lemma bitpos_bytes_spec:
  "skipped s bt cs pos \<Longrightarrow> bitpos_bytes (skip_byte bt) addr cs pos = (cs', pos', found) \<Longrightarrow>
   skipped s bt cs' pos' \<and> (found \<longrightarrow> cs' \<noteq> [] \<and> hd cs' \<noteq> skip_byte bt)"
proof (induction "skip_byte bt" addr cs pos rule: bitpos_bytes.induct)
  case (2 addr c cs pos)
  have "skipped s bt cs (pos + 8)" if "c = skip_byte bt"
    using skipped_step [OF "2.prems"(1), of 1] that by simp
  then show ?case using 2 by (auto split: if_splits)
qed auto

lemma bitpos_words_spec:
  "skipped s bt cs pos \<Longrightarrow> bitpos_words (skip_byte bt) cs pos = (cs', pos') \<Longrightarrow>
   skipped s bt cs' pos' \<and> (8 \<le> length cs' \<longrightarrow> take 8 cs' \<noteq> replicate 8 (skip_byte bt))"
proof (induction "skip_byte bt" cs pos rule: bitpos_words.induct)
  case (1 cs pos)
  have "skipped s bt (drop 8 cs) (pos + 64)" if "8 \<le> length cs" "take 8 cs = replicate 8 (skip_byte bt)"
    using skipped_step [OF "1.prems"(1) that] by simp
  then show ?case using 1 by (auto simp: bitpos_words.simps [of _ cs pos] split: if_splits)
qed

lemma bitpos_load_bit:
  "k < 64 \<Longrightarrow> bit (bitpos_load n cs w) k = (if k < 8 * n then pad cs (8 * n - 1 - k) else bit w (k - 8 * n))"
proof (induction n arbitrary: cs w)
  case (Suc n)
  show ?case
  proof (cases cs)
    case Nil
    then show ?thesis using Suc by (auto simp: bit_push_bit_iff add.commute)
  next
    case (Cons c cs')
    have "bit (push_bit 8 w OR ucast c) j = (if j < 8 then bit c j else bit w (j - 8))" if "j < 64" for j
      unfolding bit_or_iff bit_push_bit_iff bit_ucast_iff using that by (auto dest: bit_imp_le_length)
    then show ?thesis using Suc Cons by (auto simp: pad_Cons add.commute)
  qed
qed simp

lemma bitpos_scan_spec:
  assumes "j < n" "n \<le> 64" "bit w (n - 1 - j) = bt"
  shows "\<exists>i \<le> j. bitpos_scan n w bt pos = Some (pos + int i) \<and> bit w (n - 1 - i) = bt \<and>
    (\<forall>k < i. bit w (n - 1 - k) \<noteq> bt)"
  using assms
proof (induction n arbitrary: j pos)
  case (Suc n)
  have t: "(push_bit n 1 AND w \<noteq> 0) = bit w n" using test_bit_and [of n w] Suc.prems(2) by (simp add: and.commute)
  show ?case
  proof (cases "bit w n = bt")
    case True
    then show ?thesis using t by (intro exI [of _ 0]) auto
  next
    case False
    then have "0 < j" using Suc.prems(3) by (cases j) auto
    have jn: "j - 1 < n" "n \<le> 64" "bit w (n - 1 - (j - 1)) = bt" using \<open>0 < j\<close> Suc.prems by auto
    obtain i where i: "i \<le> j - 1" "bitpos_scan n w bt (pos + 1) = Some (pos + 1 + int i)" "bit w (n - 1 - i) = bt"
      "\<forall>k < i. bit w (n - 1 - k) \<noteq> bt" using Suc.IH [OF jn, of "pos + 1"] by blast
    have "bit w (Suc n - 1 - k) \<noteq> bt" if "k < Suc i" for k
      using that False i(4) by (cases k) auto
    then show ?thesis using i t False \<open>0 < j\<close> by (intro exI [of _ "Suc i"]) auto
  qed
qed simp

lemma pad_first:
  assumes "cs \<noteq> []" "hd cs \<noteq> skip_byte bt"
  shows "\<exists>j<8. pad cs j = bt"
proof -
  obtain i where "i < 8" "bit (hd cs) (7 - i) = bt" using not_skip_bit [OF assms(2)] by blast
  then show ?thesis using assms(1) by (intro exI [of _ i]) (cases cs, auto simp: pad_Cons)
qed

lemma pad_block:
  assumes "8 \<le> length cs" "take 8 cs \<noteq> replicate 8 (skip_byte bt)"
  shows "\<exists>j<64. pad cs j = bt"
proof -
  obtain n where n: "n < 8" "cs ! n \<noteq> skip_byte bt"
    using assms by (auto simp: list_eq_iff_nth_eq)
  then obtain i where i: "i < 8" "bit (cs ! n) (7 - i) = bt" using not_skip_bit by blast
  have "pad cs (8 * n + i) = bt" using n i assms(1) by (auto simp: pad_def bm_bit_def)
  then show ?thesis using n i by (intro exI [of _ "8 * n + i"]) auto
qed

text \<open>The last stage: the word made of the first eight bytes of the rest has a bit of the value looked for, or the rest has none.\<close>

lemma bitpos_last:
  assumes "skipped s bt cs pos" "(\<exists>j<64. pad cs j = bt) \<or> length cs < 8"
  shows "(if bt \<and> bitpos_load 8 cs 0 = 0 then Some (- 1) else bitpos_scan 64 (bitpos_load 8 cs 0) bt pos) =
    (if \<exists>i. pad s i = bt then Some (int (LEAST i. pad s i = bt)) else Some (- 1))"
proof -
  let ?w = "bitpos_load 8 cs 0"
  obtain m where m: "m \<le> length s" "cs = drop m s" "pos = int (8 * m)" "\<forall>i < 8 * m. pad s i \<noteq> bt"
    using assms(1) by (auto simp: skipped_def)
  have p: "pad s (8 * m + i) = pad cs i" for i using pad_drop [OF m(1)] m(2) by simp
  have w: "bit ?w (63 - k) = pad cs k" if "k < 64" for k
    using bitpos_load_bit [of "63 - k" 8 cs 0] that by simp
  show ?thesis
  proof (cases "\<exists>j<64. pad cs j = bt")
    case True
    then obtain j where j: "j < 64" "pad cs j = bt" by blast
    then have b: "bit ?w (63 - j) = bt" using w by simp
    then have nz: "\<not> (bt \<and> ?w = 0)" by auto
    obtain i where i: "i \<le> j" "bitpos_scan 64 ?w bt pos = Some (pos + int i)" "bit ?w (63 - i) = bt"
      "\<forall>k < i. bit ?w (63 - k) \<noteq> bt" using bitpos_scan_spec [of j 64 ?w bt pos] j b by auto
    have "pad s (8 * m + i) = bt" using w [of i] i j p by simp
    moreover have "pad s k \<noteq> bt" if "k < 8 * m + i" for k
    proof (cases "k < 8 * m")
      case False
      then have "k - 8 * m < i" "k - 8 * m < 64" "8 * m + (k - 8 * m) = k" using that i j by auto
      then show ?thesis using i(4) w [of "k - 8 * m"] p [of "k - 8 * m"] by auto
    qed (use m in blast)
    ultimately have "(LEAST i. pad s i = bt) = 8 * m + i" by (intro Least_equality) (auto simp: not_less [symmetric])
    then show ?thesis using i(2) nz m(3) \<open>pad s (8 * m + i) = bt\<close> by auto
  next
    case False
    then have l: "length cs < 8" using assms(2) by blast
    then have bt: "bt" using False by (auto simp: pad_def dest: spec [of _ 63])
    have no: "\<not> pad cs i" for i using False bt l by (cases "i < 64") (auto simp: pad_def)
    then have "\<not> bit ?w k" if "k < 64" for k using w [of "63 - k"] that by simp
    then have "?w = 0" by (intro bit_word_eqI) simp
    moreover have "\<not> pad s i" for i using m(4) bt no p [of "i - 8 * m"] by (cases "i < 8 * m") auto
    ultimately show ?thesis using bt by simp
  qed
qed

section \<open>Properties\<close>

text \<open>
  C20. Storing a signed integer of any width up to 64 bits at any bit offset and reading it back gives
  the same integer, when it is in the range of that width; no other bit of the bitmap changes and
  no access is outside it.
\<close>

theorem bitfield_roundtrip:
  assumes "0 < bits" "bits \<le> 64" "offset + bits \<le> 8 * length p" "int_range bits v"
  shows "\<exists>p'. setSignedBitfield p offset bits v = Some p' \<and> getSignedBitfield p' offset bits = Some v \<and>
    length p' = length p \<and> (\<forall>k. k < offset \<or> offset + bits \<le> k \<longrightarrow> bm_bit p' k = bm_bit p k)"
proof -
  let ?w = "of_int v :: u64"
  obtain p' where p': "setUnsignedBitfield p offset bits ?w = Some p'" "length p' = length p"
    "getUnsignedBitfield p' offset bits = Some (take_bit bits ?w)"
    "\<And>k. k < offset \<or> offset + bits \<le> k \<Longrightarrow> bm_bit p' k = bm_bit p k"
    by (rule bitfield_set_get [OF assms(2,3), of ?w]) blast
  have "signed_take_bit (bits - 1) (sint ?w) = v"
  proof -
    have "sint ?w = signed_take_bit 63 v" by (simp add: signed_of_int)
    then have "signed_take_bit (bits - 1) (sint ?w) = signed_take_bit (bits - 1) v"
      using assms(2) by (simp add: signed_take_bit_signed_take_bit min_absorb1 le_diff_conv)
    then show ?thesis using assms(1,4) by (simp add: signed_take_bit_int_eq_self_iff int_range_def)
  qed
  then have "getSignedBitfield p' offset bits = Some v"
    using p'(3) sign_extend [OF assms(1,2), of ?w] by (simp add: getSignedBitfield_def)
  then show ?thesis using p' by (auto simp: setSignedBitfield_def)
qed

theorem bitfield_roundtrip_witness:
  "\<exists>p'. setSignedBitfield [0, 0xff, 0] 5 9 (- 200) = Some p' \<and> getSignedBitfield p' 5 9 = Some (- 200)"
  using bitfield_roundtrip [of 9 5 "[0, 0xff, 0]" "- 200"] by (auto simp: int_range_def)



text \<open>
  C40. A value far below the range of a narrow signed integer saturates at the wrong end: the difference
  between the maximum and the value overflows and is used before the value is compared with the
  minimum, so that the check reports an overflow and gives the maximum.
\<close>

theorem signed_saturation_wrong_end:
  assumes "0 < bits" "bits < 64" "- (2 ^ 63) \<le> v" "v < 2 ^ (bits - 1) - 2 ^ 63"
  shows "checkSignedBitfieldOverflow v 0 bits BFOVERFLOW_SAT = (1, Some (2 ^ (bits - 1) - 1))"
proof -
  define mx :: int where "mx = 2 ^ (bits - 1) - 1"
  have "(2 :: int) ^ (bits - 1) \<le> 2 ^ 62" using assms(2) by (intro power_increasing) auto
  then have mx: "0 \<le> mx" "mx < 2 ^ 62" by (auto simp: mx_def)
  have v: "- (2 ^ 63) \<le> v" "v < mx + 1 - 2 ^ 63" "mx < 2 ^ 62" "0 \<le> mx" using assms mx by (auto simp: mx_def)
  have "take_bit 64 (mx - v) = take_bit 64 (mx - v - 2 ^ 64)" by (simp add: take_bit_eq_mod)
  then have "s64_of (mx - v) = s64_of (mx - v - 2 ^ 64)"
    by (simp add: s64_of_def signed_take_bit_eq_iff_take_bit_eq)
  also have "\<dots> = mx - v - 2 ^ 64" by (rule s64_of_id) (use v in simp_all)
  also have "\<dots> < 0" using v by simp
  finally show ?thesis using assms(2) by (simp add: checkSignedBitfieldOverflow_def mx_def)
qed

theorem signed_saturation_wrong_end_witness:
  "checkSignedBitfieldOverflow (- 9223372036854775808) 0 8 BFOVERFLOW_SAT = (1, Some 127)"
  using signed_saturation_wrong_end [of 8 "- 9223372036854775808"] by simp

text \<open>
  C21. The search for a bit finds the first one in the order of the bitmap, whatever the alignment of
  the string: bits past the end count as zero, so that looking for a zero in a string of ones
  gives the length in bits, and looking for a one where there is none gives -1.
\<close>

theorem redisBitpos_first:
  "redisBitpos align s bt =
    (if bt then if \<exists>i. pad s i then Some (int (LEAST i. pad s i)) else Some (- 1)
     else Some (int (LEAST i. \<not> pad s i)))"
proof -
  obtain cs pos found where b: "bitpos_bytes (skip_byte bt) align s 0 = (cs, pos, found)"
    by (cases "bitpos_bytes (skip_byte bt) align s 0") auto
  obtain cs' pos' where w: "(if \<not> found then bitpos_words (skip_byte bt) cs pos else (cs, pos)) = (cs', pos')"
    by fastforce
  have "skipped s bt s 0" by (simp add: skipped_def)
  note b' = bitpos_bytes_spec [OF this b]
  have "skipped s bt cs' pos' \<and> ((\<exists>j<64. pad cs' j = bt) \<or> length cs' < 8)"
  proof (cases found)
    case True
    then obtain j where "j < 8" "pad cs j = bt" using b' pad_first by blast
    then show ?thesis using True w b' by (auto intro!: exI [of _ j])
  next
    case False
    then show ?thesis using bitpos_words_spec [of s bt cs pos cs' pos'] b' w pad_block [of cs' bt]
      by (auto simp: not_less)
  qed
  then have "redisBitpos align s bt =
      (if \<exists>i. pad s i = bt then Some (int (LEAST i. pad s i = bt)) else Some (- 1))"
    using bitpos_last [of s bt cs' pos'] b w by (simp add: redisBitpos_def)
  moreover have "\<exists>i. \<not> pad s i" by (auto simp: pad_def)
  ultimately show ?thesis by (cases bt) auto
qed

end
