(* ===== verification/Bitop.thy ===== *)
theory Bitop
  imports Bitops
begin

text \<open>
  The kernel of \<open>BITOP\<close> and of \<open>BITCOUNT\<close> (\<open>bitops.c\<close>). The sources are the strings at the keys, \<open>None\<close> for
  a missing key. The result of \<open>BITOP\<close> is computed four words at a time as far as all sources reach,
  and byte by byte afterwards; a word is read and written as eight little-endian bytes. The target
  string is \<open>None\<close> when all sources are empty.
\<close>

section \<open>BITOP\<close>

datatype bitop_op = BITOP_AND | BITOP_OR | BITOP_XOR | BITOP_NOT

text \<open>
  The lengths of the longest and the shortest source, \<open>first\<close> for \<open>j == 0\<close>. All keys that exist hold
  strings: for a key of another type the command has returned with an error before any computation.
\<close>

fun bitop_lens :: "byte list option list \<Rightarrow> bool \<Rightarrow> nat \<Rightarrow> nat \<Rightarrow> nat \<times> nat" where
  "bitop_lens [] first maxlen minlen = (maxlen, minlen)"
| "bitop_lens (None # objects) first maxlen minlen = bitop_lens objects False maxlen 0"
| "bitop_lens (Some s # objects) first maxlen minlen =
     bitop_lens objects False (if length s > maxlen then length s else maxlen)
       (if first \<or> length s < minlen then length s else minlen)"

primrec bit_op :: "bitop_op \<Rightarrow> 'a :: len word \<Rightarrow> 'a word \<Rightarrow> 'a word" where
  "bit_op BITOP_AND a b = a AND b"
| "bit_op BITOP_OR a b = a OR b"
| "bit_op BITOP_XOR a b = a XOR b"
| "bit_op BITOP_NOT a b = NOT a"

definition load_ulong :: "byte list \<Rightarrow> nat \<Rightarrow> u64 option" where
  "load_ulong m i = map_option (\<lambda>bs. word_of_int (le_val bs)) (mload m (int i) 8)"

definition store_ulong :: "byte list \<Rightarrow> nat \<Rightarrow> u64 \<Rightarrow> byte list option" where
  "store_ulong m i w = mstore m (int i) (le_bytes 8 (uint w))"

text \<open>\<open>n\<close> words at offset \<open>j\<close> of the result, combined with those of a source, or complemented.\<close>

primrec words_op :: "nat \<Rightarrow> bitop_op \<Rightarrow> byte list \<Rightarrow> byte list \<Rightarrow> nat \<Rightarrow> byte list option" where
  "words_op 0 op res s j = Some res"
| "words_op (Suc n) op res s j = do {
     a \<leftarrow> load_ulong res j;
     b \<leftarrow> (if op = BITOP_NOT then Some 0 else load_ulong s j);
     res \<leftarrow> store_ulong res j (bit_op op a b);
     words_op n op res s (j + 8) }"

fun words_sources :: "bitop_op \<Rightarrow> byte list \<Rightarrow> byte list list \<Rightarrow> nat \<Rightarrow> byte list option" where
  "words_sources op res [] j = Some res"
| "words_sources op res (s # ss) j = do {
     res \<leftarrow> words_op 4 op res s j;
     words_sources op res ss j }"

function bitop_fast :: "bitop_op \<Rightarrow> byte list list \<Rightarrow> byte list \<Rightarrow> nat \<Rightarrow> nat \<Rightarrow> (byte list \<times> nat) option" where
  "bitop_fast op src res j minlen =
     (if minlen \<ge> 32 then do {
        res \<leftarrow> (if op = BITOP_NOT then words_op 4 op res [] j else words_sources op res (tl src) j);
        bitop_fast op src res (j + 32) (minlen - 32) }
      else Some (res, j))"
  by pat_completeness auto
termination
  by (relation "measure (\<lambda>(op, src, res, j, minlen). minlen)") auto

declare bitop_fast.simps [simp del]

definition byte_at :: "byte list \<Rightarrow> nat \<Rightarrow> byte" where
  "byte_at s j = (if length s \<le> j then 0 else s ! j)"

fun bitop_byte :: "bitop_op \<Rightarrow> nat \<Rightarrow> byte \<Rightarrow> byte list list \<Rightarrow> byte" where
  "bitop_byte op j output [] = output"
| "bitop_byte op j output (s # ss) =
     (let byte = byte_at s j;
          output = (if op = BITOP_NOT then output else bit_op op output byte);
          skip = (case op of BITOP_AND \<Rightarrow> output = 0 | BITOP_OR \<Rightarrow> output = 0xff | _ \<Rightarrow> False)
      in if skip then output else bitop_byte op j output ss)"

function bitop_slow :: "bitop_op \<Rightarrow> byte list list \<Rightarrow> byte list \<Rightarrow> nat \<Rightarrow> nat \<Rightarrow> byte list option" where
  "bitop_slow op src res j maxlen =
     (if j < maxlen then
        (let output = byte_at (hd src) j;
             output = (if op = BITOP_NOT then NOT output else output);
             output = bitop_byte op j output (tl src)
         in if j < length res then bitop_slow op src (res[j := output]) (j + 1) maxlen else None)
      else Some res)"
  by pat_completeness auto
termination
  by (relation "measure (\<lambda>(op, src, res, j, maxlen). maxlen - j)") auto

declare bitop_slow.simps [simp del]

definition bitop_compute :: "bitop_op \<Rightarrow> byte list option list \<Rightarrow> byte list option option" where
  "bitop_compute op objects =
     (let (maxlen, minlen) = bitop_lens objects True 0 0;
          src = map (\<lambda>p. case p of None \<Rightarrow> [] | Some s \<Rightarrow> s) objects
      in if maxlen = 0 then Some None
         else do {
           let res = replicate maxlen 0;
           (res, j) \<leftarrow>
             (if minlen \<ge> 32 \<and> length objects \<le> 16 then do {
                bs \<leftarrow> mload (hd src) 0 minlen;
                res \<leftarrow> mstore res 0 bs;
                bitop_fast op src res 0 minlen }
              else Some (res, 0));
           res \<leftarrow> bitop_slow op src res j maxlen;
           Some (Some res) })"

section \<open>Words are bytes\<close>

lemma le_bytes_nth: "i < n \<Longrightarrow> le_bytes n v ! i = word_of_int (v div 256 ^ i)"
proof (induction n arbitrary: v i)
  case (Suc n)
  then show ?case by (cases i) (auto simp: zdiv_zmult2_eq)
qed simp

lemma byte_div: "(word_of_int (v div 256 ^ i) :: byte) = word_of_int (drop_bit (8 * i) v)"
  by (simp add: drop_bit_eq_div pow256)

lemma le_bytes_bit_op:
  assumes "i < 8"
  shows "le_bytes 8 (uint (bit_op op (a :: u64) b)) ! i = bit_op op (le_bytes 8 (uint a) ! i) (le_bytes 8 (uint b) ! i)"
proof -
  have "bit (word_of_int (drop_bit (8 * i) (uint w)) :: byte) k = (k < 8 \<and> bit w (8 * i + k))" for k and w :: u64
    using bit_imp_le_length [of w "8 * i + k"] by (auto simp: bit_word_of_int_iff bit_drop_bit_eq bit_uint_iff)
  then show ?thesis using assms
    by (cases op) (auto simp: le_bytes_nth byte_div bit_and_iff bit_or_iff bit_xor_iff bit_not_iff intro!: bit_word_eqI)
qed

lemma load_ulong_ok: "j + 8 \<le> length m \<Longrightarrow> \<exists>w. load_ulong m j = Some w \<and> le_bytes 8 (uint w) = take 8 (drop j m)"
proof -
  assume l: "j + 8 \<le> length m"
  define bs where "bs = take 8 (drop j m)"
  have bs: "length bs = 8" using l by (simp add: bs_def)
  have "uint (word_of_int (le_val bs) :: u64) = le_val bs"
    using le_val_bounds [of bs] bs by (simp add: uint_word_of_int)
  then show ?thesis using l le_bytes_le_val [of bs] bs by (simp add: load_ulong_def mload_def bs_def [symmetric])
qed

text \<open>The effect of a word operation on each byte.\<close>

definition block :: "bitop_op \<Rightarrow> nat \<Rightarrow> nat \<Rightarrow> byte list \<Rightarrow> byte list \<Rightarrow> byte list \<Rightarrow> bool" where
  "block op j n s res res' \<longleftrightarrow> length res' = length res \<and>
     (\<forall>i < length res. res' ! i = (if j \<le> i \<and> i < j + n then bit_op op (res ! i) (byte_at s i) else res ! i))"

lemma words_op_spec:
  assumes "j + 8 * n \<le> length res" "op = BITOP_NOT \<or> j + 8 * n \<le> length s"
  shows "\<exists>res'. words_op n op res s j = Some res' \<and> block op j (8 * n) s res res'"
  using assms
proof (induction n arbitrary: res j)
  case 0
  then show ?case by (auto simp: block_def)
next
  case (Suc n)
  obtain a where a: "load_ulong res j = Some a" "le_bytes 8 (uint a) = take 8 (drop j res)"
    using load_ulong_ok [of j res] Suc.prems(1) by auto
  obtain b where b: "(if op = BITOP_NOT then Some 0 else load_ulong s j) = Some b"
    "op \<noteq> BITOP_NOT \<Longrightarrow> le_bytes 8 (uint b) = take 8 (drop j s)"
    using load_ulong_ok [of j s] Suc.prems(2) by (cases "op = BITOP_NOT") auto
  define ws where "ws = le_bytes 8 (uint (bit_op op a b))"
  define r1 where "r1 = take j res @ ws @ drop (j + 8) res"
  have st: "store_ulong res j (bit_op op a b) = Some r1"
    using Suc.prems(1) by (simp add: store_ulong_def mstore_def ws_def [symmetric] r1_def) (simp add: ws_def)
  have w: "ws ! i = bit_op op (res ! (j + i)) (byte_at s (j + i))" if "i < 8" for i
  proof -
    have "take 8 (drop j res) ! i = res ! (j + i)" using that Suc.prems(1) by simp
    moreover have "take 8 (drop j s) ! i = byte_at s (j + i)" if "op \<noteq> BITOP_NOT"
      using \<open>i < 8\<close> that Suc.prems(2) by (auto simp: byte_at_def)
    ultimately show ?thesis unfolding ws_def le_bytes_bit_op [OF that] a(2) using b(2) by (cases op) auto
  qed
  have l1: "length r1 = length res" using Suc.prems(1) by (simp add: r1_def ws_def)
  have b1: "r1 ! i = (if j \<le> i \<and> i < j + 8 then bit_op op (res ! i) (byte_at s i) else res ! i)" if "i < length res" for i
    using that Suc.prems(1) w [of "i - j"] by (auto simp: r1_def nth_append ws_def)
  obtain r2 where r2: "words_op n op r1 s (j + 8) = Some r2" "block op (j + 8) (8 * n) s r1 r2"
    using Suc.IH [of "j + 8" r1] Suc.prems l1 by auto
  have "r2 ! i = (if j \<le> i \<and> i < j + 8 * Suc n then bit_op op (res ! i) (byte_at s i) else res ! i)" if "i < length res" for i
    using r2(2) b1 [OF that] that l1 by (auto simp: block_def)
  then show ?case using a(1) b(1) st r2 l1 by (auto simp: block_def)
qed

text \<open>One byte of the result, by the reference definition.\<close>

definition comb :: "bitop_op \<Rightarrow> byte list list \<Rightarrow> nat \<Rightarrow> byte" where
  "comb op src i = (if op = BITOP_NOT then NOT (byte_at (hd src) i)
     else foldl (bit_op op) (byte_at (hd src) i) (map (\<lambda>s. byte_at s i) (tl src)))"

lemma words_sources_spec:
  assumes "j + 32 \<le> length res" "op \<noteq> BITOP_NOT" "\<forall>s \<in> set ss. j + 32 \<le> length s"
  shows "\<exists>res'. words_sources op res ss j = Some res' \<and> length res' = length res \<and>
    (\<forall>i < length res. res' ! i = (if j \<le> i \<and> i < j + 32 then foldl (bit_op op) (res ! i) (map (\<lambda>s. byte_at s i) ss) else res ! i))"
  using assms
proof (induction ss arbitrary: res)
  case (Cons s ss)
  obtain r1 where r1: "words_op 4 op res s j = Some r1" "block op j 32 s res r1"
    using words_op_spec [of j 4 res op s] Cons.prems by auto
  then obtain r2 where "words_sources op r1 ss j = Some r2" "length r2 = length r1"
    "\<forall>i < length r1. r2 ! i = (if j \<le> i \<and> i < j + 32 then foldl (bit_op op) (r1 ! i) (map (\<lambda>s. byte_at s i) ss) else r1 ! i)"
    using Cons.IH [of r1] Cons.prems by (auto simp: block_def)
  then show ?case using r1 by (auto simp: block_def simp del: words_op.simps)
qed simp

lemma bitop_byte_comb:
  "bitop_byte op i out ss = (if op = BITOP_NOT then out else foldl (bit_op op) out (map (\<lambda>s. byte_at s i) ss))"
proof -
  have o: "(bit_op BITOP_AND :: byte \<Rightarrow> byte \<Rightarrow> byte) = (AND)" "(bit_op BITOP_OR :: byte \<Rightarrow> byte \<Rightarrow> byte) = (OR)"
    by (simp_all add: fun_eq_iff)
  have z: "foldl (AND) (0 :: byte) xs = 0" "foldl (OR) (255 :: byte) xs = 255" for xs
  proof (induction xs)
    case (Cons x xs)
    have m: "(255 :: byte) = - 1" "- 1 OR x = - 1" by simp_all
    then have "(255 :: byte) OR x = 255" by (simp only: m)
    then show "foldl (AND) (0 :: byte) (x # xs) = 0" "foldl (OR) (255 :: byte) (x # xs) = 255"
      using Cons by simp_all
  qed simp_all
  show ?thesis
  proof (induction ss arbitrary: out)
    case (Cons s ss)
    then show ?case using z by (cases op) (auto simp: Let_def o)
  qed simp
qed

section \<open>The two paths\<close>

lemma bitop_fast_spec:
  assumes "src \<noteq> []" "op = BITOP_NOT \<longrightarrow> length src = 1" "\<forall>s \<in> set src. j + m \<le> length s" "j + m \<le> length res"
    "\<forall>i < j. res ! i = comb op src i" "\<forall>i. j \<le> i \<and> i < j + m \<longrightarrow> res ! i = hd src ! i"
  shows "\<exists>res' j'. bitop_fast op src res j m = Some (res', j') \<and> length res' = length res \<and> j' \<le> length res \<and>
    (\<forall>i < j'. res' ! i = comb op src i)"
  using assms(3-)
proof (induction m arbitrary: j res rule: less_induct)
  case (less m)
  show ?case
  proof (cases "m \<ge> 32")
    case False
    then show ?thesis using less.prems by (subst bitop_fast.simps) auto
  next
    case True
    have hd: "hd src \<in> set src" "\<forall>s \<in> set (tl src). s \<in> set src" using assms(1) by (auto dest: list.set_sel(2))
    obtain r1 where r1: "(if op = BITOP_NOT then words_op 4 op res [] j else words_sources op res (tl src) j) = Some r1"
      "length r1 = length res" "\<And>i. i < length res \<Longrightarrow> r1 ! i = (if j \<le> i \<and> i < j + 32 then
         (if op = BITOP_NOT then NOT (res ! i) else foldl (bit_op op) (res ! i) (map (\<lambda>s. byte_at s i) (tl src))) else res ! i)"
    proof (cases "op = BITOP_NOT")
      case not: True
      obtain r1 where "words_op 4 op res [] j = Some r1" "block op j 32 [] res r1"
        using words_op_spec [of j 4 res op "[]"] less.prems(2) True not by auto
      then show ?thesis using that [of r1] not by (auto simp: block_def simp del: words_op.simps)
    next
      case False
      have "\<forall>s \<in> set (tl src). j + 32 \<le> length s" using less.prems(1) hd(2) True by fastforce
      then obtain r1 where "words_sources op res (tl src) j = Some r1" "length r1 = length res"
        "\<forall>i < length res. r1 ! i = (if j \<le> i \<and> i < j + 32 then foldl (bit_op op) (res ! i) (map (\<lambda>s. byte_at s i) (tl src)) else res ! i)"
        using words_sources_spec [of j res op "tl src"] less.prems(2) True False by auto
      then show ?thesis using that [of r1] False by simp
    qed
    have at: "res ! i = byte_at (hd src) i" if "j \<le> i" "i < j + m" for i
      using less.prems(1,4) that hd(1) by (auto simp: byte_at_def)
    have "r1 ! i = comb op src i" if "i < j + 32" for i
      using that r1(3) [of i] less.prems(2,3) True at [of i] by (cases "i < j") (auto simp: comb_def)
    moreover have "r1 ! i = hd src ! i" if "j + 32 \<le> i" "i < j + 32 + (m - 32)" for i
      using that r1(3) [of i] less.prems(2,4) True by auto
    moreover have "\<forall>s \<in> set src. j + 32 + (m - 32) \<le> length s" "j + 32 + (m - 32) \<le> length r1"
      using less.prems(1,2) True r1(2) by auto
    ultimately obtain res' j' where "bitop_fast op src r1 (j + 32) (m - 32) = Some (res', j')" "length res' = length r1"
      "j' \<le> length r1" "\<forall>i < j'. res' ! i = comb op src i"
      using less.IH [of "m - 32" "j + 32" r1] True by auto
    then show ?thesis using True r1(1,2) by (subst bitop_fast.simps) auto
  qed
qed

lemma bitop_slow_spec:
  assumes "length res = maxlen" "op = BITOP_NOT \<longrightarrow> tl src = []" "\<forall>i < j. res ! i = comb op src i" "j \<le> maxlen"
  shows "bitop_slow op src res j maxlen = Some (map (comb op src) [0..<maxlen])"
  using assms(1,3,4)
proof (induction "maxlen - j" arbitrary: j res)
  case 0
  then have "res = map (comb op src) [0..<maxlen]" by (intro nth_equalityI) auto
  then show ?case using 0 by (subst bitop_slow.simps) simp
next
  case (Suc n)
  define out where "out = bitop_byte op j (if op = BITOP_NOT then NOT (byte_at (hd src) j) else byte_at (hd src) j) (tl src)"
  have "out = comb op src j" using assms(2) by (auto simp: out_def bitop_byte_comb comb_def)
  then have "bitop_slow op src (res[j := out]) (j + 1) maxlen = Some (map (comb op src) [0..<maxlen])"
    using Suc.hyps(2) Suc.prems by (intro Suc.hyps(1)) (auto simp: nth_list_update)
  moreover have "j < maxlen" using Suc.hyps(2) by simp
  ultimately show ?case using Suc.prems(1) by (subst bitop_slow.simps) (simp add: Let_def out_def [symmetric])
qed

definition src_of :: "byte list option \<Rightarrow> byte list" where
  "src_of p = (case p of None \<Rightarrow> [] | Some s \<Rightarrow> s)"

lemma bitop_lens_spec:
  assumes "bitop_lens objects first maxlen minlen = (maxlen', minlen')" "minlen \<le> maxlen"
  shows "maxlen \<le> maxlen' \<and> minlen' \<le> maxlen' \<and> (\<forall>p \<in> set objects. minlen' \<le> length (src_of p) \<and> length (src_of p) \<le> maxlen') \<and>
    (maxlen' = maxlen \<or> maxlen' \<in> (length \<circ> src_of) ` set objects) \<and> (\<not> first \<longrightarrow> minlen' \<le> minlen)"
  using assms
proof (induction objects first maxlen minlen rule: bitop_lens.induct)
  case (2 objects first maxlen minlen)
  then have "maxlen \<le> maxlen' \<and> minlen' \<le> maxlen' \<and> (\<forall>p \<in> set objects. minlen' \<le> length (src_of p) \<and> length (src_of p) \<le> maxlen') \<and>
    (maxlen' = maxlen \<or> maxlen' \<in> (length \<circ> src_of) ` set objects) \<and> minlen' \<le> 0" by auto
  then show ?case by (auto simp: src_of_def)
next
  case (3 s objects first maxlen minlen)
  let ?mx = "if length s > maxlen then length s else maxlen"
  let ?mn = "if first \<or> length s < minlen then length s else minlen"
  have "?mx \<le> maxlen' \<and> minlen' \<le> maxlen' \<and> (\<forall>p \<in> set objects. minlen' \<le> length (src_of p) \<and> length (src_of p) \<le> maxlen') \<and>
    (maxlen' = ?mx \<or> maxlen' \<in> (length \<circ> src_of) ` set objects) \<and> (\<not> False \<longrightarrow> minlen' \<le> ?mn)"
    using 3(2,3) by (intro 3(1)) auto
  then show ?case by (auto simp: src_of_def split: if_splits)
qed auto

lemma bitop_compute_spec:
  assumes "objects \<noteq> []" "op = BITOP_NOT \<longrightarrow> length objects = 1"
  defines "src \<equiv> map src_of objects"
  shows "\<exists>res. bitop_compute op objects = Some (if res = [] then None else Some res) \<and> length res = Max (length ` set src) \<and>
    (\<forall>i < length res. res ! i = comb op src i)"
proof -
  obtain maxlen minlen where l: "bitop_lens objects True 0 0 = (maxlen, minlen)" by fastforce
  note ls = bitop_lens_spec [OF l le_refl]
  have src: "src \<noteq> []" "map (\<lambda>p. case p of None \<Rightarrow> [] | Some s \<Rightarrow> s) objects = src" "length src = length objects"
    using assms(1) by (simp_all add: src_def src_of_def)
  have mx: "maxlen = Max (length ` set src)"
  proof (rule Max_eqI [symmetric])
    show "maxlen \<in> length ` set src"
    proof (cases "maxlen = 0")
      case True
      obtain p where "p \<in> set objects" using assms(1) by (cases objects) auto
      then have "length (src_of p) = maxlen" using ls True by auto
      then show ?thesis using \<open>p \<in> set objects\<close> by (force simp: src_def)
    next
      case False
      then show ?thesis using ls by (auto simp: src_def)
    qed
  qed (use ls in \<open>auto simp: src_def\<close>)
  show ?thesis
  proof (cases "maxlen = 0")
    case True
    then show ?thesis using l mx by (intro exI [of _ "[]"]) (simp add: bitop_compute_def)
  next
    case False
    have st: "\<exists>res j. (if minlen \<ge> 32 \<and> length objects \<le> 16 then do {
          bs \<leftarrow> mload (hd src) 0 minlen;
          res \<leftarrow> mstore (replicate maxlen 0) 0 bs;
          bitop_fast op src res 0 minlen }
        else Some (replicate maxlen 0, 0)) = Some (res, j) \<and> length res = maxlen \<and> j \<le> maxlen \<and> (\<forall>i < j. res ! i = comb op src i)"
    proof (cases "minlen \<ge> 32 \<and> length objects \<le> 16")
      case True
      have h: "\<forall>s \<in> set src. minlen \<le> length s" "minlen \<le> maxlen" using ls by (auto simp: src_def)
      then have hd: "minlen \<le> length (hd src)" using src(1) by auto
      define r0 where "r0 = take minlen (hd src) @ drop minlen (replicate maxlen (0 :: byte))"
      have r0: "mload (hd src) 0 minlen = Some (take minlen (hd src))" "mstore (replicate maxlen 0) 0 (take minlen (hd src)) = Some r0"
        using hd h(2) by (simp_all add: mload_def mstore_def r0_def)
      have "\<exists>res' j'. bitop_fast op src r0 0 minlen = Some (res', j') \<and> length res' = length r0 \<and> j' \<le> length r0 \<and>
          (\<forall>i < j'. res' ! i = comb op src i)"
        using src assms(2) h hd by (intro bitop_fast_spec) (auto simp: r0_def nth_append)
      moreover have "length r0 = maxlen" using hd h(2) by (simp add: r0_def)
      ultimately show ?thesis using True r0 by simp
    qed auto
    then obtain res j where r: "(if minlen \<ge> 32 \<and> length objects \<le> 16 then do {
          bs \<leftarrow> mload (hd src) 0 minlen;
          res \<leftarrow> mstore (replicate maxlen 0) 0 bs;
          bitop_fast op src res 0 minlen }
        else Some (replicate maxlen 0, 0)) = Some (res, j)" "length res = maxlen" "j \<le> maxlen" "\<forall>i < j. res ! i = comb op src i"
      by blast
    have "op = BITOP_NOT \<longrightarrow> tl src = []" using assms(2) src(3) by (cases src) auto
    then have "bitop_slow op src res j maxlen = Some (map (comb op src) [0..<maxlen])"
      by (intro bitop_slow_spec r)
    then have "bitop_compute op objects = Some (Some (map (comb op src) [0..<maxlen]))"
      using False r(1) unfolding bitop_compute_def l src(2) by (simp add: Let_def split: prod.splits)
    then show ?thesis using False mx by (intro exI [of _ "map (comb op src) [0..<maxlen]"]) simp
  qed
qed

section \<open>Bits\<close>

text \<open>The bit of the result from the bits of the sources.\<close>

primrec bit_result :: "bitop_op \<Rightarrow> bool list \<Rightarrow> bool" where
  "bit_result BITOP_AND bs = list_all (\<lambda>b. b) bs"
| "bit_result BITOP_OR bs = list_ex (\<lambda>b. b) bs"
| "bit_result BITOP_XOR bs = odd (length (filter (\<lambda>b. b) bs))"
| "bit_result BITOP_NOT bs = (\<not> hd bs)"

lemma bit_foldl_op:
  fixes b :: byte
  assumes "op \<noteq> BITOP_NOT"
  shows "bit (foldl (bit_op op) b xs) n = bit_result op (bit b n # map (\<lambda>x. bit x n) xs)"
proof (induction xs arbitrary: b)
  case Nil
  then show ?case using assms by (cases op) auto
next
  case (Cons x xs)
  then show ?case using assms by (cases op) (auto simp: bit_and_iff bit_or_iff bit_xor_iff)
qed

lemma bit_comb:
  assumes "src \<noteq> []" "n < 8"
  shows "bit (comb op src i) n = bit_result op (map (\<lambda>s. bit (byte_at s i) n) src)"
proof (cases "op = BITOP_NOT")
  case True
  then show ?thesis using assms by (simp add: comb_def bit_not_iff hd_map)
next
  case False
  then show ?thesis using assms(1) by (cases src) (simp_all add: comb_def bit_foldl_op comp_def)
qed

lemma bit_byte_at: "bit (byte_at s (k div 8)) (7 - k mod 8) = pad s k"
proof -
  have "k < 8 * length s \<longleftrightarrow> k div 8 < length s" by (auto simp: div_less_iff_less_mult mult.commute)
  then show ?thesis by (simp add: byte_at_def pad_def bm_bit_def)
qed

section \<open>BITCOUNT\<close>

definition bitsinbyte :: "nat list" where
  "bitsinbyte =
     [0,1,1,2,1,2,2,3,1,2,2,3,2,3,3,4,1,2,2,3,2,3,3,4,2,3,3,4,3,4,4,5,1,2,2,3,2,3,3,4,2,3,3,4,3,4,4,5,2,3,3,4,3,4,4,5,3,4,4,5,4,5,5,6,
      1,2,2,3,2,3,3,4,2,3,3,4,3,4,4,5,2,3,3,4,3,4,4,5,3,4,4,5,4,5,5,6,2,3,3,4,3,4,4,5,3,4,4,5,4,5,5,6,3,4,4,5,4,5,5,6,4,5,5,6,5,6,6,7,
      1,2,2,3,2,3,3,4,2,3,3,4,3,4,4,5,2,3,3,4,3,4,4,5,3,4,4,5,4,5,5,6,2,3,3,4,3,4,4,5,3,4,4,5,4,5,5,6,3,4,4,5,4,5,5,6,4,5,5,6,5,6,6,7,
      2,3,3,4,3,4,4,5,3,4,4,5,4,5,5,6,3,4,4,5,4,5,5,6,4,5,5,6,5,6,6,7,3,4,4,5,4,5,5,6,4,5,5,6,5,6,6,7,4,5,5,6,5,6,6,7,5,6,6,7,6,7,7,8]"

text \<open>The bytes up to a 32-bit aligned address, the blocks of 28 bytes, and the rest. \<open>addr\<close> is the address of the string.\<close>

fun popcount_head :: "nat \<Rightarrow> byte list \<Rightarrow> nat \<Rightarrow> byte list \<times> nat" where
  "popcount_head addr [] bits = ([], bits)"
| "popcount_head addr (c # s) bits =
     (if addr mod 4 \<noteq> 0 then popcount_head (addr + 1) s (bits + bitsinbyte ! unat c) else (c # s, bits))"

definition popcount_word :: "u32 \<Rightarrow> u32" where
  "popcount_word aux =
     (let aux = aux - (drop_bit 1 aux AND 0x55555555);
          aux = (aux AND 0x33333333) + (drop_bit 2 aux AND 0x33333333)
      in (aux + drop_bit 4 aux) AND 0x0F0F0F0F)"

definition popcount_block :: "byte list \<Rightarrow> u32" where
  "popcount_block s =
     drop_bit 24 ((popcount_word (word_of_int (le_val (take 4 s))) + popcount_word (word_of_int (le_val (take 4 (drop 4 s)))) +
       popcount_word (word_of_int (le_val (take 4 (drop 8 s)))) + popcount_word (word_of_int (le_val (take 4 (drop 12 s)))) +
       popcount_word (word_of_int (le_val (take 4 (drop 16 s)))) + popcount_word (word_of_int (le_val (take 4 (drop 20 s)))) +
       popcount_word (word_of_int (le_val (take 4 (drop 24 s))))) * 0x01010101)"

function popcount_blocks :: "byte list \<Rightarrow> nat \<Rightarrow> byte list \<times> nat" where
  "popcount_blocks s bits =
     (if length s \<ge> 28 then popcount_blocks (drop 28 s) (bits + unat (popcount_block s)) else (s, bits))"
  by pat_completeness auto
termination
  by (relation "measure (\<lambda>(s, bits). length s)") auto

declare popcount_blocks.simps [simp del]

fun popcount_tail :: "byte list \<Rightarrow> nat \<Rightarrow> nat" where
  "popcount_tail [] bits = bits"
| "popcount_tail (c # s) bits = popcount_tail s (bits + bitsinbyte ! unat c)"

definition redisPopcount :: "nat \<Rightarrow> byte list \<Rightarrow> nat" where
  "redisPopcount addr s =
     (let (s, bits) = popcount_head addr s 0;
          (s, bits) = popcount_blocks s bits
      in popcount_tail s bits)"

subsection \<open>The parallel count in a word\<close>

lemma and_split:
  fixes p q y m :: int
  assumes "0 \<le> p" "p < 2 ^ n" "0 \<le> q" "q < 2 ^ n"
  shows "(p + 2 ^ n * y) AND (q + 2 ^ n * m) = (p AND q) + 2 ^ n * (y AND m)"
proof -
  have c: "a + 2 ^ n * b = concat_bit n a b" if "0 \<le> a" "a < 2 ^ n" for a b :: int
    using that by (simp add: concat_bit_eq take_bit_int_eq_self push_bit_eq_mult mult.commute)
  have "0 \<le> p AND q" "p AND q < 2 ^ n" using assms by (simp_all add: AND_upper1' )
  then show ?thesis using assms by (simp add: c) (auto intro!: bit_eqI simp: bit_and_iff bit_concat_bit_iff)
qed

text \<open>The three steps on integers, for a mask \<open>m\<close>; a mask is repeated in every byte.\<close>

definition swar1 :: "int \<Rightarrow> int \<Rightarrow> int" where "swar1 m x = x - (x div 2 AND m)"
definition swar2 :: "int \<Rightarrow> int \<Rightarrow> int" where "swar2 m x = (x AND m) + (x div 4 AND m)"
definition swar3 :: "int \<Rightarrow> int \<Rightarrow> int" where "swar3 m x = (x + x div 16) AND m"

lemma and_low: "0 \<le> p \<Longrightarrow> p < 2 ^ n \<Longrightarrow> 0 \<le> q \<Longrightarrow> q < 2 ^ n \<Longrightarrow> (p + 2 ^ n * y) AND q = p AND (q :: int)"
  using and_split [of p n q y 0] by simp

lemma div_split: "(a + 256 * y) div 2 = a div 2 + 2 ^ 7 * (y mod 2) + 2 ^ 8 * (y div 2)"
  "(a + 256 * y) div 4 = a div 4 + 2 ^ 6 * (y mod 4) + 2 ^ 8 * (y div 4)"
  "(a + 256 * y) div 16 = a div 16 + 2 ^ 4 * (y mod 16) + 2 ^ 8 * (y div 16)" for a y :: int
proof -
  have d: "(a + 256 * y) div 2 = a div 2 + 128 * y" "(a + 256 * y) div 4 = a div 4 + 64 * y" "(a + 256 * y) div 16 = a div 16 + 16 * y"
    using div_mult_self1 [of 2 a "128 * y"] div_mult_self1 [of 4 a "64 * y"] div_mult_self1 [of 16 a "16 * y"] by simp_all
  have m: "y = y mod 2 + 2 * (y div 2)" "y = y mod 4 + 4 * (y div 4)" "y = y mod 16 + 16 * (y div 16)" by simp_all
  have lin: "y = r + k * q \<Longrightarrow> c * k = 256 \<Longrightarrow> c * y = c * r + 256 * q" for r k q c by (simp add: distrib_left flip: mult.assoc)
  have "128 * y = 128 * (y mod 2) + 256 * (y div 2)" "64 * y = 64 * (y mod 4) + 256 * (y div 4)" "16 * y = 16 * (y mod 16) + 256 * (y div 16)"
    by (rule lin [OF m(1)], simp) (rule lin [OF m(2)], simp, rule lin [OF m(3)], simp)
  then show "(a + 256 * y) div 2 = a div 2 + 2 ^ 7 * (y mod 2) + 2 ^ 8 * (y div 2)"
    "(a + 256 * y) div 4 = a div 4 + 2 ^ 6 * (y mod 4) + 2 ^ 8 * (y div 4)"
    "(a + 256 * y) div 16 = a div 16 + 2 ^ 4 * (y mod 16) + 2 ^ 8 * (y div 16)"
    unfolding d by simp_all
qed

lemma swar1_split:
  assumes "0 \<le> a" "a < 256" "0 \<le> y"
  shows "swar1 (0x55 + 256 * m) (a + 256 * y) = swar1 0x55 a + 256 * swar1 m y"
proof -
  have p: "0 \<le> a div 2" "a div 2 < 2 ^ 7" using assms by auto
  have q: "0 \<le> a div 2 + 2 ^ 7 * (y mod 2)" "a div 2 + 2 ^ 7 * (y mod 2) < 2 ^ 8"
    using assms pos_mod_bound [of 2 y] by auto
  have "((a + 256 * y) div 2 AND (0x55 + 256 * m)) = (a div 2 AND 0x55) + 256 * (y div 2 AND m)"
    using and_split [OF q, of "0x55" "y div 2" m] and_low [OF p, of "0x55" "y mod 2"] by (simp add: div_split)
  then show ?thesis by (simp add: swar1_def algebra_simps)
qed

lemma swar2_split:
  assumes "0 \<le> a" "a < 256" "0 \<le> y"
  shows "swar2 (0x33 + 256 * m) (a + 256 * y) = swar2 0x33 a + 256 * swar2 m y"
proof -
  have p: "0 \<le> a div 4" "a div 4 < 2 ^ 6" using assms by auto
  have q: "0 \<le> a div 4 + 2 ^ 6 * (y mod 4)" "a div 4 + 2 ^ 6 * (y mod 4) < 2 ^ 8"
    using assms pos_mod_bound [of 4 y] by auto
  have "((a + 256 * y) div 4 AND (0x33 + 256 * m)) = (a div 4 AND 0x33) + 256 * (y div 4 AND m)"
    using and_split [OF q, of "0x33" "y div 4" m] and_low [OF p, of "0x33" "y mod 4"] by (simp add: div_split)
  moreover have "((a + 256 * y) AND (0x33 + 256 * m)) = (a AND 0x33) + 256 * (y AND m)"
    using and_split [of a 8 "0x33" y m] assms by simp
  ultimately show ?thesis by (simp add: swar2_def algebra_simps)
qed

lemma swar3_split:
  assumes "0 \<le> a" "a mod 16 \<le> 4" "a div 16 \<le> 4" "y mod 16 \<le> 4"
  shows "swar3 (0xF + 256 * m) (a + 256 * y) = swar3 0xF a + 256 * swar3 m y"
proof -
  have a: "a = a mod 16 + 16 * (a div 16)" by simp
  have p: "0 \<le> (a mod 16 + a div 16)" "a mod 16 + a div 16 < 2 ^ 4" using assms by auto
  define q where "q = a mod 16 + a div 16 + 2 ^ 4 * (a div 16 + y mod 16)"
  have q: "0 \<le> q" "q < 2 ^ 8" using assms by (auto simp: q_def)
  have e: "a + 256 * y + (a + 256 * y) div 16 = q + 2 ^ 8 * (y + y div 16)" unfolding div_split q_def using a by simp
  have "swar3 (0xF + 256 * m) (a + 256 * y) = (q AND 0xF) + 256 * swar3 m y"
    unfolding swar3_def e using and_split [OF q, of "0xF" "y + y div 16" m] by simp
  moreover have "q AND 0xF = (a mod 16 + a div 16) AND 0xF" unfolding q_def by (rule and_low [OF p]) simp_all
  moreover have "swar3 0xF a = (a mod 16 + a div 16) AND 0xF"
  proof -
    have "a + a div 16 = (a mod 16 + a div 16) + 2 ^ 4 * (a div 16)" using a by simp
    then show ?thesis unfolding swar3_def by (simp only:) (rule and_low [OF p]; simp)
  qed
  ultimately show ?thesis by simp
qed

text \<open>All bytes, one by one.\<close>

definition swar_ok :: "int \<Rightarrow> int \<Rightarrow> bool" where
  "swar_ok n k = (let a = swar1 0x55 n; b = swar2 0x33 a
     in 0 \<le> a \<and> a < 256 \<and> 0 \<le> b \<and> b mod 16 \<le> 4 \<and> b div 16 \<le> 4 \<and> swar3 0xF b = k \<and> k \<le> 8 \<and>
        k = n mod 2 + n div 2 mod 2 + n div 4 mod 2 + n div 8 mod 2 + n div 16 mod 2 + n div 32 mod 2 + n div 64 mod 2 + n div 128 mod 2)"

lemma swar_ok_all: "list_all2 swar_ok [0..255] (map int bitsinbyte)"
  by code_simp

abbreviation pop :: "byte \<Rightarrow> int" where "pop c \<equiv> int (bitsinbyte ! unat c)"

lemma swar_ok_byte: "swar_ok (uint c) (pop c)" for c :: byte
proof -
  have u: "unat c < 256" using unsigned_less [of c, where ?'a = nat] by simp
  have "length bitsinbyte = 256" by (simp add: bitsinbyte_def)
  then have "swar_ok ([0..255] ! unat c) (map int bitsinbyte ! unat c)"
    using list_all2_nthD [OF swar_ok_all, of "unat c"] u by simp
  moreover have "[0..255] ! unat c = int (unat c)" using u uint_lt2p [of c] by (subst nth_upto) auto
  ultimately show ?thesis using u \<open>length bitsinbyte = 256\<close> by simp
qed

lemma swar_byte:
  fixes c :: byte
  shows "0 \<le> swar1 0x55 (uint c)" "swar1 0x55 (uint c) < 256" "0 \<le> swar2 0x33 (swar1 0x55 (uint c))"
    "swar2 0x33 (swar1 0x55 (uint c)) mod 16 \<le> 4" "swar2 0x33 (swar1 0x55 (uint c)) div 16 \<le> 4"
    "swar3 0xF (swar2 0x33 (swar1 0x55 (uint c))) = pop c" "pop c \<le> 8"
    "0 \<le> uint c" "uint c < 256"
  using swar_ok_byte [of c] uint_lt2p [of c] by (auto simp: swar_ok_def Let_def)

text \<open>The values of four bytes, least significant first.\<close>

definition val4 :: "int \<Rightarrow> int \<Rightarrow> int \<Rightarrow> int \<Rightarrow> int" where
  "val4 a b c d = a + 256 * (b + 256 * (c + 256 * d))"

lemma swar_val4:
  fixes a b c d :: byte
  shows "swar3 0x0F0F0F0F (swar2 0x33333333 (swar1 0x55555555 (val4 (uint a) (uint b) (uint c) (uint d)))) =
    val4 (pop a) (pop b) (pop c) (pop d)"
    "swar1 0x55555555 (val4 (uint a) (uint b) (uint c) (uint d)) =
      val4 (swar1 0x55 (uint a)) (swar1 0x55 (uint b)) (swar1 0x55 (uint c)) (swar1 0x55 (uint d))"
    "swar2 0x33333333 (swar1 0x55555555 (val4 (uint a) (uint b) (uint c) (uint d))) =
      val4 (swar2 0x33 (swar1 0x55 (uint a))) (swar2 0x33 (swar1 0x55 (uint b))) (swar2 0x33 (swar1 0x55 (uint c)))
        (swar2 0x33 (swar1 0x55 (uint d)))"
proof -
  note f = swar_byte
  have m: "0x55555555 = (0x55 + 256 * (0x55 + 256 * (0x55 + 256 * 0x55)) :: int)"
    "0x33333333 = (0x33 + 256 * (0x33 + 256 * (0x33 + 256 * 0x33)) :: int)"
    "0x0F0F0F0F = (0xF + 256 * (0xF + 256 * (0xF + 256 * 0xF)) :: int)" by simp_all
  show 1: "swar1 0x55555555 (val4 (uint a) (uint b) (uint c) (uint d)) =
      val4 (swar1 0x55 (uint a)) (swar1 0x55 (uint b)) (swar1 0x55 (uint c)) (swar1 0x55 (uint d))"
    unfolding m(1) val4_def by (simp only: swar1_split f add_nonneg_nonneg mult_nonneg_nonneg zero_le_numeral)
  show 2: "swar2 0x33333333 (swar1 0x55555555 (val4 (uint a) (uint b) (uint c) (uint d))) =
      val4 (swar2 0x33 (swar1 0x55 (uint a))) (swar2 0x33 (swar1 0x55 (uint b))) (swar2 0x33 (swar1 0x55 (uint c)))
        (swar2 0x33 (swar1 0x55 (uint d)))"
    unfolding 1 unfolding m(2) val4_def by (simp only: swar2_split f add_nonneg_nonneg mult_nonneg_nonneg zero_le_numeral)
  have md: "(x + 256 * y) mod 16 = x mod 16" for x y :: int
    using mod_mult_self1 [of x "16 * y" 16] by simp
  show "swar3 0x0F0F0F0F (swar2 0x33333333 (swar1 0x55555555 (val4 (uint a) (uint b) (uint c) (uint d)))) =
      val4 (pop a) (pop b) (pop c) (pop d)"
    unfolding 2 unfolding m(3) val4_def by (simp only: swar3_split md f)
qed

lemma val4_bounds:
  assumes "0 \<le> a" "0 \<le> b" "0 \<le> c" "0 \<le> d" "a < 256" "b < 256" "c < 256" "d < 256"
  shows "0 \<le> val4 a b c d" "val4 a b c d < 2 ^ 32"
  using assms by (auto simp: val4_def)

lemma uint_drop:
  fixes w :: "'a :: len word"
  shows "uint (drop_bit n w) = uint w div 2 ^ n"
proof -
  have "take_bit LENGTH('a) (uint w) = uint w" using uint_lt2p [of w] by (simp add: take_bit_int_eq_self)
  then show ?thesis unfolding unsigned_drop_bit_eq by (simp add: drop_bit_eq_div [where ?'a = int])
qed

lemma popcount_word_spec:
  fixes a b c d :: byte
  shows "uint (popcount_word (word_of_int (val4 (uint a) (uint b) (uint c) (uint d)))) = val4 (pop a) (pop b) (pop c) (pop d)"
proof -
  define x where "x = val4 (uint a) (uint b) (uint c) (uint d)"
  note f = swar_byte
  have x: "0 \<le> x" "x < 2 ^ 32" unfolding x_def by (intro val4_bounds f)+
  define w :: u32 where "w = word_of_int x"
  have w: "uint w = x" using x by (simp add: w_def uint_word_of_int)
  have u1: "uint (drop_bit 1 w AND 0x55555555) = (x div 2 AND 0x55555555)"
    by (simp add: w uint_drop [of 1, simplified] unsigned_and_eq)
  have "x div 2 AND 0x55555555 \<le> x" using x(1) AND_upper1 [of "x div 2" "0x55555555"] by linarith
  then have "uint (w - (drop_bit 1 w AND 0x55555555)) = uint w - uint (drop_bit 1 w AND 0x55555555)"
    using uint_sub_lem [of "drop_bit 1 w AND 0x55555555" w] u1 w by metis
  then have s1: "uint (w - (drop_bit 1 w AND 0x55555555)) = swar1 0x55555555 x" unfolding u1 w swar1_def .
  define w1 where "w1 = w - (drop_bit 1 w AND 0x55555555)"
  have w1: "uint w1 = swar1 0x55555555 x" using s1 by (simp add: w1_def)
  have u2: "uint (w1 AND 0x33333333) = (uint w1 AND 0x33333333)" "uint (drop_bit 2 w1 AND 0x33333333) = (uint w1 div 4 AND 0x33333333)"
    by (simp_all add: uint_drop unsigned_and_eq)
  define w2 where "w2 = (w1 AND 0x33333333) + (drop_bit 2 w1 AND 0x33333333)"
  have "uint w2 = swar2 0x33333333 (uint w1)"
  proof -
    have le: "p + q < 2 ^ 32" if "p \<le> 0x33333333" "q \<le> 0x33333333" for p q :: int using that by simp
    have "uint (w1 AND 0x33333333) + uint (drop_bit 2 w1 AND 0x33333333) < 2 ^ 32"
      unfolding u2 by (rule le) (simp_all add: AND_upper2)
    then have "uint w2 = uint (w1 AND 0x33333333) + uint (drop_bit 2 w1 AND 0x33333333)"
      using uint_add_lem [of "w1 AND 0x33333333" "drop_bit 2 w1 AND 0x33333333"] unfolding w2_def by simp
    then show ?thesis unfolding u2 swar2_def .
  qed
  then have w2: "uint w2 = swar2 0x33333333 (swar1 0x55555555 x)" using w1 by simp
  have "swar2 0x33 (swar1 0x55 (uint c)) \<le> 0x44" for c :: byte
    using f(4,5) [of c] mult_div_mod_eq [of 16 "swar2 0x33 (swar1 0x55 (uint c))"] by linarith
  then have "uint w2 \<le> val4 0x44 0x44 0x44 0x44" unfolding w2 x_def swar_val4(3) unfolding val4_def by (intro add_mono mult_left_mono) auto
  then have lt: "uint w2 + uint w2 div 16 < 2 ^ 32" by (simp add: val4_def)
  have "uint ((w2 + drop_bit 4 w2) AND 0x0F0F0F0F) = swar3 0x0F0F0F0F (uint w2)"
  proof -
    have d: "uint (drop_bit 4 w2) = uint w2 div 16" by (simp add: uint_drop)
    then have "uint (w2 + drop_bit 4 w2) = uint w2 + uint w2 div 16" using lt uint_add_lem [of w2 "drop_bit 4 w2"] by simp
    then show ?thesis by (simp add: unsigned_and_eq swar3_def)
  qed
  then show ?thesis using swar_val4(1) [of a b c d] w2 by (simp add: popcount_word_def Let_def w_def w1_def w2_def x_def)
qed

lemma mul_bytes:
  fixes w :: u32
  assumes "uint w = val4 a b c d" "0 \<le> a" "0 \<le> b" "0 \<le> c" "0 \<le> d" "a + b + c + d < 256"
  shows "uint (drop_bit 24 (w * 0x01010101)) = a + b + c + d"
proof -
  define y where "y = b + c + d + 256 * (c + d + 256 * d)"
  define x where "x = a + 256 * (a + b) + 65536 * (a + b + c)"
  have "uint w * 0x01010101 = x + 2 ^ 24 * (a + b + c + d) + 2 ^ 32 * y"
    unfolding assms(1) val4_def x_def y_def by simp
  then have m: "uint (w * 0x01010101) = (x + 2 ^ 24 * (a + b + c + d) + 2 ^ 32 * y) mod 2 ^ 32"
    by (simp add: uint_word_ariths)
  have x: "0 \<le> x" "x < 2 ^ 24" using assms(2-) by (auto simp: x_def)
  have "uint (w * 0x01010101) = x + 2 ^ 24 * (a + b + c + d)"
    unfolding m mod_mult_self2 using x assms(2-) by (intro mod_pos_pos_trivial) auto
  then show ?thesis unfolding uint_drop using x by simp
qed

lemma uint_sum7:
  fixes ws :: "u32 list"
  shows "sum_list (map uint ws) < 2 ^ 32 \<Longrightarrow> uint (sum_list ws) = sum_list (map uint ws)"
proof (induction ws)
  case (Cons w ws)
  have "0 \<le> sum_list (map uint ws)" by (induction ws) auto
  then have "sum_list (map uint ws) < 2 ^ 32" using Cons.prems uint_ge_0 [of w] unfolding list.map sum_list.Cons by linarith
  then show ?case using Cons uint_add_lem [of w "sum_list ws"] by simp
qed simp

text \<open>Seven words at four bytes each.\<close>

lemma popcount_block_spec:
  assumes "length s \<ge> 28"
  shows "int (unat (popcount_block s)) = sum_list (map pop (take 28 s))"
proof -
  define P where "P k = pop (s ! k)" for k
  have P: "0 \<le> P k" "P k \<le> 8" for k using swar_byte(7) [of "s ! k"] by (simp_all add: P_def)
  define W where "W i = popcount_word (word_of_int (le_val (take 4 (drop i s))))" for i
  have W: "uint (W i) = val4 (P i) (P (i + 1)) (P (i + 2)) (P (i + 3))" if "i + 4 \<le> 28" for i
  proof -
    have "take 4 (drop i s) = [s ! i, s ! (i + 1), s ! (i + 2), s ! (i + 3)]"
      using assms that by (intro nth_equalityI) (auto simp: less_Suc_eq numeral_eq_Suc)
    then have "le_val (take 4 (drop i s)) = val4 (uint (s ! i)) (uint (s ! (i + 1))) (uint (s ! (i + 2))) (uint (s ! (i + 3)))"
      by (simp add: val4_def)
    then show ?thesis unfolding W_def P_def by (simp only: popcount_word_spec)
  qed
  let ?ws = "[W 0, W 4, W 8, W 12, W 16, W 20, W 24]"
  define T where "T j = P j + P (j + 4) + P (j + 8) + P (j + 12) + P (j + 16) + P (j + 20) + P (j + 24)" for j
  have t: "0 \<le> T j" "T j \<le> 56" for j unfolding T_def
    using P [of j] P [of "j + 4"] P [of "j + 8"] P [of "j + 12"] P [of "j + 16"] P [of "j + 20"] P [of "j + 24"] by linarith+
  have t': "T j < 256" for j using t(2) [of j] by simp
  have sum: "sum_list (map uint ?ws) = val4 (T 0) (T 1) (T 2) (T 3)" by (simp add: W val4_def T_def flip: numeral_2_eq_2)
  moreover have "val4 (T 0) (T 1) (T 2) (T 3) < 2 ^ 32" by (intro val4_bounds t t')
  ultimately have "uint (sum_list ?ws) = val4 (T 0) (T 1) (T 2) (T 3)" using uint_sum7 [of ?ws] by (simp only:)
  then have r: "uint (drop_bit 24 (sum_list ?ws * 0x01010101)) = T 0 + T 1 + T 2 + T 3"
    using t(2) [of 0] t(2) [of 1] t(2) [of 2] t(2) [of 3] by (intro mul_bytes t) linarith+
  have b: "popcount_block s = drop_bit 24 (sum_list ?ws * 0x01010101)" by (simp add: popcount_block_def W_def add.assoc)
  have "take 28 s = map (\<lambda>k. s ! k) [0..<28]" using assms by (intro nth_equalityI) auto
  moreover have "P = (\<lambda>k. pop (s ! k))" by (simp add: P_def fun_eq_iff)
  ultimately have "sum_list (map pop (take 28 s)) = sum_list (map P [0..<28])" by (simp add: comp_def)
  moreover have "sum_list (map P [0..<28]) = T 0 + T 1 + T 2 + T 3" by (simp add: upt_rec T_def flip: numeral_2_eq_2)
  ultimately show ?thesis using r b by simp
qed

subsection \<open>The number of bits\<close>

lemma pop_card: "pop c = int (card {i. i < 8 \<and> bit c (7 - i)})" for c :: byte
proof -
  have odd: "of_bool (bit c k) = uint c div 2 ^ k mod 2" for k
    by (simp add: bit_uint_iff [symmetric] bit_iff_odd [of "uint c"] mod_2_eq_odd) (metis bit_iff_odd bit_uint_iff bit_imp_le_length)
  have "int (card {i. i < 8 \<and> bit c (7 - i)}) = (\<Sum>i < 8. of_bool (bit c (7 - i)))"
    by (simp add: sum_of_bool_eq Int_def lessThan_def)
  also have "\<dots> = (\<Sum>i < 8. uint c div 2 ^ (7 - i) mod 2)" by (simp only: odd)
  also have "\<dots> = pop c" using swar_ok_byte [of c] by (simp add: swar_ok_def Let_def numeral_eq_Suc lessThan_Suc)
  finally show ?thesis by simp
qed

lemma sum_pop_card: "sum_list (map pop s) = int (card {i. pad s i})"
proof (induction s)
  case (Cons c s)
  have "{i. pad (c # s) i} = {i. i < 8 \<and> bit c (7 - i)} \<union> (\<lambda>i. i + 8) ` {i. pad s i}"
  proof (intro set_eqI)
    fix i
    show "i \<in> {i. pad (c # s) i} \<longleftrightarrow> i \<in> {i. i < 8 \<and> bit c (7 - i)} \<union> (\<lambda>i. i + 8) ` {i. pad s i}"
      by (cases "i < 8") (auto simp: pad_Cons image_iff intro: exI [of _ "i - 8"])
  qed
  moreover have "finite {i. pad s i}" by (rule finite_subset [of _ "{..<8 * length s}"]) (auto simp: pad_def)
  moreover have "card ((\<lambda>i. i + 8) ` {i. pad s i}) = card {i. pad s i}" by (intro card_image inj_onI) simp
  moreover have "{i. i < 8 \<and> bit c (7 - i)} \<inter> (\<lambda>i. i + 8) ` {i. pad s i} = {}" by auto
  ultimately show ?case using Cons pop_card [of c] by (simp add: card_Un_disjoint)
qed simp

lemma popcount_head_spec:
  "popcount_head addr s bits = (s', bits') \<Longrightarrow> int bits' + sum_list (map pop s') = int bits + sum_list (map pop s)"
  by (induction addr s bits rule: popcount_head.induct) (auto split: if_splits)

lemma popcount_blocks_spec:
  "popcount_blocks s bits = (s', bits') \<Longrightarrow> int bits' + sum_list (map pop s') = int bits + sum_list (map pop s)"
proof (induction s bits rule: popcount_blocks.induct)
  case (1 s bits)
  show ?case
  proof (cases "length s \<ge> 28")
    case True
    then have e: "popcount_blocks (drop 28 s) (bits + unat (popcount_block s)) = (s', bits')"
      using 1(2) by (subst (asm) popcount_blocks.simps) simp
    have "sum_list (map pop s) = sum_list (map pop (take 28 s)) + sum_list (map pop (drop 28 s))"
      by (metis append_take_drop_id map_append sum_list.append)
    then show ?thesis using 1(1) [OF True e] popcount_block_spec [OF True] by simp
  next
    case False
    then show ?thesis using 1(2) by (subst (asm) popcount_blocks.simps) simp
  qed
qed

lemma popcount_tail_spec: "int (popcount_tail s bits) = int bits + sum_list (map pop s)"
  by (induction s bits rule: popcount_tail.induct) simp_all

section \<open>Properties\<close>

text \<open>
  C18. \<open>BITOP\<close> computes its operation bit by bit: for any sources, missing keys as empty strings and shorter
  ones padded with zeros, the result has the length of the longest source and each of its bits is the
  conjunction, disjunction, exclusive disjunction or negation of the bits of the sources. So the path
  over words, the path over bytes and the switch between them agree with one definition, and no access
  is outside of a string.
\<close>

theorem bitop_correct:
  assumes "objects \<noteq> []" "op = BITOP_NOT \<longrightarrow> length objects = 1"
  shows "\<exists>res. bitop_compute op objects = Some (if res = [] then None else Some res) \<and>
    length res = Max ((length \<circ> src_of) ` set objects) \<and>
    (\<forall>k < 8 * length res. bm_bit res k = bit_result op (map (\<lambda>p. pad (src_of p) k) objects))"
proof -
  let ?src = "map src_of objects"
  obtain res where r: "bitop_compute op objects = Some (if res = [] then None else Some res)"
    "length res = Max (length ` set ?src)" "\<forall>i < length res. res ! i = comb op ?src i"
    using bitop_compute_spec [OF assms] by blast
  have "bm_bit res k = bit_result op (map (\<lambda>p. pad (src_of p) k) objects)" if "k < 8 * length res" for k
  proof -
    have "k div 8 < length res" using that by (simp add: div_less_iff_less_mult mult.commute)
    then have "bm_bit res k = bit (comb op ?src (k div 8)) (7 - k mod 8)" using r(3) by (simp add: bm_bit_def)
    also have "\<dots> = bit_result op (map (\<lambda>s. bit (byte_at s (k div 8)) (7 - k mod 8)) ?src)"
      using assms(1) by (intro bit_comb) auto
    finally show ?thesis by (simp only: bit_byte_at map_map comp_def)
  qed
  then show ?thesis using r(1,2) by (auto simp: image_comp)
qed

theorem bitop_correct_witness:
  "\<exists>res. bitop_compute BITOP_XOR [Some [1, 255], None, Some [3]] = Some (if res = [] then None else Some res) \<and>
    length res = 2 \<and> bm_bit res 6 \<and> \<not> bm_bit res 7"
proof -
  have l: "Max ((length \<circ> src_of) ` set [Some [1, 255], None, Some [3 :: byte]]) = 2" by (simp add: src_of_def)
  obtain res where r: "bitop_compute BITOP_XOR [Some [1, 255], None, Some [3]] = Some (if res = [] then None else Some res)"
    "length res = Max ((length \<circ> src_of) ` set [Some [1, 255], None, Some [3 :: byte]])"
    "\<forall>k < 8 * length res. bm_bit res k = bit_result BITOP_XOR (map (\<lambda>p. pad (src_of p) k) [Some [1, 255], None, Some [3]])"
    using bitop_correct [of "[Some [1, 255], None, Some [3]]" BITOP_XOR] by auto
  have "bm_bit res 6 = bit_result BITOP_XOR (map (\<lambda>p. pad (src_of p) 6) [Some [1, 255], None, Some [3]])"
    "bm_bit res 7 = bit_result BITOP_XOR (map (\<lambda>p. pad (src_of p) 7) [Some [1, 255], None, Some [3]])"
    using r(2,3) l by auto
  then have "bm_bit res 6" "\<not> bm_bit res 7" by (simp_all add: src_of_def pad_Cons)
  then show ?thesis using r(1) r(2) [unfolded l] by blast
qed

text \<open>
  C19. \<open>redisPopcount\<close> counts the bits that are set, for strings of every length and at every alignment:
  the lookup table, and the parallel count in seven words at once, never overflow a field.
\<close>

theorem redisPopcount_correct: "redisPopcount addr s = card {i. pad s i}"
proof -
  obtain s1 b1 where h: "popcount_head addr s 0 = (s1, b1)" by fastforce
  obtain s2 b2 where b: "popcount_blocks s1 b1 = (s2, b2)" by fastforce
  have "int (redisPopcount addr s) = int b2 + sum_list (map pop s2)" by (simp add: redisPopcount_def h b popcount_tail_spec)
  also have "\<dots> = sum_list (map pop s)" using popcount_head_spec [OF h] popcount_blocks_spec [OF b] by simp
  finally show ?thesis using sum_pop_card [of s] by simp
qed

end
