(* ===== verification/Sds_Text.thy ===== *)
theory Sds_Text
  imports Sds
begin

text \<open>
  The text functions of \<open>sds.c\<close>: integers as strings, splitting at a separator and joining, the quoted
  representation of a string and the parser of lines of arguments, and templates. They build their
  results with the operations of \<open>Sds\<close>, so that an allocation without memory aborts and an access
  outside a block is \<open>None\<close>; where the C code returns a null pointer, the result is \<open>Some None\<close>.
\<close>

section \<open>Formatted output\<close>

text \<open>
  \<open>out\<close> is the output of \<open>vsnprintf\<close> for the format and its arguments, \<open>fmtlen\<close> the length of
  the format. The buffer on the stack has 1024 bytes; a longer output gets a buffer of its own.
\<close>

function catvprintf_buf :: "allocator \<Rightarrow> nat \<Rightarrow> byte list \<Rightarrow> byte list option" where
  "catvprintf_buf al buflen out =
     (if length out \<ge> buflen then do { _ \<leftarrow> al (length out + 1); catvprintf_buf al (length out + 1) out }
      else Some (take (buflen - 1) out @ [0]))"
  by pat_completeness auto
termination by (relation "measure (\<lambda>(al, n, out). length out + 1 - n)") auto

declare catvprintf_buf.simps [simp del]

definition sdscatprintf :: "allocator \<Rightarrow> sdshdr \<Rightarrow> nat \<Rightarrow> byte list \<Rightarrow> sdshdr option" where
  "sdscatprintf al s fmtlen out =
     (let buflen = fmtlen * 2 in do {
        buflen \<leftarrow> (if buflen > 1024 then do { _ \<leftarrow> al buflen; Some buflen } else Some 1024);
        if length out \<ge> 2 ^ 31 then None
        else do { buf \<leftarrow> catvprintf_buf al buflen out; sdscatlen al s buf (length out) } })"

section \<open>Splitting and joining\<close>

text \<open>The loop over the string; \<open>slots\<close> is the size of the array of tokens.\<close>

function split_loop ::
  "allocator \<Rightarrow> byte list \<Rightarrow> nat \<Rightarrow> byte list \<Rightarrow> nat \<Rightarrow> nat \<Rightarrow> nat \<Rightarrow> nat \<Rightarrow> sdshdr list \<Rightarrow> (nat \<times> sdshdr list) option" where
  "split_loop al s len sep seplen j start slots tokens =
     (if int j < int len - (int seplen - 1) \<and> seplen \<noteq> 0 then do {
        slots \<leftarrow> (if slots < length tokens + 2 then do { _ \<leftarrow> al (8 * (slots * 2)); Some (slots * 2) } else Some slots);
        t \<leftarrow> mload s (int j) seplen;
        u \<leftarrow> mload sep 0 seplen;
        if t = u then do {
          tok \<leftarrow> sdsnewlen al (SDS_BYTES (drop start s)) (j - start);
          split_loop al s len sep seplen (j + seplen) (j + seplen) slots (tokens @ [tok]) }
        else split_loop al s len sep seplen (j + 1) start slots tokens }
      else Some (start, tokens))"
  by pat_completeness auto
termination by (relation "measure (\<lambda>(al, s, len, sep, seplen, j, _). len + 1 - j)") auto

declare split_loop.simps [simp del]

definition sdssplitlen :: "allocator \<Rightarrow> byte list \<Rightarrow> int \<Rightarrow> byte list \<Rightarrow> int \<Rightarrow> sdshdr list option option" where
  "sdssplitlen al s len sep seplen =
     (if seplen < 1 \<or> len < 0 then Some None
      else do {
        _ \<leftarrow> al (8 * 5);
        if len = 0 then Some (Some [])
        else do {
          (start, tokens) \<leftarrow> split_loop al s (nat len) sep (nat seplen) 0 0 5 [];
          tok \<leftarrow> sdsnewlen al (SDS_BYTES (drop start s)) (nat len - start);
          Some (Some (tokens @ [tok])) } })"

primrec joinsds_loop :: "allocator \<Rightarrow> sdshdr list \<Rightarrow> byte list \<Rightarrow> nat \<Rightarrow> sdshdr \<Rightarrow> sdshdr option" where
  "joinsds_loop al [] sep seplen join = Some join"
| "joinsds_loop al (a # argv) sep seplen join = do {
     join \<leftarrow> sdscatsds al join a;
     join \<leftarrow> (if argv \<noteq> [] then sdscatlen al join sep seplen else Some join);
     joinsds_loop al argv sep seplen join }"

definition sdsjoinsds :: "allocator \<Rightarrow> sdshdr list \<Rightarrow> byte list \<Rightarrow> nat \<Rightarrow> sdshdr option" where
  "sdsjoinsds al argv sep seplen = do { join \<leftarrow> sdsempty al; joinsds_loop al argv sep seplen join }"

primrec join_loop :: "allocator \<Rightarrow> byte list list \<Rightarrow> byte list \<Rightarrow> sdshdr \<Rightarrow> sdshdr option" where
  "join_loop al [] sep join = Some join"
| "join_loop al (a # argv) sep join = do {
     join \<leftarrow> sdscat al join a;
     join \<leftarrow> (if argv \<noteq> [] then sdscat al join sep else Some join);
     join_loop al argv sep join }"

definition sdsjoin :: "allocator \<Rightarrow> byte list list \<Rightarrow> byte list \<Rightarrow> sdshdr option" where
  "sdsjoin al argv sep = do { join \<leftarrow> sdsempty al; join_loop al argv sep join }"

section \<open>Quoted strings\<close>

definition isprint :: "byte \<Rightarrow> bool" where
  "isprint c \<longleftrightarrow> 32 \<le> c \<and> c \<le> 126"

text \<open>The digit printed by \<open>%x\<close>.\<close>

definition hex_digit :: "nat \<Rightarrow> byte" where
  "hex_digit n = (if n < 10 then 48 + of_nat n else 87 + of_nat n)"

definition catrepr_char :: "allocator \<Rightarrow> sdshdr \<Rightarrow> byte \<Rightarrow> sdshdr option" where
  "catrepr_char al s c =
     (if c = 92 \<or> c = 34 then sdscatprintf al s 3 [92, c]
      else if c = 10 then sdscatlen al s [92, 110, 0] 2
      else if c = 13 then sdscatlen al s [92, 114, 0] 2
      else if c = 9 then sdscatlen al s [92, 116, 0] 2
      else if c = 7 then sdscatlen al s [92, 97, 0] 2
      else if c = 8 then sdscatlen al s [92, 98, 0] 2
      else if isprint c then sdscatprintf al s 2 [c]
      else sdscatprintf al s 6 [92, 120, hex_digit (unat c div 16), hex_digit (unat c mod 16)])"

primrec catrepr_loop :: "allocator \<Rightarrow> sdshdr \<Rightarrow> byte list \<Rightarrow> sdshdr option" where
  "catrepr_loop al s [] = Some s"
| "catrepr_loop al s (c # p) = do { s \<leftarrow> catrepr_char al s c; catrepr_loop al s p }"

definition sdscatrepr :: "allocator \<Rightarrow> sdshdr \<Rightarrow> byte list \<Rightarrow> nat \<Rightarrow> sdshdr option" where
  "sdscatrepr al s p len = do {
     s \<leftarrow> sdscatlen al s [34, 0] 1;
     p \<leftarrow> mload p 0 len;
     s \<leftarrow> catrepr_loop al s p;
     sdscatlen al s [34, 0] 1 }"

definition is_hex_digit :: "byte \<Rightarrow> bool" where
  "is_hex_digit c \<longleftrightarrow> (48 \<le> c \<and> c \<le> 57) \<or> (97 \<le> c \<and> c \<le> 102) \<or> (65 \<le> c \<and> c \<le> 70)"

definition hex_digit_to_int :: "byte \<Rightarrow> nat" where
  "hex_digit_to_int c =
     (if 48 \<le> c \<and> c \<le> 57 then unat c - 48
      else if 97 \<le> c \<and> c \<le> 102 then unat c - 87
      else if 65 \<le> c \<and> c \<le> 70 then unat c - 55
      else 0)"

section \<open>Lines of arguments\<close>

text \<open>A checked read at an offset, and the test for a hexadecimal escape, which stops at the first mismatch.\<close>

definition rd :: "byte list \<Rightarrow> nat \<Rightarrow> byte option" where
  "rd p k = (if k < length p then Some (p ! k) else None)"

definition hex_escape :: "byte list \<Rightarrow> bool option" where
  "hex_escape p = do {
     c \<leftarrow> rd p 0;
     if c \<noteq> 92 then Some False else do {
       d \<leftarrow> rd p 1;
       if d \<noteq> 120 then Some False else do {
         e \<leftarrow> rd p 2;
         if \<not> is_hex_digit e then Some False else do { f \<leftarrow> rd p 3; Some (is_hex_digit f) } } } }"

definition unescape :: "byte \<Rightarrow> byte" where
  "unescape c = (if c = 110 then 10 else if c = 114 then 13 else if c = 116 then 9
     else if c = 98 then 8 else if c = 97 then 7 else c)"

text \<open>A closing quote must be followed by a space or the end; the result is whether it is.\<close>

definition quote_end :: "byte list \<Rightarrow> bool option" where
  "quote_end p = do { d \<leftarrow> rd p 1; Some (d = 0 \<or> is_space d) }"

text \<open>
  The loop that reads one argument. The flags \<open>inq\<close> and \<open>insq\<close> are never reset within it, so that
  each of its three modes is a loop of its own: outside quotes, inside double quotes, inside single
  quotes. The result is the argument and the rest of the line; \<open>Some None\<close> is the jump to \<open>err\<close>.
\<close>

function args_inq :: "allocator \<Rightarrow> byte list \<Rightarrow> sdshdr \<Rightarrow> (sdshdr \<times> byte list) option option" where
  "args_inq al p current = (case p of [] \<Rightarrow> None | c # r \<Rightarrow> do {
     h \<leftarrow> hex_escape p;
     if h then do {
       current \<leftarrow> sdscatlen al current [of_nat (hex_digit_to_int (p ! 2) * 16 + hex_digit_to_int (p ! 3))] 1;
       args_inq al (drop 3 r) current }
     else do {
       d \<leftarrow> (if c = 92 then rd p 1 else Some 0);
       if c = 92 \<and> d \<noteq> 0 then do {
         current \<leftarrow> sdscatlen al current [unescape d] 1;
         args_inq al (drop 1 r) current }
       else if c = 34 then do { e \<leftarrow> quote_end p; Some (if e then Some (current, r) else None) }
       else if c = 0 then Some None
       else do { current \<leftarrow> sdscatlen al current p 1; args_inq al r current } } })"
  by pat_completeness auto
termination by (relation "measure (\<lambda>(al, p, current). length p)") auto

function args_insq :: "allocator \<Rightarrow> byte list \<Rightarrow> sdshdr \<Rightarrow> (sdshdr \<times> byte list) option option" where
  "args_insq al p current = (case p of [] \<Rightarrow> None | c # r \<Rightarrow> do {
     d \<leftarrow> (if c = 92 then rd p 1 else Some 0);
     if c = 92 \<and> d = 39 then do { current \<leftarrow> sdscatlen al current [39, 0] 1; args_insq al (drop 1 r) current }
     else if c = 39 then do { e \<leftarrow> quote_end p; Some (if e then Some (current, r) else None) }
     else if c = 0 then Some None
     else do { current \<leftarrow> sdscatlen al current p 1; args_insq al r current } })"
  by pat_completeness auto
termination by (relation "measure (\<lambda>(al, p, current). length p)") auto

declare args_inq.simps [simp del] args_insq.simps [simp del]

primrec args_token :: "allocator \<Rightarrow> byte list \<Rightarrow> sdshdr \<Rightarrow> (sdshdr \<times> byte list) option option" where
  "args_token al [] current = None"
| "args_token al (c # r) current =
     (if c \<in> {32, 10, 13, 9, 0} then Some (Some (current, if c \<noteq> 0 then r else c # r))
      else if c = 34 then args_inq al r current
      else if c = 39 then args_insq al r current
      else do { current \<leftarrow> sdscatlen al current (c # r) 1; args_token al r current })"

fun skip_blanks :: "byte list \<Rightarrow> byte list option" where
  "skip_blanks [] = None"
| "skip_blanks (c # p) = (if c \<noteq> 0 \<and> is_space c then skip_blanks p else Some (c # p))"

lemma skip_blanks_le: "skip_blanks p = Some p' \<Longrightarrow> length p' \<le> length p"
  by (induction p rule: skip_blanks.induct) (auto split: if_splits)

lemma args_inq_less: "args_inq al p current = Some (Some (current', p')) \<Longrightarrow> length p' < length p"
proof (induction p arbitrary: current rule: length_induct)
  case (1 p)
  then have IH: "length p' < length q" if "length q < length p" "args_inq al q cur = Some (Some (current', p'))" for q cur
    using that by blast
  show ?case
  proof (cases p)
    case Nil
    then show ?thesis using "1.prems" by (subst (asm) args_inq.simps) simp
  next
    case (Cons c r)
    have d: "length p' < length p" if "args_inq al (drop k r) cur = Some (Some (current', p'))" for k cur
    proof -
      have "length (drop k r) < length p" using Cons by (simp add: less_Suc_eq_le)
      then show ?thesis using IH [OF _ that] by linarith
    qed
    from "1.prems" show ?thesis using d [of 3] d [of 1] d [of 0]
      by (subst (asm) args_inq.simps) (auto simp: Cons Option.bind_eq_Some_conv split: if_splits)
  qed
qed

lemma args_insq_less: "args_insq al p current = Some (Some (current', p')) \<Longrightarrow> length p' < length p"
proof (induction p arbitrary: current rule: length_induct)
  case (1 p)
  then have IH: "length p' < length q" if "length q < length p" "args_insq al q cur = Some (Some (current', p'))" for q cur
    using that by blast
  show ?case
  proof (cases p)
    case Nil
    then show ?thesis using "1.prems" by (subst (asm) args_insq.simps) simp
  next
    case (Cons c r)
    have d: "length p' < length p" if "args_insq al (drop k r) cur = Some (Some (current', p'))" for k cur
    proof -
      have "length (drop k r) < length p" using Cons by (simp add: less_Suc_eq_le)
      then show ?thesis using IH [OF _ that] by linarith
    qed
    from "1.prems" show ?thesis using d [of 1] d [of 0]
      by (subst (asm) args_insq.simps) (auto simp: Cons Option.bind_eq_Some_conv split: if_splits)
  qed
qed

lemma args_token_le: "args_token al p current = Some (Some (current', p')) \<Longrightarrow> length p' \<le> length p"
  by (induction p arbitrary: current)
    (auto simp: Option.bind_eq_Some_conv split: if_splits dest: args_inq_less args_insq_less intro: le_SucI less_imp_le)

lemma args_token_less:
  assumes "args_token al (c # r) current = Some (Some (current', p'))" "c \<noteq> 0"
  shows "length p' < Suc (length r)"
  using assms by (auto simp: Option.bind_eq_Some_conv split: if_splits
      dest!: args_inq_less args_insq_less args_token_le)

text \<open>The loop over the arguments.\<close>

function args_loop :: "allocator \<Rightarrow> byte list \<Rightarrow> sdshdr list \<Rightarrow> sdshdr list option option" where
  "args_loop al p vector = do {
     p \<leftarrow> skip_blanks p;
     case p of [] \<Rightarrow> None | c # r \<Rightarrow>
       if c \<noteq> 0 then do {
         current \<leftarrow> sdsempty al;
         t \<leftarrow> args_token al (c # r) current;
         case t of None \<Rightarrow> Some None
         | Some (current, p) \<Rightarrow> do { _ \<leftarrow> al (8 * (length vector + 1)); args_loop al p (vector @ [current]) } }
       else do { _ \<leftarrow> (if vector = [] then al 8 else Some []); Some (Some vector) } }"
  by pat_completeness auto
termination
proof (relation "measure (\<lambda>(al, p, vector). length p)", goal_cases)
  case (2 al p vector q c r current t x cur p')
  then have "length p' < length q" using args_token_less [of al c r current cur p'] by simp
  then show ?case using skip_blanks_le [OF 2(1)] by simp
qed simp

declare args_loop.simps [simp del]

definition sdssplitargs :: "allocator \<Rightarrow> byte list \<Rightarrow> sdshdr list option option" where
  "sdssplitargs al line = args_loop al line []"

section \<open>Templates\<close>

text \<open>\<open>strchr\<close> for a character that is not null: its offset in the C string, if it is there.\<close>

primrec cfind :: "byte \<Rightarrow> byte list \<Rightarrow> nat option option" where
  "cfind ch [] = None"
| "cfind ch (c # p) = (if c = ch then Some (Some 0) else if c = 0 then Some None
     else do { k \<leftarrow> cfind ch p; Some (map_option Suc k) })"

text \<open>The callback is a parameter; a null result is \<open>None\<close>.\<close>

function template_loop ::
  "allocator \<Rightarrow> (sdshdr \<Rightarrow> sdshdr option) \<Rightarrow> byte list \<Rightarrow> sdshdr \<Rightarrow> sdshdr option option" where
  "template_loop al cb_func p res = (case p of [] \<Rightarrow> None | c # r \<Rightarrow>
     if c = 0 then Some (Some res)
     else do {
       sv \<leftarrow> cfind 123 p;
       case sv of None \<Rightarrow> do { res \<leftarrow> sdscat al res p; Some (Some res) }
       | Some k \<Rightarrow> do {
           res \<leftarrow> (if k > 0 then sdscatlen al res p k else Some res);
           d \<leftarrow> rd (drop k r) 0;
           if d = 0 then Some None
           else if d = 123 then do { res \<leftarrow> sdscat al res [123, 0]; template_loop al cb_func (drop (k + 1) r) res }
           else do {
             ev \<leftarrow> cfind 125 (drop k r);
             case ev of None \<Rightarrow> Some None
             | Some m \<Rightarrow> do {
                 varname \<leftarrow> sdsnewlen al (SDS_BYTES (drop k r)) m;
                 case cb_func varname of None \<Rightarrow> Some None
                 | Some v \<Rightarrow> do { res \<leftarrow> sdscat al res (hbuf v); template_loop al cb_func (drop (k + m + 1) r) res } } } } })"
  by pat_completeness auto
termination by (relation "measure (\<lambda>(al, cb_func, p, res). length p)") auto

declare template_loop.simps [simp del]

definition sdstemplate :: "allocator \<Rightarrow> byte list \<Rightarrow> (sdshdr \<Rightarrow> sdshdr option) \<Rightarrow> sdshdr option option" where
  "sdstemplate al template cb_func = do { res \<leftarrow> sdsempty al; template_loop al cb_func template res }"

section \<open>The quoted representation\<close>

definition esc :: "byte \<Rightarrow> byte list" where
  "esc c =
     (if c = 92 \<or> c = 34 then [92, c] else if c = 10 then [92, 110] else if c = 13 then [92, 114]
      else if c = 9 then [92, 116] else if c = 7 then [92, 97] else if c = 8 then [92, 98]
      else if isprint c then [c] else [92, 120, hex_digit (unat c div 16), hex_digit (unat c mod 16)])"

lemma sdscatlen_take: "n \<le> length t \<Longrightarrow> sdscatlen al s t n = sdscatlen al s (take n t) n"
  by (simp add: sdscatlen_def mload_Some cong: option.case_cong)

lemma sdscatprintf_small:
  assumes "length out < 1024" "fmtlen \<le> 512"
  shows "sdscatprintf al s fmtlen out = sdscatlen al s (out @ [0]) (length out)"
  using assms by (simp add: sdscatprintf_def catvprintf_buf.simps Let_def)

lemma length_esc: "length (esc c) \<le> 4" "esc c \<noteq> []"
  by (simp_all add: esc_def)

lemma catrepr_char_eq: "catrepr_char al s c = sdscatlen al s (esc c @ [0]) (length (esc c))"
  by (simp add: catrepr_char_def esc_def sdscatprintf_small numeral_2_eq_2)

lemma catrepr_char_spec:
  assumes "alloc_ok al" "sds_inv s"
  shows "outcome al (hlen s + 4) (catrepr_char al s c) (\<lambda>s'. sds_inv s' \<and> sds_str s' = sds_str s @ esc c)"
proof -
  have "length (esc c) < 2 ^ 64" "length (esc c) \<le> length (esc c @ [0])" "hlen s + length (esc c) \<le> hlen s + 4"
    using length_esc [of c] by auto
  from outcome_le [OF sdscatlen_spec [OF assms this(1,2)] this(3)]
  show ?thesis by (simp add: catrepr_char_eq)
qed

lemma catrepr_loop_spec:
  assumes "alloc_ok al" "sds_inv s" "hlen s + 4 * length p \<le> m"
  shows "outcome al m (catrepr_loop al s p) (\<lambda>s'. sds_inv s' \<and> sds_str s' = sds_str s @ concat (map esc p))"
  using assms(2,3)
proof (induction p arbitrary: s)
  case (Cons c p)
  have a: "outcome al m (catrepr_char al s c) (\<lambda>s'. sds_inv s' \<and> sds_str s' = sds_str s @ esc c)"
    by (rule outcome_le [OF catrepr_char_spec [OF assms(1) Cons.prems(1)]]) (use Cons.prems in simp)
  show ?case unfolding catrepr_loop.simps
  proof (rule outcome_bind [OF a])
    fix s' assume s': "sds_inv s' \<and> sds_str s' = sds_str s @ esc c"
    then have "hlen s' = hlen s + length (esc c)" using Cons.prems(1) by (metis len_str length_append)
    moreover have "length (esc c) \<le> 4" by (simp add: esc_def)
    ultimately show "outcome al m (catrepr_loop al s' p) (\<lambda>s'. sds_inv s' \<and> sds_str s' = sds_str s @ concat (map esc (c # p)))"
      using Cons.IH [of s'] Cons.prems s' by simp
  qed
qed simp

definition repr :: "byte list \<Rightarrow> byte list" where
  "repr x = 34 # concat (map esc x) @ [34]"

lemma sdscatrepr_spec:
  assumes "alloc_ok al" "sds_inv s" "hlen s + 4 * length x + 2 \<le> m"
  shows "outcome al m (sdscatrepr al s x (length x)) (\<lambda>s'. sds_inv s' \<and> sds_str s' = sds_str s @ repr x)"
proof -
  have q: "outcome al m (sdscatlen al r [34, 0] 1) (\<lambda>s'. sds_inv s' \<and> sds_str s' = sds_str r @ [34])"
    if "sds_inv r" "hlen r + 1 \<le> m" for r
    using outcome_le [OF sdscatlen_spec [OF assms(1) that(1), of 1 "[34, 0]"] that(2)] by simp
  show ?thesis unfolding sdscatrepr_def
  proof (rule outcome_bind [OF q [OF assms(2)]])
    fix s1 assume s1: "sds_inv s1 \<and> sds_str s1 = sds_str s @ [34]"
    then have l1: "hlen s1 = hlen s + 1" using assms(2) by (metis One_nat_def length_Cons list.size(3) len_str length_append)
    have m: "mload x 0 (length x) = Some x" by (simp add: mload_Some)
    have c: "outcome al m (catrepr_loop al s1 x)
        (\<lambda>s'. (sds_inv s' \<and> sds_str s' = sds_str s1 @ concat (map esc x)) \<and> hlen s' + 1 \<le> m)"
    proof (rule outcome_mono [OF catrepr_loop_spec [OF assms(1)]])
      fix r assume r: "sds_inv r \<and> sds_str r = sds_str s1 @ concat (map esc x)"
      have "length (concat (map esc x)) \<le> 4 * length x"
        by (induction x) (simp_all add: add_mono length_esc)
      moreover have "hlen r = length (sds_str s1) + length (concat (map esc x))" using r by (metis len_str length_append)
      ultimately show "(sds_inv r \<and> sds_str r = sds_str s1 @ concat (map esc x)) \<and> hlen r + 1 \<le> m"
        using r s1 l1 assms(2,3) by simp
    qed (use s1 l1 assms(3) in auto)
    show "outcome al m (mload x 0 (length x) \<bind> (\<lambda>p. catrepr_loop al s1 p \<bind> (\<lambda>s. sdscatlen al s [34, 0] 1)))
       (\<lambda>s'. sds_inv s' \<and> sds_str s' = sds_str s @ repr x)"
      unfolding m Option.bind.bind_lunit
      by (rule outcome_bind [OF c], elim conjE, rule outcome_mono [OF q]) (use s1 in \<open>auto simp: repr_def\<close>)
  qed (use assms(3) in simp)
qed

section \<open>Parsing what is printed\<close>

lemma hex_digit_ok:
  assumes "n < 16"
  shows "is_hex_digit (hex_digit n)" "hex_digit_to_int (hex_digit n) = n"
proof -
  have "unat (87 + of_nat n :: byte) = 87 + n" using assms by (simp add: unat_word_ariths unat_of_nat)
  then have "unat (hex_digit n) = (if n < 10 then 48 + n else 87 + n)" by (simp add: hex_digit_def unat_digit)
  then show "is_hex_digit (hex_digit n)" "hex_digit_to_int (hex_digit n) = n"
    using assms by (auto simp: is_hex_digit_def hex_digit_to_int_def word_le_nat_alt)
qed

lemma args_inq_esc:
  "args_inq al (esc c @ q) current = do { current \<leftarrow> sdscatlen al current [c] 1; args_inq al q current }"
proof -
  consider (quote) "c = 92 \<or> c = 34" | (letter) "c = 10 \<or> c = 13 \<or> c = 9 \<or> c = 7 \<or> c = 8"
    | (print) "c \<noteq> 92" "c \<noteq> 34" "isprint c"
    | (hex) "esc c = [92, 120, hex_digit (unat c div 16), hex_digit (unat c mod 16)]"
    unfolding esc_def by argo
  then show ?thesis
  proof cases
    case quote
    then have e: "esc c = [92, c]" by (auto simp: esc_def)
    have c: "c \<noteq> 120" "c \<noteq> 0" "unescape c = c" using quote by (auto simp: unescape_def)
    show ?thesis unfolding e using c by (subst args_inq.simps) (simp add: hex_escape_def rd_def)
  next
    case letter
    then obtain d where d: "esc c = [92, d]" "unescape d = c" "d \<noteq> 0" "d \<noteq> 120"
      by (elim disjE) (auto simp: esc_def unescape_def)
    show ?thesis unfolding d(1) using d by (subst args_inq.simps) (simp add: hex_escape_def rd_def)
  next
    case print
    then have "c \<noteq> 0" "c \<noteq> 10" "c \<noteq> 13" "c \<noteq> 9" "c \<noteq> 7" "c \<noteq> 8" by (auto simp: isprint_def)
    then show ?thesis using print sdscatlen_take [of 1 "c # q" al]
      by (subst args_inq.simps) (simp add: esc_def hex_escape_def rd_def)
  next
    case hex
    define a b where "a = unat c div 16" and "b = unat c mod 16"
    have "unat c < 256" using unsigned_less [of c] by simp
    then have ab: "a < 16" "b < 16" "a * 16 + b = unat c" by (auto simp: a_def b_def)
    have "of_nat (hex_digit_to_int (hex_digit a) * 16 + hex_digit_to_int (hex_digit b)) = c"
      using ab hex_digit_ok by (simp del: of_nat_add of_nat_mult)
    then show ?thesis unfolding hex a_def [symmetric] b_def [symmetric]
      using ab hex_digit_ok
      by (subst args_inq.simps) (simp add: hex_escape_def rd_def del: of_nat_add of_nat_mult)
  qed
qed

lemma args_inq_spec:
  assumes "alloc_ok al" "sds_inv current" "hlen current + length x \<le> m"
  shows "outcome al m (args_inq al (concat (map esc x) @ 34 # 0 # q) current)
    (\<lambda>r. \<exists>s. r = Some (s, 0 # q) \<and> sds_inv s \<and> sds_str s = sds_str current @ x)"
  using assms(2,3)
proof (induction x arbitrary: current)
  case Nil
  then show ?case by (subst args_inq.simps) (simp add: hex_escape_def rd_def quote_end_def)
next
  case (Cons c x)
  have a: "outcome al m (sdscatlen al current [c] 1) (\<lambda>s'. sds_inv s' \<and> sds_str s' = sds_str current @ [c])"
    using outcome_le [OF sdscatlen_spec [OF assms(1) Cons.prems(1), of 1 "[c]"], of m] Cons.prems(2) by simp
  have e: "args_inq al (concat (map esc (c # x)) @ 34 # 0 # q) current =
      do { current \<leftarrow> sdscatlen al current [c] 1; args_inq al (concat (map esc x) @ 34 # 0 # q) current }"
    by (simp add: args_inq_esc)
  show ?case unfolding e
  proof (rule outcome_bind [OF a])
    fix s' assume s': "sds_inv s' \<and> sds_str s' = sds_str current @ [c]"
    then have "hlen s' = hlen current + 1" using Cons.prems(1) by (metis One_nat_def len_str length_append length_Cons list.size(3))
    then show "outcome al m (args_inq al (concat (map esc x) @ 34 # 0 # q) s')
       (\<lambda>r. \<exists>s. r = Some (s, 0 # q) \<and> sds_inv s \<and> sds_str s = sds_str current @ c # x)"
      using Cons.IH [of s'] Cons.prems s' by simp
  qed
qed

lemma sdssplitargs_repr:
  assumes "alloc_ok al" "enough al (length x)"
  shows "\<exists>s. sdssplitargs al (repr x @ 0 # q) = Some (Some [s]) \<and> sds_inv s \<and> sds_str s = x"
proof -
  have "outcome al (length x) (sdsempty al) (\<lambda>s. sds_inv s \<and> sds_str s = [])"
    by (rule outcome_le [OF sdsempty_spec [OF assms(1)]]) simp
  then obtain s0 where s0: "sdsempty al = Some s0" "sds_inv s0" "sds_str s0 = []"
    using assms(2) by (auto simp: outcome_def split: option.splits)
  have "hlen s0 = 0" using len_str [OF s0(2)] s0(3) by simp
  then have "outcome al (length x) (args_inq al (concat (map esc x) @ 34 # 0 # q) s0)
     (\<lambda>r. \<exists>s. r = Some (s, 0 # q) \<and> sds_inv s \<and> sds_str s = sds_str s0 @ x)"
    using args_inq_spec [OF assms(1) s0(2), of x "length x" q] by simp
  then obtain s where s: "args_inq al (concat (map esc x) @ 34 # 0 # q) s0 = Some (Some (s, 0 # q))" "sds_inv s" "sds_str s = x"
    using assms(2) s0(3) by (auto simp: outcome_def split: option.splits)
  obtain b where b: "al 8 = Some b" using assms(2) by (fastforce simp: enough_def)
  have "args_token al (repr x @ 0 # q) s0 = Some (Some (s, 0 # q))" using s(1) by (simp add: repr_def)
  then have "args_loop al (repr x @ 0 # q) [] = args_loop al (0 # q) [s]"
    using s0(1) b by (subst args_loop.simps) (simp add: repr_def is_space_def)
  also have "\<dots> = Some (Some [s])" by (subst args_loop.simps) simp
  finally show ?thesis using s by (simp add: sdssplitargs_def)
qed

section \<open>Splitting and joining\<close>

definition occurs :: "byte list \<Rightarrow> byte list \<Rightarrow> bool" where
  "occurs sep t \<longleftrightarrow> (\<exists>i. i + length sep \<le> length t \<and> take (length sep) (drop i t) = sep)"

text \<open>The state of the loop: the tokens and the separators after them are the string up to \<open>start\<close>.\<close>

definition split_inv :: "byte list \<Rightarrow> nat \<Rightarrow> byte list \<Rightarrow> nat \<Rightarrow> sdshdr list \<Rightarrow> bool" where
  "split_inv s len sep start tokens \<longleftrightarrow>
     start \<le> len \<and> length tokens \<le> start \<and> (\<forall>t \<in> set tokens. sds_inv t \<and> \<not> occurs sep (sds_str t)) \<and>
     concat (map (\<lambda>t. sds_str t @ sep) tokens) = take start s"

lemma no_occurrence:
  assumes "\<And>i. start \<le> i \<Longrightarrow> i + length sep \<le> e \<Longrightarrow> take (length sep) (drop i s) \<noteq> sep" "start \<le> e" "e \<le> length s"
  shows "\<not> occurs sep (take (e - start) (drop start s))"
proof
  assume "occurs sep (take (e - start) (drop start s))"
  then obtain i where i: "i + length sep \<le> e - start" "take (length sep) (drop i (take (e - start) (drop start s))) = sep"
    using assms by (auto simp: occurs_def)
  then have "take (length sep) (drop (start + i) s) = sep"
    by (simp add: drop_take min_def add.commute split: if_splits)
  then show False using assms(1) [of "start + i"] i(1) assms(2) by simp
qed

lemma split_loop_spec:
  assumes "alloc_ok al" "len \<le> length s" "length sep = k" "0 < k" "8 * len \<le> m" "len < 2 ^ 64"
    "split_inv s len sep start tokens" "start \<le> j" "j \<le> len" "slots \<le> 2 * length tokens + 5"
    "\<And>i. start \<le> i \<Longrightarrow> i < j \<Longrightarrow> take k (drop i s) \<noteq> sep"
  shows "outcome al m (split_loop al s len (sep @ rest) k j start slots tokens)
    (\<lambda>(start', tokens'). split_inv s len sep start' tokens' \<and>
       (\<forall>i. start' \<le> i \<longrightarrow> i + k \<le> len \<longrightarrow> take k (drop i s) \<noteq> sep))"
  using assms(7-11)
proof (induction "len + 1 - j" arbitrary: j start slots tokens rule: less_induct)
  case less
  note e = split_loop.simps [of al s len "sep @ rest" k j start slots tokens]
  show ?case
  proof (cases "j + k \<le> len")
    case False
    have "take k (drop i s) \<noteq> sep" if "start \<le> i" "i + k \<le> len" for i
      using less.prems(5) [OF that(1)] that(2) False by auto
    then show ?thesis unfolding e using False less.prems(1) by simp
  next
    case True
    have "outcome al m (if slots < length tokens + 2 then do { _ \<leftarrow> al (8 * (slots * 2)); Some (slots * 2) } else Some slots)
        (\<lambda>n. n \<le> 2 * length tokens + 5)"
    proof -
      have "8 * (slots * 2) \<le> 2 * m + 2 ^ 20 + 18" if "slots < length tokens + 2"
        using that less.prems(1) assms(5) by (simp add: split_inv_def)
      then show ?thesis using less.prems(4)
        by (cases "al (16 * slots)") (auto simp: outcome_def enough_def intro!: exI [of _ "16 * slots"])
    qed
    moreover have m1: "mload s (int j) k = Some (take k (drop j s))" using True assms(2) by (simp add: mload_Some)
    have m2: "mload (sep @ rest) 0 k = Some sep" using assms(3) by (simp add: mload_Some)
    have lp: "int j < int len - (int k - 1) \<and> k \<noteq> 0" using True assms(4) by simp
    show ?thesis unfolding e if_P [OF lp]
    proof (rule outcome_bind [OF calculation])
      fix n assume n: "n \<le> 2 * length tokens + 5"
      show "outcome al m (mload s (int j) k \<bind> (\<lambda>t. mload (sep @ rest) 0 k \<bind> (\<lambda>u. if t = u then do {
          tok \<leftarrow> sdsnewlen al (SDS_BYTES (drop start s)) (j - start);
          split_loop al s len (sep @ rest) k (j + k) (j + k) n (tokens @ [tok]) }
        else split_loop al s len (sep @ rest) k (j + 1) start n tokens)))
        (\<lambda>(start', tokens'). split_inv s len sep start' tokens' \<and>
          (\<forall>i. start' \<le> i \<longrightarrow> i + k \<le> len \<longrightarrow> take k (drop i s) \<noteq> sep))"
      proof (cases "take k (drop j s) = sep")
        case False
        have "take k (drop i s) \<noteq> sep" if "start \<le> i" "i < j + 1" for i
          using that less.prems(5) False by (cases "i = j") auto
        then show ?thesis unfolding m1 m2 using False less.prems True n assms(4)
          by (simp, intro less.hyps) auto
      next
        case hit: True
        have nl: "j - start < 2 ^ 64" "j - start \<le> length (drop start s)" "j - start \<le> m"
          using less.prems(2,3) assms(2,5,6) by auto
        have no: "\<not> occurs sep (take (j - start) (drop start s))"
          using less.prems(2,3,5) assms(2,3,4) by (intro no_occurrence) auto
        have "outcome al m (do { tok \<leftarrow> sdsnewlen al (SDS_BYTES (drop start s)) (j - start);
            split_loop al s len (sep @ rest) k (j + k) (j + k) n (tokens @ [tok]) })
          (\<lambda>(start', tokens'). split_inv s len sep start' tokens' \<and>
            (\<forall>i. start' \<le> i \<longrightarrow> i + k \<le> len \<longrightarrow> take k (drop i s) \<noteq> sep))"
        proof (rule outcome_bind [OF outcome_le [OF sdsnewlen_spec [OF assms(1) nl(1,2)] nl(3)]])
          fix tok assume tok: "sds_inv tok \<and> sds_str tok = take (j - start) (drop start s)"
          have "take (j + k) s = take start s @ take (j - start) (drop start s) @ sep"
          proof -
            have "take (j + k) s = take j s @ take k (drop j s)" by (rule take_add)
            moreover have "take j s = take start s @ take (j - start) (drop start s)"
              using less.prems(2) by (simp flip: take_add)
            ultimately show ?thesis using hit by simp
          qed
          then have "split_inv s len sep (j + k) (tokens @ [tok])"
            using less.prems(1,2) True assms(4) tok no by (auto simp: split_inv_def)
          then show "outcome al m (split_loop al s len (sep @ rest) k (j + k) (j + k) n (tokens @ [tok]))
            (\<lambda>(start', tokens'). split_inv s len sep start' tokens' \<and>
              (\<forall>i. start' \<le> i \<longrightarrow> i + k \<le> len \<longrightarrow> take k (drop i s) \<noteq> sep))"
            using True assms(4) n by (intro less.hyps) auto
        qed
        then show ?thesis unfolding m1 m2 using hit by simp
      qed
    qed
  qed
qed

primrec join_bytes :: "byte list \<Rightarrow> byte list list \<Rightarrow> byte list" where
  "join_bytes sep [] = []"
| "join_bytes sep (t # ts) = t @ (if ts \<noteq> [] then sep @ join_bytes sep ts else [])"

lemma join_bytes_snoc: "join_bytes sep (ts @ [t]) = concat (map (\<lambda>t. t @ sep) ts) @ t"
  by (induction ts) auto

lemma joinsds_loop_spec:
  assumes "alloc_ok al" "length sep = k" "m < 2 ^ 64" "\<forall>t \<in> set ts. sds_inv t" "sds_inv join"
    "hlen join + length (join_bytes sep (map sds_str ts)) \<le> m"
  shows "outcome al m (joinsds_loop al ts (sep @ rest) k join)
    (\<lambda>r. sds_inv r \<and> sds_str r = sds_str join @ join_bytes sep (map sds_str ts))"
  using assms(4-6)
proof (induction ts arbitrary: join)
  case (Cons t ts)
  have t: "sds_inv t" using Cons.prems by simp
  have tb: "take (hlen t) (hbuf t) = sds_str t" "hlen t < 2 ^ 64" "hlen t \<le> length (hbuf t)"
    using inv_len_bound [OF t] inv_len [OF t] by (auto simp: sds_str_def)
  have le: "hlen join + hlen t \<le> m" using Cons.prems(3) t by simp
  have c1: "outcome al m (sdscatsds al join t) (\<lambda>r. sds_inv r \<and> sds_str r = sds_str join @ sds_str t)"
    unfolding sdscatsds_def sdslen_def
    using outcome_le [OF sdscatlen_spec [OF assms(1) Cons.prems(2) tb(2,3)] le] tb(1) by simp
  show ?case unfolding joinsds_loop.simps
  proof (rule outcome_bind [OF c1])
    fix r assume r: "sds_inv r \<and> sds_str r = sds_str join @ sds_str t"
    then have lr: "hlen r = hlen join + hlen t" using t Cons.prems(2) by (metis len_str length_append)
    show "outcome al m ((if ts \<noteq> [] then sdscatlen al r (sep @ rest) k else Some r) \<bind> joinsds_loop al ts (sep @ rest) k)
      (\<lambda>r. sds_inv r \<and> sds_str r = sds_str join @ join_bytes sep (map sds_str (t # ts)))"
    proof (cases "ts = []")
      case True
      then show ?thesis using r by simp
    next
      case False
      then have le2: "hlen r + k \<le> m" using Cons.prems(3) t lr assms(2) by simp
      have "k < 2 ^ 64" "k \<le> length (sep @ rest)" using le2 assms(2,3) by auto
      note c2 = outcome_le [OF sdscatlen_spec [OF assms(1) conjunct1 [OF r] this] le2]
      have "outcome al m (sdscatlen al r (sep @ rest) k \<bind> joinsds_loop al ts (sep @ rest) k)
        (\<lambda>r. sds_inv r \<and> sds_str r = sds_str join @ join_bytes sep (map sds_str (t # ts)))"
      proof (rule outcome_bind [OF c2])
        fix q assume q: "sds_inv q \<and> sds_str q = sds_str r @ take k (sep @ rest)"
        then have "hlen q = hlen r + k" using r assms(2)
          by (metis append_eq_conv_conj len_str length_append)
        then show "outcome al m (joinsds_loop al ts (sep @ rest) k q)
          (\<lambda>r. sds_inv r \<and> sds_str r = sds_str join @ join_bytes sep (map sds_str (t # ts)))"
          using Cons.IH [of q] Cons.prems q r lr False assms(2) t by simp
      qed
      then show ?thesis using False by simp
    qed
  qed
qed simp

lemma sdssplitlen_spec:
  assumes "alloc_ok al" "0 < len" "len \<le> length s" "length sep = k" "0 < k" "8 * len \<le> m" "len < 2 ^ 64"
  shows "outcome al m (sdssplitlen al s (int len) (sep @ rest) (int k))
    (\<lambda>r. \<exists>ts. r = Some ts \<and> (\<forall>t \<in> set ts. sds_inv t \<and> \<not> occurs sep (sds_str t)) \<and>
       join_bytes sep (map sds_str ts) = take len s)"
proof -
  have i: "split_inv s len sep 0 []" by (simp add: split_inv_def)
  have l: "outcome al m (split_loop al s len (sep @ rest) k 0 0 5 [])
    (\<lambda>(start', tokens'). split_inv s len sep start' tokens' \<and>
       (\<forall>i. start' \<le> i \<longrightarrow> i + k \<le> len \<longrightarrow> take k (drop i s) \<noteq> sep))"
    using assms by (intro split_loop_spec i) auto
  have a: "outcome al m (al 40) (\<lambda>_. True)"
    by (auto simp: outcome_def enough_def split: option.splits intro!: exI [of _ 40])
  have "outcome al m (do { _ \<leftarrow> al 40; (start, tokens) \<leftarrow> split_loop al s len (sep @ rest) k 0 0 5 [];
       tok \<leftarrow> sdsnewlen al (SDS_BYTES (drop start s)) (len - start); Some (Some (tokens @ [tok])) })
    (\<lambda>r. \<exists>ts. r = Some ts \<and> (\<forall>t \<in> set ts. sds_inv t \<and> \<not> occurs sep (sds_str t)) \<and>
       join_bytes sep (map sds_str ts) = take len s)"
  proof (rule outcome_bind [OF a], rule outcome_bind [OF l], clarsimp)
    fix start tokens
    assume si: "split_inv s len sep start tokens"
      and no: "\<forall>i\<ge>start. i + k \<le> len \<longrightarrow> take k (drop i s) \<noteq> sep"
    have sl: "start \<le> len" using si by (simp add: split_inv_def)
    have nl: "len - start < 2 ^ 64" "len - start \<le> length (drop start s)" "len - start \<le> m" using assms sl by auto
    have nc: "\<not> occurs sep (take (len - start) (drop start s))"
      using no sl assms(3,4) by (intro no_occurrence) auto
    show "outcome al m (sdsnewlen al (SDS_BYTES (drop start s)) (len - start) \<bind> (\<lambda>tok. Some (Some (tokens @ [tok]))))
      (\<lambda>r. \<exists>ts. r = Some ts \<and> (\<forall>t \<in> set ts. sds_inv t \<and> \<not> occurs sep (sds_str t)) \<and>
         join_bytes sep (map sds_str ts) = take len s)"
    proof (rule outcome_bind [OF outcome_le [OF sdsnewlen_spec [OF assms(1) nl(1,2)] nl(3)]])
      fix tok assume tok: "sds_inv tok \<and> sds_str tok = take (len - start) (drop start s)"
      have "take start s @ take (len - start) (drop start s) = take len s" using sl by (simp flip: take_add)
      then have "join_bytes sep (map sds_str (tokens @ [tok])) = take len s"
        using si tok by (simp add: join_bytes_snoc split_inv_def comp_def)
      then show "outcome al m (Some (Some (tokens @ [tok])))
        (\<lambda>r. \<exists>ts. r = Some ts \<and> (\<forall>t \<in> set ts. sds_inv t \<and> \<not> occurs sep (sds_str t)) \<and>
           join_bytes sep (map sds_str ts) = take len s)"
        using si tok nc by (auto simp: split_inv_def)
    qed
  qed
  then show ?thesis using assms(2,5) by (simp add: sdssplitlen_def)
qed

section \<open>Properties\<close>

text \<open>
  C11. Parsing a line of arguments gives back every binary string whose quoted representation it is: the
  representation of any bytes, with null bytes, quotes, backslashes and non-printable characters, is
  read as one argument with exactly those bytes.
\<close>

theorem repr_roundtrip:
  assumes "alloc_ok al" "enough al (4 * length x + 2)"
  shows "\<exists>r s. (do { s0 \<leftarrow> sdsempty al; sdscatrepr al s0 x (length x) }) = Some r \<and>
    sdssplitargs al (hbuf r) = Some (Some [s]) \<and> sds_str s = x"
proof -
  let ?m = "4 * length x + 2"
  obtain s0 where s0: "sdsempty al = Some s0" "sds_inv s0" "sds_str s0 = []"
    using outcome_le [OF sdsempty_spec [OF assms(1)], of ?m] assms(2) by (auto simp: outcome_def split: option.splits)
  have "hlen s0 = 0" using len_str [OF s0(2)] s0(3) by simp
  then obtain r where r: "sdscatrepr al s0 x (length x) = Some r" "sds_inv r" "sds_str r = repr x"
    using sdscatrepr_spec [OF assms(1) s0(2), of x ?m] assms(2) s0(3) by (auto simp: outcome_def split: option.splits)
  have "hlen r < length (hbuf r)" "hbuf r ! hlen r = 0" using r(2) inv_len [OF r(2)] by (auto simp: sds_inv_def)
  then have "hbuf r = repr x @ 0 # drop (Suc (hlen r)) (hbuf r)"
    using id_take_nth_drop [of "hlen r" "hbuf r"] r(3) by (simp add: sds_str_def)
  moreover have "enough al (length x)" by (rule enough_le [OF assms(2)]) simp
  ultimately obtain s where "sdssplitargs al (hbuf r) = Some (Some [s])" "sds_str s = x"
    using sdssplitargs_repr [OF assms(1)] by metis
  then show ?thesis using s0(1) r(1) by auto
qed

theorem repr_roundtrip_witness:
  "\<exists>r s. (do { s0 \<leftarrow> sdsempty roomy; sdscatrepr roomy s0 [0, 34, 92, 255, 10] (length [0, 34, 92, 255 :: byte, 10]) }) = Some r \<and>
    sdssplitargs roomy (hbuf r) = Some (Some [s]) \<and> sds_str s = [0, 34, 92, 255, 10]"
proof -
  have "alloc_ok roomy" "enough roomy (4 * length [0, 34, 92, 255 :: byte, 10] + 2)"
    by (auto simp: alloc_ok_def enough_def roomy_def)
  then show ?thesis by (rule repr_roundtrip)
qed



end
