(* ===== verification/Lzf.thy ===== *)
theory Lzf
  imports Redis_Prelude
begin

text \<open>
  LZF compression (\<open>lzf_c.c\<close>, \<open>lzf_d.c\<close>), in the configuration of \<open>lzfP.h\<close> on a 64-bit machine: a hash table
  of 2^16 offsets that is not initialized (\<open>htab\<close>, with any contents), \<open>VERY_FAST\<close>, and checked input in
  the decompressor. Pointers into the two buffers are offsets; the buffers are as long as \<open>in_len\<close> and
  \<open>out_len\<close> say, and an access outside of them is \<open>None\<close>.
\<close>

definition rd :: "byte list \<Rightarrow> int \<Rightarrow> byte option" where
  "rd m i = (if 0 \<le> i \<and> nat i < length m then Some (m ! nat i) else None)"

definition wr :: "byte list \<Rightarrow> int \<Rightarrow> byte \<Rightarrow> byte list option" where
  "wr m i b = (if 0 \<le> i \<and> nat i < length m then Some (m[nat i := b]) else None)"

section \<open>Compression\<close>

definition HLOG :: nat where "HLOG = 16"
definition HSIZE :: nat where "HSIZE = 2 ^ HLOG"
definition MAX_LIT :: nat where "MAX_LIT = 2 ^ 5"
definition MAX_OFF :: nat where "MAX_OFF = 2 ^ 13"
definition MAX_REF :: nat where "MAX_REF = 2 ^ 8 + 2 ^ 3"

definition FRST :: "byte list \<Rightarrow> nat \<Rightarrow> u32 option" where
  "FRST inp p = do {
     a \<leftarrow> rd inp (int p);
     b \<leftarrow> rd inp (int p + 1);
     Some (push_bit 8 (ucast a) OR ucast b) }"

definition NEXT :: "u32 \<Rightarrow> byte list \<Rightarrow> nat \<Rightarrow> u32 option" where
  "NEXT v inp p = do {
     c \<leftarrow> rd inp (int p + 2);
     Some (push_bit 8 v OR ucast c) }"

definition IDX :: "u32 \<Rightarrow> nat" where
  "IDX h = unat ((drop_bit (3 * 8 - HLOG) h - h * 5) AND (of_nat HSIZE - 1))"

record lzf =
  lz_ip :: nat
  lz_op :: nat
  lz_lit :: nat
  lz_hval :: u32
  lz_htab :: "nat \<Rightarrow> u32"
  lz_out :: "byte list"

text \<open>The condition for a match at \<open>ref\<close>: \<open>off\<close> is an \<open>unsigned long\<close>.\<close>

definition lzf_off :: "nat \<Rightarrow> nat \<Rightarrow> nat" where
  "lzf_off ip ref = nat ((int ip - int ref - 1) mod 2 ^ 64)"

definition lzf_match :: "byte list \<Rightarrow> nat \<Rightarrow> nat \<Rightarrow> bool option" where
  "lzf_match inp ref ip =
     (if lzf_off ip ref < MAX_OFF \<and> ref > 0 then do {
        a \<leftarrow> rd inp (int ref + 2);
        b \<leftarrow> rd inp (int ip + 2);
        if a = b then do {
          a0 \<leftarrow> rd inp (int ref); a1 \<leftarrow> rd inp (int ref + 1);
          b0 \<leftarrow> rd inp (int ip); b1 \<leftarrow> rd inp (int ip + 1);
          Some (a0 = b0 \<and> a1 = b1) }
        else Some False }
      else Some False)"

text \<open>The sixteen unrolled comparisons, whether one of them leaves the loop, and the loop after them.\<close>

primrec match_unrolled :: "nat \<Rightarrow> byte list \<Rightarrow> nat \<Rightarrow> nat \<Rightarrow> nat \<Rightarrow> (nat \<times> bool) option" where
  "match_unrolled 0 inp ref ip len = Some (len, False)"
| "match_unrolled (Suc n) inp ref ip len = do {
     a \<leftarrow> rd inp (int ref + int (len + 1));
     b \<leftarrow> rd inp (int ip + int (len + 1));
     if a \<noteq> b then Some (len + 1, True) else match_unrolled n inp ref ip (len + 1) }"

function match_rest :: "byte list \<Rightarrow> nat \<Rightarrow> nat \<Rightarrow> nat \<Rightarrow> nat \<Rightarrow> nat option" where
  "match_rest inp ref ip maxlen len =
     (if len + 1 < maxlen then do {
        a \<leftarrow> rd inp (int ref + int (len + 1));
        b \<leftarrow> rd inp (int ip + int (len + 1));
        if a = b then match_rest inp ref ip maxlen (len + 1) else Some (len + 1) }
      else Some (len + 1))"
  by pat_completeness auto
termination
  by (relation "measure (\<lambda>(inp, ref, ip, maxlen, len). maxlen - len)") auto

declare match_rest.simps [simp del]

definition match_len :: "byte list \<Rightarrow> nat \<Rightarrow> nat \<Rightarrow> nat option" where
  "match_len inp ref ip =
     (let maxlen = length inp - ip - 2;
          maxlen = (if maxlen > MAX_REF then MAX_REF else maxlen)
      in if maxlen > 16 then do {
           (len, brk) \<leftarrow> match_unrolled 16 inp ref ip 2;
           if brk then Some len else match_rest inp ref ip maxlen len }
         else match_rest inp ref ip maxlen 2)"

text \<open>\<open>op[-lit-1] = lit - 1\<close> ends a run of literal bytes.\<close>

definition stop_run :: "nat \<Rightarrow> nat \<Rightarrow> byte list \<Rightarrow> byte list option" where
  "stop_run op lit out = wr out (int op - int lit - 1) (word_of_int (int lit - 1))"

text \<open>How an iteration ends: \<open>return 0\<close>, \<open>break\<close>, or the next iteration.\<close>

datatype lzf_next = Lzf_Return0 "byte list" | Lzf_Break lzf | Lzf_Continue lzf

text \<open>The bytes of a back reference of \<open>len + 2\<close> bytes.\<close>

definition put_ref :: "nat \<Rightarrow> nat \<Rightarrow> nat \<Rightarrow> byte list \<Rightarrow> (nat \<times> byte list) option" where
  "put_ref off len op out = do {
     (op, out) \<leftarrow>
       (if len < 7 then do {
          out \<leftarrow> wr out (int op) (of_nat (drop_bit 8 off + push_bit 5 len));
          Some (op + 1, out) }
        else do {
          out \<leftarrow> wr out (int op) (of_nat (drop_bit 8 off + push_bit 5 7));
          out \<leftarrow> wr out (int op + 1) (of_nat (len - 7));
          Some (op + 2, out) });
     out \<leftarrow> wr out (int op) (of_nat off);
     Some (op + 1, out) }"

definition compress_match :: "byte list \<Rightarrow> nat \<Rightarrow> lzf \<Rightarrow> lzf_next option" where
  "compress_match inp ref st =
     (let ip = lz_ip st; op = lz_op st; lit = lz_lit st; out = lz_out st;
          off = lzf_off ip ref; undo = (if lit = 0 then 1 else 0)
      in if op + 3 + 1 \<ge> length out \<and> int op - undo + 3 + 1 \<ge> int (length out) then Some (Lzf_Return0 out)
         else do {
           out \<leftarrow> stop_run op lit out;
           len \<leftarrow> match_len inp ref ip;
           (op, out) \<leftarrow> put_ref off (len - 2) (nat (int op - undo)) out;
           let ip = ip + 1 + (len - 2) + 1;
           let st = st\<lparr>lz_ip := ip, lz_op := op + 1, lz_lit := 0, lz_out := out\<rparr>;
           if ip + 2 \<ge> length inp then Some (Lzf_Break st)
           else do {
             hval \<leftarrow> FRST inp (ip - 2);
             hval \<leftarrow> NEXT hval inp (ip - 2);
             let htab = (lz_htab st)(IDX hval := of_nat (ip - 2));
             hval \<leftarrow> NEXT hval inp (ip - 1);
             let htab = htab(IDX hval := of_nat (ip - 1));
             Some (Lzf_Continue (st\<lparr>lz_hval := hval, lz_htab := htab\<rparr>)) } })"

definition put_literal :: "byte list \<Rightarrow> lzf \<Rightarrow> lzf option" where
  "put_literal inp st = do {
     b \<leftarrow> rd inp (int (lz_ip st));
     out \<leftarrow> wr (lz_out st) (int (lz_op st)) b;
     let lit = lz_lit st + 1;
     let op = lz_op st + 1;
     if lit = MAX_LIT then do {
       out \<leftarrow> stop_run op lit out;
       Some (st\<lparr>lz_ip := lz_ip st + 1, lz_op := op + 1, lz_lit := 0, lz_out := out\<rparr>) }
     else Some (st\<lparr>lz_ip := lz_ip st + 1, lz_op := op, lz_lit := lit, lz_out := out\<rparr>) }"

definition compress_step :: "byte list \<Rightarrow> lzf \<Rightarrow> lzf_next option" where
  "compress_step inp st = do {
     hval \<leftarrow> NEXT (lz_hval st) inp (lz_ip st);
     let hslot = IDX hval;
     let ref = unat (lz_htab st hslot);
     let st = st\<lparr>lz_hval := hval, lz_htab := (lz_htab st)(hslot := of_nat (lz_ip st))\<rparr>;
     m \<leftarrow> lzf_match inp ref (lz_ip st);
     if m then compress_match inp ref st
     else if lz_op st \<ge> length (lz_out st) then Some (Lzf_Return0 (lz_out st))
     else do { st \<leftarrow> put_literal inp st; Some (Lzf_Continue st) } }"

lemma compress_step_ip: "compress_step inp st = Some (Lzf_Continue st') \<Longrightarrow> lz_ip st < lz_ip st'"
  by (auto simp: compress_step_def compress_match_def put_literal_def Let_def split: if_splits bind_splits)

text \<open>The main loop; \<open>Inl\<close> is the return of 0.\<close>

function compress_loop :: "byte list \<Rightarrow> lzf \<Rightarrow> (byte list + lzf) option" where
  "compress_loop inp st =
     (if lz_ip st + 2 < length inp then
        (case compress_step inp st of
           None \<Rightarrow> None
         | Some (Lzf_Return0 out) \<Rightarrow> Some (Inl out)
         | Some (Lzf_Break st') \<Rightarrow> Some (Inr st')
         | Some (Lzf_Continue st') \<Rightarrow> compress_loop inp st')
      else Some (Inr st))"
  by pat_completeness auto
termination
  by (relation "measure (\<lambda>(inp, st). length inp - lz_ip st)") (auto dest: compress_step_ip)

declare compress_loop.simps [simp del]

lemma put_literal_ip: "put_literal inp st = Some st' \<Longrightarrow> lz_ip st' = Suc (lz_ip st)"
  by (auto simp: put_literal_def Let_def split: if_splits bind_splits)

function compress_tail :: "byte list \<Rightarrow> lzf \<Rightarrow> lzf option" where
  "compress_tail inp st =
     (if lz_ip st < length inp then
        (case put_literal inp st of None \<Rightarrow> None | Some st' \<Rightarrow> compress_tail inp st')
      else Some st)"
  by pat_completeness auto
termination
  by (relation "measure (\<lambda>(inp, st). length inp - lz_ip st)") (auto dest: put_literal_ip)

declare compress_tail.simps [simp del]

definition lzf_compress :: "(nat \<Rightarrow> u32) \<Rightarrow> byte list \<Rightarrow> byte list \<Rightarrow> (nat \<times> byte list) option" where
  "lzf_compress htab inp out =
     (if inp = [] \<or> out = [] then Some (0, out)
      else do {
        hval \<leftarrow> FRST inp 0;
        r \<leftarrow> compress_loop inp \<lparr>lz_ip = 0, lz_op = 1, lz_lit = 0, lz_hval = hval, lz_htab = htab, lz_out = out\<rparr>;
        (case r of
           Inl out \<Rightarrow> Some (0, out)
         | Inr st \<Rightarrow>
             (if lz_op st + 3 > length (lz_out st) then Some (0, lz_out st)
              else do {
                st \<leftarrow> compress_tail inp st;
                out \<leftarrow> stop_run (lz_op st) (lz_lit st) (lz_out st);
                Some (lz_op st - (if lz_lit st = 0 then 1 else 0), out) })) })"

section \<open>Decompression\<close>

datatype lzf_errno = E2BIG | EINVAL

text \<open>Copies of \<open>n\<close> bytes, one byte after the other: \<open>*op++ = *ip++\<close> from the input, \<open>*op++ = *ref++\<close> in the output.\<close>

primrec copy_in :: "nat \<Rightarrow> byte list \<Rightarrow> nat \<Rightarrow> nat \<Rightarrow> byte list \<Rightarrow> byte list option" where
  "copy_in 0 inp ip op out = Some out"
| "copy_in (Suc n) inp ip op out = do {
     b \<leftarrow> rd inp (int ip);
     out \<leftarrow> wr out (int op) b;
     copy_in n inp (ip + 1) (op + 1) out }"

primrec copy_ref :: "nat \<Rightarrow> nat \<Rightarrow> nat \<Rightarrow> byte list \<Rightarrow> byte list option" where
  "copy_ref 0 ref op out = Some out"
| "copy_ref (Suc n) ref op out = do {
     b \<leftarrow> rd out (int ref);
     out \<leftarrow> wr out (int op) b;
     copy_ref n (ref + 1) (op + 1) out }"

text \<open>One iteration of the loop: the error, or the new \<open>ip\<close> and \<open>op\<close>.\<close>

definition decompress_literal ::
  "byte list \<Rightarrow> nat \<Rightarrow> nat \<Rightarrow> nat \<Rightarrow> byte list \<Rightarrow> ((lzf_errno + nat \<times> nat) \<times> byte list) option" where
  "decompress_literal inp ctrl ip op out =
     (let ctrl = ctrl + 1
      in if op + ctrl > length out then Some (Inl E2BIG, out)
         else if ip + ctrl > length inp then Some (Inl EINVAL, out)
         else do {
           out \<leftarrow> copy_in ctrl inp ip op out;
           Some (Inr (ip + ctrl, op + ctrl), out) })"

definition decompress_ref ::
  "byte list \<Rightarrow> nat \<Rightarrow> nat \<Rightarrow> nat \<Rightarrow> nat \<Rightarrow> byte list \<Rightarrow> ((lzf_errno + nat \<times> nat) \<times> byte list) option" where
  "decompress_ref inp ctrl len ip op out = do {
     b \<leftarrow> rd inp (int ip);
     let ref = int op - int (push_bit 8 (ctrl AND 0x1f)) - 1 - int (unat b);
     let ip = ip + 1;
     if op + len + 2 > length out then Some (Inl E2BIG, out)
     else if ref < 0 then Some (Inl EINVAL, out)
     else do {
       out \<leftarrow>
         (if len > 9 \<and> op \<ge> nat ref + len + 2 then do {
            bs \<leftarrow> mload out ref (len + 2);
            mstore out (int op) bs }
          else copy_ref (len + 2) (nat ref) op out);
       Some (Inr (ip, op + len + 2), out) } }"

definition decompress_step ::
  "byte list \<Rightarrow> nat \<Rightarrow> nat \<Rightarrow> byte list \<Rightarrow> ((lzf_errno + nat \<times> nat) \<times> byte list) option" where
  "decompress_step inp ip op out = do {
     c \<leftarrow> rd inp (int ip);
     let ctrl = unat c;
     let ip = ip + 1;
     if ctrl < 2 ^ 5 then decompress_literal inp ctrl ip op out
     else
       (let len = drop_bit 5 ctrl
        in if ip \<ge> length inp then Some (Inl EINVAL, out)
           else if len = 7 then do {
             b \<leftarrow> rd inp (int ip);
             if ip + 1 \<ge> length inp then Some (Inl EINVAL, out)
             else decompress_ref inp ctrl (len + unat b) (ip + 1) op out }
           else decompress_ref inp ctrl len ip op out) }"

lemma decompress_step_ip: "decompress_step inp ip op out = Some (Inr (ip', op'), out') \<Longrightarrow> ip < ip'"
  by (auto simp: decompress_step_def decompress_literal_def decompress_ref_def Let_def split: if_splits bind_splits)

function decompress_loop :: "byte list \<Rightarrow> nat \<Rightarrow> nat \<Rightarrow> byte list \<Rightarrow> ((lzf_errno + nat) \<times> byte list) option" where
  "decompress_loop inp ip op out =
     (if ip < length inp then
        (case decompress_step inp ip op out of
           None \<Rightarrow> None
         | Some (Inl err, out') \<Rightarrow> Some (Inl err, out')
         | Some (Inr (ip', op'), out') \<Rightarrow> decompress_loop inp ip' op' out')
      else Some (Inr op, out))"
  by pat_completeness auto
termination
  by (relation "measure (\<lambda>(inp, ip, op, out). length inp - ip)") (auto dest!: decompress_step_ip)

declare decompress_loop.simps [simp del]

definition lzf_decompress :: "byte list \<Rightarrow> byte list \<Rightarrow> ((lzf_errno + nat) \<times> byte list) option" where
  "lzf_decompress inp out = decompress_loop inp 0 0 out"

section \<open>Buffers\<close>

lemma rd_Some [mem_simps]: "0 \<le> i \<Longrightarrow> nat i < length m \<Longrightarrow> rd m i = Some (m ! nat i)"
  by (simp add: rd_def)

lemma wr_Some [mem_simps]: "0 \<le> i \<Longrightarrow> nat i < length m \<Longrightarrow> wr m i b = Some (m[nat i := b])"
  by (simp add: wr_def)

lemma rd_nat: "i < length m \<Longrightarrow> rd m (int i) = Some (m ! i)"
  by (simp add: rd_def)

lemma wr_nat: "i < length m \<Longrightarrow> wr m (int i) b = Some (m[i := b])"
  by (simp add: wr_def)

lemma copy_in_spec:
  "ip + n \<le> length inp \<Longrightarrow> op + n \<le> length out \<Longrightarrow>
   copy_in n inp ip op out = Some (take op out @ take n (drop ip inp) @ drop (op + n) out)"
proof (induction n arbitrary: ip op out)
  case (Suc n)
  let ?out = "out[op := inp ! ip]"
  have "take (Suc op) ?out = take op out @ [inp ! ip]" using Suc.prems by (simp add: take_Suc_conv_app_nth)
  moreover have "take (Suc n) (drop ip inp) = inp ! ip # take n (drop (Suc ip) inp)"
    using Suc.prems by (simp add: Cons_nth_drop_Suc [symmetric])
  ultimately show ?case using Suc.IH [of "ip + 1" "op + 1" ?out] Suc.prems by (simp add: rd_nat wr_nat)
qed simp

text \<open>What a copy within the output does: every copied byte is equal to the byte it is copied from.\<close>

definition copied :: "nat \<Rightarrow> nat \<Rightarrow> nat \<Rightarrow> byte list \<Rightarrow> byte list \<Rightarrow> bool" where
  "copied n ref op out out' \<longleftrightarrow>
     length out' = length out \<and> take op out' = take op out \<and> (\<forall>i < n. out' ! (op + i) = out' ! (ref + i))"

lemma copy_ref_spec:
  "ref < op \<Longrightarrow> op + n \<le> length out \<Longrightarrow> \<exists>out'. copy_ref n ref op out = Some out' \<and> copied n ref op out out'"
proof (induction n arbitrary: ref op out)
  case 0
  then show ?case by (simp add: copied_def)
next
  case (Suc n)
  let ?out = "out[op := out ! ref]"
  obtain out' where o: "copy_ref n (Suc ref) (Suc op) ?out = Some out'" "copied n (Suc ref) (Suc op) ?out out'"
    using Suc.IH [of "Suc ref" "Suc op" ?out] Suc.prems by auto
  have t: "take (Suc op) out' = take op out @ [out ! ref]"
    using o(2) Suc.prems by (simp add: copied_def take_Suc_conv_app_nth)
  have nth: "out' ! i = (take op out @ [out ! ref]) ! i" if "i < Suc op" for i
    using that unfolding t [symmetric] by simp
  have "take op out' = take op (take (Suc op) out')" by simp
  then have "take op out' = take op out" unfolding t using Suc.prems by simp
  moreover have "out' ! (op + i) = out' ! (ref + i)" if "i < Suc n" for i
  proof (cases i)
    case 0
    then show ?thesis using nth [of op] nth [of ref] Suc.prems by (simp add: nth_append)
  next
    case (Suc k)
    then show ?thesis using o(2) that by (simp add: copied_def)
  qed
  ultimately show ?case using o Suc.prems by (auto simp: rd_nat wr_nat copied_def)
qed

lemma memcpy_spec:
  assumes "ref + n \<le> op" "op + n \<le> length out"
  shows "\<exists>out'. mload out (int ref) n \<bind> mstore out (int op) = Some out' \<and> copied n ref op out out'"
proof -
  have m: "mload out (int ref) n = Some (take n (drop ref out))" using assms by (simp add: mload_def)
  have "mstore out (int op) (take n (drop ref out)) = Some (take op out @ take n (drop ref out) @ drop (op + n) out)"
    using assms by (simp add: mstore_def min_def)
  moreover have "copied n ref op out (take op out @ take n (drop ref out) @ drop (op + n) out)"
    using assms by (auto simp: copied_def nth_append min_def)
  ultimately show ?thesis using m by simp
qed

section \<open>Compressed data\<close>

text \<open>The bytes of a back reference of \<open>len + 2\<close> bytes.\<close>

definition enc_ref :: "nat \<Rightarrow> nat \<Rightarrow> byte list" where
  "enc_ref off len =
     (if len < 7 then [of_nat (off div 256 + 32 * len), of_nat off]
      else [of_nat (off div 256 + 224), of_nat (len - 7), of_nat off])"

text \<open>The bytes \<open>bs\<close> are runs and references that stand for \<open>xs\<close>.\<close>

inductive decoded :: "byte list \<Rightarrow> byte list \<Rightarrow> bool" where
  decoded_Nil: "decoded [] []"
| decoded_lit: "decoded bs xs \<Longrightarrow> l \<noteq> [] \<Longrightarrow> length l \<le> 32 \<Longrightarrow> decoded (bs @ of_nat (length l - 1) # l) (xs @ l)"
| decoded_ref: "decoded bs xs \<Longrightarrow> off < 8192 \<Longrightarrow> off < length xs \<Longrightarrow> 3 \<le> length ys \<Longrightarrow> length ys \<le> 264 \<Longrightarrow>
    \<forall>i < length ys. (xs @ ys) ! (length xs + i) = (xs @ ys) ! (length xs - off - 1 + i) \<Longrightarrow>
    decoded (bs @ enc_ref off (length ys - 2)) (xs @ ys)"

lemma step_literal:
  assumes "inp = bs @ of_nat (length l - 1) # l @ cs" "l \<noteq> []" "length l \<le> 32" "op + length l \<le> length out"
  shows "decompress_step inp (length bs) op out =
    Some (Inr (length bs + 1 + length l, op + length l), take op out @ l @ drop (op + length l) out)"
proof -
  have c: "unat (of_nat (length l - 1) :: byte) = length l - 1" "Suc (length l - 1) = length l"
    using assms(2,3) by (auto simp: unat_of_nat)
  have "rd inp (int (length bs)) = Some (of_nat (length l - 1))" using assms(1) by (subst rd_nat) simp_all
  moreover have "copy_in (length l) inp (length bs + 1) op out = Some (take op out @ l @ drop (op + length l) out)"
    using assms by (subst copy_in_spec) auto
  moreover have "length l - 1 < 2 ^ 5" "length bs + 1 + length l \<le> length inp" using assms by (auto simp: c(2))
  ultimately show ?thesis using assms(4) c by (simp add: decompress_step_def decompress_literal_def Let_def)
qed

lemma and_31: "(x :: nat) AND 31 = x mod 32"
proof -
  have "(31 :: nat) = mask 5" by (simp add: mask_eq_exp_minus_1)
  then have "x AND 31 = take_bit 5 x" by (simp only: take_bit_eq_mask)
  then show ?thesis by (simp add: take_bit_eq_mod)
qed

lemma decompress_ref_spec:
  assumes "rd inp (int ip) = Some b" "ctrl mod 32 * 256 + unat b = off" "off < op" "op + len + 2 \<le> length out"
  shows "\<exists>out'. decompress_ref inp ctrl len ip op out = Some (Inr (ip + 1, op + len + 2), out') \<and>
    copied (len + 2) (op - off - 1) op out out'"
proof -
  define ref where "ref = op - off - 1"
  have p: "push_bit 8 (ctrl AND 31) = ctrl mod 32 * 256" by (simp add: and_31 push_bit_eq_mult)
  have r: "int op - int (push_bit 8 (ctrl AND 31)) - 1 - int (unat b) = int ref"
    using assms(2,3) unfolding ref_def p by linarith
  have ref: "ref < op" using assms(3) by (simp add: ref_def)
  show ?thesis
  proof (cases "len > 9 \<and> op \<ge> ref + len + 2")
    case True
    then obtain out' where "mload out (int ref) (len + 2) \<bind> mstore out (int op) = Some out'" "copied (len + 2) ref op out out'"
      using memcpy_spec [of ref "len + 2" op out] assms(4) by auto
    then show ?thesis using True assms(1,4) r unfolding ref_def [symmetric] by (simp add: decompress_ref_def Let_def)
  next
    case False
    obtain out' where "copy_ref (len + 2) ref op out = Some out'" "copied (len + 2) ref op out out'"
      using copy_ref_spec [OF ref, of "len + 2" out] assms(4) by auto
    then show ?thesis using False assms(1,4) r unfolding ref_def [symmetric]
      by (auto simp: decompress_ref_def Let_def)
  qed
qed

lemma ctrl_7: "(q :: nat) < 32 \<Longrightarrow> (q + 224) mod 32 = q \<and> (q + 224) div 32 = 7"
  using mod_mult_self1 [of q 7 32] div_mult_self1 [of 32 q 7] by simp

lemma step_ref:
  assumes "inp = bs @ enc_ref off len @ cs" "0 < len" "len \<le> 262" "off < 8192" "off < op" "op + len + 2 \<le> length out"
  shows "\<exists>out'. decompress_step inp (length bs) op out = Some (Inr (length bs + length (enc_ref off len), op + len + 2), out') \<and>
    copied (len + 2) (op - off - 1) op out out'"
proof -
  have o: "off div 256 < 32" "unat (of_nat off :: byte) = off mod 256" using assms(4) by (auto simp: unat_of_nat)
  show ?thesis
  proof (cases "len < 7")
    case True
    define ctrl where "ctrl = off div 256 + 32 * len"
    have c: "ctrl < 256" "32 \<le> ctrl" "ctrl mod 32 = off div 256" "ctrl div 32 = len" using o(1) True assms(2) by (auto simp: ctrl_def)
    have u: "unat (of_nat ctrl :: byte) = ctrl" using c(1) by (simp add: unat_of_nat)
    have i: "inp = bs @ [of_nat ctrl, of_nat off] @ cs" using assms(1) True by (simp add: enc_ref_def ctrl_def)
    have r: "rd inp (int (length bs)) = Some (of_nat ctrl)" "rd inp (int (length bs + 1)) = Some (of_nat off)"
      unfolding i by (subst rd_nat; simp add: nth_append)+
    have off: "ctrl mod 32 * 256 + unat (of_nat off :: byte) = off" using c(3) o(2) by simp
    obtain out' where "decompress_ref inp ctrl len (length bs + 1) op out = Some (Inr (length bs + 1 + 1, op + len + 2), out')"
      "copied (len + 2) (op - off - 1) op out out'"
      using decompress_ref_spec [OF r(2) off assms(5,6)] by blast
    then show ?thesis using r(1) c u True i
      by (simp add: decompress_step_def Let_def drop_bit_eq_div enc_ref_def)
  next
    case False
    define ctrl where "ctrl = off div 256 + 224"
    have c: "ctrl < 256" "32 \<le> ctrl" "ctrl mod 32 = off div 256" "ctrl div 32 = 7"
      using o(1) ctrl_7 [OF o(1)] unfolding ctrl_def by simp_all
    have u: "unat (of_nat ctrl :: byte) = ctrl" "unat (of_nat (len - 7) :: byte) = len - 7"
      using c(1) assms(3) by (simp_all add: unat_of_nat del: of_nat_diff)
    have i: "inp = bs @ [of_nat ctrl, of_nat (len - 7), of_nat off] @ cs" using assms(1) False by (simp add: enc_ref_def ctrl_def)
    have r: "rd inp (int (length bs)) = Some (of_nat ctrl)" "rd inp (int (length bs + 1)) = Some (of_nat (len - 7))"
      "rd inp (int (length bs + 2)) = Some (of_nat off)"
      unfolding i by (subst rd_nat; simp add: nth_append)+
    have off: "ctrl mod 32 * 256 + unat (of_nat off :: byte) = off" using c(3) o(2) by simp
    obtain out' where "decompress_ref inp ctrl len (length bs + 2) op out = Some (Inr (length bs + 2 + 1, op + len + 2), out')"
      "copied (len + 2) (op - off - 1) op out out'"
      using decompress_ref_spec [OF r(3) off assms(5,6)] by blast
    moreover have "length bs + 2 < length inp" "7 + (len - 7) = len" using False i by auto
    moreover define b7 :: byte where "b7 = of_nat (len - 7)"
    ultimately show ?thesis using r(1,2) c u False unfolding b7_def [symmetric] decompress_step_def
      by (simp add: Let_def drop_bit_eq_div enc_ref_def)
  qed
qed

text \<open>The bytes a copy has produced are those the reference stands for.\<close>

lemma copied_eq:
  assumes "copied (length ys) (length xs - off - 1) (length xs) out out'" "take (length xs) out = xs" "off < length xs"
    "length xs + length ys \<le> length out"
    "\<forall>i < length ys. (xs @ ys) ! (length xs + i) = (xs @ ys) ! (length xs - off - 1 + i)"
  shows "take (length (xs @ ys)) out' = xs @ ys"
proof (rule nth_equalityI)
  show l: "length (take (length (xs @ ys)) out') = length (xs @ ys)" using assms(1,4) by (simp add: copied_def)
  have x: "out' ! i = xs ! i" if "i < length xs" for i
    using assms(1,2) that unfolding copied_def by (metis nth_take)
  have "out' ! k = (xs @ ys) ! k" if "k < length (xs @ ys)" for k
    using that
  proof (induction k rule: less_induct)
    case (less k)
    show ?case
    proof (cases "k < length xs")
      case True
      then show ?thesis using x by (simp add: nth_append)
    next
      case False
      then obtain i where i: "k = length xs + i" "i < length ys" using less.prems by (metis add_diff_inverse_nat length_append nat_add_left_cancel_less)
      have "out' ! k = out' ! (length xs - off - 1 + i)" using assms(1) i by (simp add: copied_def)
      also have "\<dots> = (xs @ ys) ! (length xs - off - 1 + i)" using i assms(3) by (intro less.IH) auto
      also have "\<dots> = (xs @ ys) ! k" using assms(5) i by simp
      finally show ?thesis .
    qed
  qed
  then show "take (length (xs @ ys)) out' ! i = (xs @ ys) ! i" if "i < length (take (length (xs @ ys)) out')" for i
    using that l by simp
qed

lemma decoded_loop:
  assumes "decoded bs xs" "length xs \<le> length out"
  shows "\<exists>out'. length out' = length out \<and> take (length xs) out' = xs \<and>
    decompress_loop (bs @ cs) 0 0 out = decompress_loop (bs @ cs) (length bs) (length xs) out'"
  using assms
proof (induction arbitrary: cs rule: decoded.induct)
  case decoded_Nil
  then show ?case by (intro exI [of _ out]) simp
next
  case (decoded_lit bs xs l)
  define c :: byte where "c = of_nat (length l - 1)"
  obtain o1 where o1: "length o1 = length out" "take (length xs) o1 = xs"
    "decompress_loop (bs @ c # l @ cs) 0 0 out = decompress_loop (bs @ c # l @ cs) (length bs) (length xs) o1"
    using decoded_lit.IH [of "c # l @ cs"] decoded_lit.prems by auto
  define o2 where "o2 = take (length xs) o1 @ l @ drop (length xs + length l) o1"
  have st: "decompress_step (bs @ c # l @ cs) (length bs) (length xs) o1 =
      Some (Inr (length bs + 1 + length l, length xs + length l), o2)"
    using step_literal [OF refl decoded_lit.hyps(2,3), of "length xs" o1 bs cs] decoded_lit.prems o1(1) by (simp add: c_def o2_def)
  have "decompress_loop ((bs @ c # l) @ cs) 0 0 out = decompress_loop ((bs @ c # l) @ cs) (length (bs @ c # l)) (length (xs @ l)) o2"
    using o1(3) st by (subst (asm) (2) decompress_loop.simps) simp
  moreover have "length o2 = length out" "take (length (xs @ l)) o2 = xs @ l"
    using o1(1,2) decoded_lit.prems by (simp_all add: o2_def)
  ultimately show ?case unfolding c_def by blast
next
  case (decoded_ref bs xs off ys)
  define len where "len = length ys - 2"
  have len: "0 < len" "len \<le> 262" "len + 2 = length ys" using decoded_ref.hyps(4,5) by (auto simp: len_def)
  obtain o1 where o1: "length o1 = length out" "take (length xs) o1 = xs"
    "decompress_loop (bs @ enc_ref off len @ cs) 0 0 out = decompress_loop (bs @ enc_ref off len @ cs) (length bs) (length xs) o1"
    using decoded_ref.IH [of "enc_ref off len @ cs"] decoded_ref.prems by auto
  have fits: "length xs + len + 2 \<le> length o1" using decoded_ref.prems o1(1) len(3) by simp
  obtain o2 where st: "decompress_step (bs @ enc_ref off len @ cs) (length bs) (length xs) o1 =
      Some (Inr (length bs + length (enc_ref off len), length xs + len + 2), o2)"
    and cp: "copied (len + 2) (length xs - off - 1) (length xs) o1 o2"
    using step_ref [OF refl len(1,2) decoded_ref.hyps(2,3) fits] by blast
  have ne: "enc_ref off len \<noteq> []" by (simp add: enc_ref_def)
  have l: "length xs + len + 2 = length (xs @ ys)" using len(3) by simp
  have "decompress_loop ((bs @ enc_ref off len) @ cs) 0 0 out =
      decompress_loop ((bs @ enc_ref off len) @ cs) (length (bs @ enc_ref off len)) (length (xs @ ys)) o2"
    using o1(3) st ne unfolding l by (subst (asm) (2) decompress_loop.simps) simp
  moreover have "length o2 = length out" using cp o1(1) by (simp add: copied_def)
  moreover have "take (length (xs @ ys)) o2 = xs @ ys"
  proof (rule copied_eq [OF cp [unfolded len(3)] o1(2) decoded_ref.hyps(3) _ decoded_ref.hyps(6)])
    show "length xs + length ys \<le> length o1" using fits len(3) by simp
  qed
  ultimately show ?case unfolding len_def by blast
qed

lemma decoded_decompress:
  assumes "decoded bs xs" "length xs \<le> length out"
  shows "\<exists>out'. lzf_decompress bs out = Some (Inr (length xs), out') \<and> take (length xs) out' = xs"
proof -
  obtain out' where "take (length xs) out' = xs"
    "decompress_loop bs 0 0 out = decompress_loop bs (length bs) (length xs) out'"
    using decoded_loop [OF assms, of "[]"] by auto
  then show ?thesis unfolding lzf_decompress_def by (subst (asm) (2) decompress_loop.simps) simp
qed

text \<open>On any input the decompressor stays inside its buffers.\<close>

definition step_safe :: "byte list \<Rightarrow> byte list \<Rightarrow> ((lzf_errno + nat \<times> nat) \<times> byte list) option \<Rightarrow> bool" where
  "step_safe inp out r \<longleftrightarrow> (\<exists>res out'. r = Some (res, out') \<and> length out' = length out \<and>
     (\<forall>ip' op'. res = Inr (ip', op') \<longrightarrow> op' \<le> length out))"

lemma decompress_ref_safe:
  assumes "ip < length inp" "op \<le> length out"
  shows "step_safe inp out (decompress_ref inp ctrl len ip op out)"
proof -
  define b where "b = inp ! ip"
  have r: "rd inp (int ip) = Some b" using assms(1) by (simp add: rd_nat b_def)
  define ref where "ref = int op - int (push_bit 8 (ctrl AND 31)) - 1 - int (unat b)"
  have d: "decompress_ref inp ctrl len ip op out =
      (if op + len + 2 > length out then Some (Inl E2BIG, out)
       else if ref < 0 then Some (Inl EINVAL, out)
       else do {
         out \<leftarrow> (if len > 9 \<and> op \<ge> nat ref + len + 2 then mload out ref (len + 2) \<bind> mstore out (int op)
                else copy_ref (len + 2) (nat ref) op out);
         Some (Inr (ip + 1, op + len + 2), out) })"
    using r by (simp add: decompress_ref_def ref_def Let_def)
  show ?thesis
  proof (cases "op + len + 2 > length out \<or> ref < 0")
    case True
    then show ?thesis unfolding d by (auto simp: step_safe_def)
  next
    case False
    then have f: "op + (len + 2) \<le> length out" "ref = int (nat ref)" by auto
    have "ref < int op" unfolding ref_def by linarith
    then have "nat ref < op" using f(2) by linarith
    then obtain out' where "(if len > 9 \<and> op \<ge> nat ref + len + 2 then mload out ref (len + 2) \<bind> mstore out (int op)
        else copy_ref (len + 2) (nat ref) op out) = Some out'" "copied (len + 2) (nat ref) op out out'"
      using memcpy_spec [of "nat ref" "len + 2" op out] copy_ref_spec [of "nat ref" op "len + 2" out] f by (metis add.assoc)
    then show ?thesis using False unfolding d by (simp add: step_safe_def copied_def)
  qed
qed

lemma decompress_step_safe:
  assumes "ip < length inp" "op \<le> length out"
  shows "step_safe inp out (decompress_step inp ip op out)"
proof -
  define c where "c = unat (inp ! ip)"
  have r: "rd inp (int ip) = Some (inp ! ip)" using assms(1) by (simp add: rd_nat)
  have lit: "step_safe inp out (decompress_literal inp c (ip + 1) op out)"
  proof (cases "op + (c + 1) > length out \<or> ip + 1 + (c + 1) > length inp")
    case True
    then show ?thesis by (auto simp: step_safe_def decompress_literal_def Let_def)
  next
    case False
    then show ?thesis using copy_in_spec [of "ip + 1" "c + 1" inp op out]
      by (auto simp: step_safe_def decompress_literal_def Let_def min_def simp del: copy_in.simps)
  qed
  show ?thesis
    using r lit decompress_ref_safe [of "ip + 1" inp op out] decompress_ref_safe [of "ip + 2" inp op out] assms(2)
    by (auto simp: decompress_step_def Let_def c_def [symmetric] rd_nat [of "ip + 1", simplified] step_safe_def [of _ _ "Some _"])
qed

lemma decompress_loop_safe:
  "op \<le> length out \<Longrightarrow> \<exists>r out'. decompress_loop inp ip op out = Some (r, out') \<and> length out' = length out \<and>
     (\<forall>n. r = Inr n \<longrightarrow> n \<le> length out)"
proof (induction "length inp - ip" arbitrary: ip op out rule: less_induct)
  case less
  show ?case
  proof (cases "ip < length inp")
    case False
    then show ?thesis using less.prems by (subst decompress_loop.simps) simp
  next
    case True
    then obtain res out' where s: "decompress_step inp ip op out = Some (res, out')" "length out' = length out"
      "\<forall>ip' op'. res = Inr (ip', op') \<longrightarrow> op' \<le> length out"
      using decompress_step_safe [OF True less.prems] by (auto simp: step_safe_def)
    show ?thesis
    proof (cases res)
      case (Inl err)
      then show ?thesis using s True by (subst decompress_loop.simps) simp
    next
      case (Inr p)
      obtain ip' op' where p: "p = (ip', op')" by (cases p)
      have "ip < ip'" using decompress_step_ip s(1) Inr p by blast
      then show ?thesis using less.hyps [of ip' op' out'] s True Inr p by (subst decompress_loop.simps) simp
    qed
  qed
qed

section \<open>Matches\<close>

lemma lzf_off_eq:
  assumes "ip < 2 ^ 32" "ref < 2 ^ 32" "lzf_off ip ref < MAX_OFF"
  shows "ref < ip" "lzf_off ip ref = ip - ref - 1"
proof -
  show lt: "ref < ip"
  proof (rule ccontr)
    assume "\<not> ref < ip"
    define x where "x = int ip - int ref - 1"
    have x: "- (2 ^ 32) \<le> x" "x < 0" using \<open>\<not> ref < ip\<close> assms(2) by (auto simp: x_def)
    then have "(x + 2 ^ 64) mod 2 ^ 64 = x + 2 ^ 64" by (intro mod_pos_pos_trivial) simp_all
    then have "x mod 2 ^ 64 = x + 2 ^ 64" by simp
    then show False using assms(3) x(1) unfolding lzf_off_def MAX_OFF_def x_def [symmetric] by simp
  qed
  then show "lzf_off ip ref = ip - ref - 1" using assms(1) by (simp add: lzf_off_def)
qed

text \<open>The first \<open>n\<close> bytes at \<open>ref\<close> and at \<open>ip\<close> are equal.\<close>

definition same :: "byte list \<Rightarrow> nat \<Rightarrow> nat \<Rightarrow> nat \<Rightarrow> bool" where
  "same inp ref ip n \<longleftrightarrow> (\<forall>i < n. inp ! (ref + i) = inp ! (ip + i))"

lemma same_Suc: "same inp ref ip (Suc n) \<longleftrightarrow> same inp ref ip n \<and> inp ! (ref + n) = inp ! (ip + n)"
  by (auto simp: same_def less_Suc_eq)

lemma lzf_match_spec:
  assumes "ip + 2 < length inp" "length inp \<le> 2 ^ 32" "ref < 2 ^ 32"
  shows "\<exists>m. lzf_match inp ref ip = Some m \<and> (m \<longrightarrow> 0 < ref \<and> ref < ip \<and> lzf_off ip ref = ip - ref - 1 \<and>
    lzf_off ip ref < 8192 \<and> same inp ref ip 3)"
proof (cases "lzf_off ip ref < MAX_OFF \<and> ref > 0")
  case False
  then show ?thesis by (auto simp: lzf_match_def)
next
  case True
  then have r: "ref < ip" "lzf_off ip ref = ip - ref - 1" using lzf_off_eq [of ip ref] assms by auto
  have rds: "rd inp (int ref + 2) = Some (inp ! (ref + 2))" "rd inp (int ip + 2) = Some (inp ! (ip + 2))"
    "rd inp (int ref) = Some (inp ! ref)" "rd inp (int ref + 1) = Some (inp ! (ref + 1))"
    "rd inp (int ip) = Some (inp ! ip)" "rd inp (int ip + 1) = Some (inp ! (ip + 1))"
    using r(1) assms(1) by (simp_all add: rd_def nat_add_distrib)
  have "same inp ref ip 3 \<longleftrightarrow> inp ! (ref + 2) = inp ! (ip + 2) \<and> inp ! ref = inp ! ip \<and> inp ! (ref + 1) = inp ! (ip + 1)"
    by (auto simp: numeral_3_eq_3 same_Suc) (simp_all add: same_def)
  then show ?thesis using True r rds by (auto simp: lzf_match_def MAX_OFF_def)
qed

lemma rd_off: "p + k < length inp \<Longrightarrow> rd inp (int p + int k) = Some (inp ! (p + k))"
  using rd_nat [of "p + k" inp] by simp

lemma match_unrolled_spec:
  assumes "ref < ip" "ip + len + n < length inp" "same inp ref ip (len + 1)"
  shows "\<exists>l brk. match_unrolled n inp ref ip len = Some (l, brk) \<and> l \<le> len + n \<and> same inp ref ip l \<and>
    (brk \<longrightarrow> len < l) \<and> (\<not> brk \<longrightarrow> l = len + n \<and> same inp ref ip (l + 1))"
  using assms
proof (induction n arbitrary: len)
  case 0
  then show ?case by (auto simp: same_Suc)
next
  case (Suc n)
  have r: "rd inp (int ref + int (len + 1)) = Some (inp ! (ref + (len + 1)))"
    "rd inp (int ip + int (len + 1)) = Some (inp ! (ip + (len + 1)))" using Suc.prems by (intro rd_off; simp)+
  show ?case
  proof (cases "inp ! (ref + (len + 1)) = inp ! (ip + (len + 1))")
    case True
    have "same inp ref ip (len + 1 + 1)" using Suc.prems(3) True by (simp add: same_Suc)
    then obtain l brk where "match_unrolled n inp ref ip (len + 1) = Some (l, brk)" "l \<le> len + 1 + n" "same inp ref ip l"
      "brk \<longrightarrow> len + 1 < l" "\<not> brk \<longrightarrow> l = len + 1 + n \<and> same inp ref ip (l + 1)"
      using Suc.IH [of "len + 1"] Suc.prems by auto
    then show ?thesis using r True by auto
  next
    case False
    then show ?thesis using r Suc.prems(3) by auto
  qed
qed

lemma match_rest_spec:
  assumes "ref < ip" "ip + maxlen \<le> length inp" "same inp ref ip (len + 1)"
  shows "\<exists>l. match_rest inp ref ip maxlen len = Some l \<and> len < l \<and> (l \<le> maxlen \<or> l = len + 1) \<and> same inp ref ip l"
  using assms(3)
proof (induction "maxlen - len" arbitrary: len rule: less_induct)
  case less
  show ?case
  proof (cases "len + 1 < maxlen")
    case False
    then show ?thesis using less.prems by (subst match_rest.simps) simp
  next
    case True
    have r: "rd inp (int ref + int (len + 1)) = Some (inp ! (ref + (len + 1)))"
      "rd inp (int ip + int (len + 1)) = Some (inp ! (ip + (len + 1)))" using assms(1,2) True by (intro rd_off; simp)+
    show ?thesis
    proof (cases "inp ! (ref + (len + 1)) = inp ! (ip + (len + 1))")
      case eq: True
      have "same inp ref ip (len + 1 + 1)" using less.prems eq by (simp add: same_Suc)
      then obtain l where "match_rest inp ref ip maxlen (len + 1) = Some l" "len + 1 < l" "l \<le> maxlen \<or> l = len + 1 + 1" "same inp ref ip l"
        using less.hyps [of "len + 1"] True by (metis add.commute diff_less_mono2 less_add_one less_trans)
      then show ?thesis using r True eq by (subst match_rest.simps) auto
    next
      case False
      then show ?thesis using r True less.prems by (subst match_rest.simps) auto
    qed
  qed
qed

lemma match_len_spec:
  assumes "ref < ip" "ip + 2 < length inp" "same inp ref ip 3"
  shows "\<exists>len. match_len inp ref ip = Some len \<and> 3 \<le> len \<and> len \<le> 264 \<and> ip + len \<le> length inp \<and> same inp ref ip len"
proof -
  define maxlen where "maxlen = (if length inp - ip - 2 > MAX_REF then MAX_REF else length inp - ip - 2)"
  have m: "maxlen \<le> 264" "ip + maxlen + 2 \<le> length inp" "0 < maxlen" using assms(2) by (auto simp: maxlen_def MAX_REF_def)
  have s2: "same inp ref ip (2 + 1)" using assms(3) by simp
  have ml: "match_len inp ref ip =
      (if maxlen > 16 then do {
         (len, brk) \<leftarrow> match_unrolled 16 inp ref ip 2;
         if brk then Some len else match_rest inp ref ip maxlen len }
       else match_rest inp ref ip maxlen 2)" by (simp only: match_len_def Let_def maxlen_def)
  show ?thesis
  proof (cases "maxlen > 16")
    case False
    obtain l where "match_rest inp ref ip maxlen 2 = Some l" "2 < l" "l \<le> maxlen \<or> l = 2 + 1" "same inp ref ip l"
      using match_rest_spec [OF assms(1) _ s2, of maxlen] m(2) by auto
    then show ?thesis using False m assms(2) by (auto simp: ml)
  next
    case True
    obtain l brk where u: "match_unrolled 16 inp ref ip 2 = Some (l, brk)" "l \<le> 2 + 16" "same inp ref ip l"
      "brk \<longrightarrow> 2 < l" "\<not> brk \<longrightarrow> l = 2 + 16 \<and> same inp ref ip (l + 1)"
      using match_unrolled_spec [OF assms(1) _ s2, of 16] True m(2) by auto
    show ?thesis
    proof (cases brk)
      case brk: True
      then show ?thesis using u True m by (auto simp: ml)
    next
      case False
      then have "same inp ref ip (l + 1)" using u(5) by blast
      then obtain l' where "match_rest inp ref ip maxlen l = Some l'" "l < l'" "l' \<le> maxlen \<or> l' = l + 1" "same inp ref ip l'"
        using match_rest_spec [OF assms(1), of maxlen inp l] m(2) by auto
      then show ?thesis using u True False m by (auto simp: ml)
    qed
  qed
qed

section \<open>The state of the compressor\<close>

text \<open>
  The finished output stands for the input before the current run, the run is the last \<open>lit\<close> bytes of
  the input, after the byte kept for its length; the output is at most 33/32 of the input.
\<close>

definition lzf_inv :: "byte list \<Rightarrow> nat \<Rightarrow> lzf \<Rightarrow> bool" where
  "lzf_inv inp n st \<longleftrightarrow> (\<exists>base. lz_op st = base + 1 + lz_lit st \<and> lz_lit st < 32 \<and> lz_lit st \<le> lz_ip st \<and>
     lz_ip st \<le> length inp \<and> base + lz_lit st \<le> length (lz_out st) \<and> length (lz_out st) = n \<and>
     decoded (take base (lz_out st)) (take (lz_ip st - lz_lit st) inp) \<and>
     take (lz_lit st) (drop (base + 1) (lz_out st)) = take (lz_lit st) (drop (lz_ip st - lz_lit st) inp) \<and>
     32 * base \<le> 33 * (lz_ip st - lz_lit st))"

lemma lzf_inv_op: "lzf_inv inp n st \<Longrightarrow> 32 * lz_op st \<le> 33 * lz_ip st + 32"
  by (auto simp: lzf_inv_def)

text \<open>Ending the run makes all the input before \<open>ip\<close> finished.\<close>

lemma take_drop_split: "k \<le> i \<Longrightarrow> i \<le> length xs \<Longrightarrow> take (i - k) xs @ take k (drop (i - k) xs) = take i xs"
  by (metis le_add_diff_inverse2 take_add)

lemma decoded_run:
  assumes "decoded (take base out) (take (ip - lit) inp)" "0 < lit" "lit \<le> 32" "lit \<le> ip" "ip \<le> length inp"
    "base + 1 + lit \<le> length out" "take lit (drop (base + 1) out) = take lit (drop (ip - lit) inp)"
  shows "decoded (take (base + 1 + lit) (out[base := word_of_int (int lit - 1)])) (take ip inp)"
proof -
  define l where "l = take lit (drop (ip - lit) inp)"
  have l: "length l = lit" "l \<noteq> []" using assms(2,4,5) by (auto simp: l_def)
  have c: "(word_of_int (int lit - 1) :: byte) = of_nat (length l - 1)"
  proof -
    have "int lit - 1 = int (length l - 1)" using assms(2) l(1) by simp
    then show ?thesis by (simp only: of_int_of_nat_eq)
  qed
  have "take (base + 1 + lit) (out[base := b]) = take base out @ b # l" for b
  proof -
    have "out[base := b] = take base out @ b # drop (Suc base) out" using assms(6) by (simp add: upd_conv_take_nth_drop)
    then show ?thesis using assms(6,7) by (simp add: l_def take_Cons')
  qed
  moreover have "take ip inp = take (ip - lit) inp @ l" unfolding l_def using take_drop_split [OF assms(4,5)] by simp
  ultimately show ?thesis using decoded_lit [OF assms(1) l(2)] l(1) assms(3) c by simp
qed

lemma flush:
  assumes "lzf_inv inp n st" "lz_op st \<le> n"
  obtains out' where "stop_run (lz_op st) (lz_lit st) (lz_out st) = Some out'" "length out' = n"
    "decoded (take (lz_op st - (if lz_lit st = 0 then 1 else 0)) out') (take (lz_ip st) inp)"
proof -
  obtain base where b: "lz_op st = base + 1 + lz_lit st" "lz_lit st < 32" "lz_lit st \<le> lz_ip st" "lz_ip st \<le> length inp"
    "length (lz_out st) = n" "decoded (take base (lz_out st)) (take (lz_ip st - lz_lit st) inp)"
    "take (lz_lit st) (drop (base + 1) (lz_out st)) = take (lz_lit st) (drop (lz_ip st - lz_lit st) inp)"
    using assms(1) by (auto simp: lzf_inv_def)
  define out' where "out' = (lz_out st)[base := word_of_int (int (lz_lit st) - 1)]"
  have i: "int (lz_op st) - int (lz_lit st) - 1 = int base" using b(1) by simp
  have "stop_run (lz_op st) (lz_lit st) (lz_out st) = Some out'"
    unfolding stop_run_def i out'_def using b(1,5) assms(2) by (intro wr_nat) simp
  moreover have "decoded (take (lz_op st - (if lz_lit st = 0 then 1 else 0)) out') (take (lz_ip st) inp)"
  proof (cases "lz_lit st = 0")
    case True
    then show ?thesis using b(1,6) by (simp add: out'_def)
  next
    case False
    then show ?thesis using decoded_run [OF b(6) _ _ b(3,4) _ b(7)] b(1,2,5) assms(2) by (simp add: out'_def)
  qed
  ultimately show ?thesis using that b(5) by (simp add: out'_def)
qed

lemma take_append_wr: "take i m = xs \<Longrightarrow> i < length m \<Longrightarrow> take (Suc i) (m[i := b]) = xs @ [b]"
  by (simp add: take_Suc_conv_app_nth)

lemma put_ref_spec:
  assumes "op + 3 \<le> length out"
  obtains out' where "put_ref off len op out = Some (op + length (enc_ref off len), out')" "length out' = length out"
    "take (op + length (enc_ref off len)) out' = take op out @ enc_ref off len"
proof (cases "len < 7")
  case True
  let ?c = "of_nat (off div 256 + 32 * len) :: byte"
  let ?o = "out[op := ?c, Suc op := of_nat off]"
  have "put_ref off len op out = Some (op + 2, ?o)"
    using True assms wr_nat [of op out] wr_nat [of "Suc op" "out[op := ?c]"]
    by (simp add: put_ref_def drop_bit_eq_div push_bit_eq_mult mult.commute)
  moreover have "take (Suc (Suc op)) ?o = (take op out @ [?c]) @ [of_nat off]"
    using assms by (intro take_append_wr) simp_all
  ultimately show ?thesis using that [of ?o] True by (simp add: enc_ref_def)
next
  case False
  let ?c = "of_nat (off div 256 + 224) :: byte"
  let ?l = "of_nat (len - 7) :: byte"
  let ?o = "out[op := ?c, Suc op := ?l, Suc (Suc op) := of_nat off]"
  have "put_ref off len op out = Some (op + 3, ?o)"
    using False assms wr_nat [of op out] wr_nat [of "Suc op" "out[op := ?c]"] wr_nat [of "Suc (Suc op)" "out[op := ?c, Suc op := ?l]"]
    by (simp add: put_ref_def drop_bit_eq_div push_bit_eq_mult mult.commute add.commute)
  moreover have "take (Suc (Suc (Suc op))) ?o = ((take op out @ [?c]) @ [?l]) @ [of_nat off]"
    using assms by (intro take_append_wr) simp_all
  ultimately show ?thesis using that [of ?o] False by (simp add: enc_ref_def numeral_3_eq_3)
qed

lemma put_literal_spec:
  assumes inv: "lzf_inv inp n st" and ip: "lz_ip st < length inp" and op: "lz_op st < n"
  obtains st' where "put_literal inp st = Some st'" "lzf_inv inp n st'" "lz_ip st' = lz_ip st + 1"
    "lz_lit st' = lz_lit st + 1 \<and> lz_op st' = lz_op st + 1 \<or> lz_lit st' = 0 \<and> lz_lit st = 31 \<and> lz_op st' = lz_op st + 2"
proof -
  obtain base where b: "lz_op st = base + 1 + lz_lit st" "lz_lit st < 32" "lz_lit st \<le> lz_ip st"
    "length (lz_out st) = n" "decoded (take base (lz_out st)) (take (lz_ip st - lz_lit st) inp)"
    "take (lz_lit st) (drop (base + 1) (lz_out st)) = take (lz_lit st) (drop (lz_ip st - lz_lit st) inp)"
    "32 * base \<le> 33 * (lz_ip st - lz_lit st)"
    using inv by (auto simp: lzf_inv_def)
  define o1 where "o1 = (lz_out st)[lz_op st := inp ! lz_ip st]"
  have r: "rd inp (int (lz_ip st)) = Some (inp ! lz_ip st)" "wr (lz_out st) (int (lz_op st)) (inp ! lz_ip st) = Some o1"
    using ip op b(4) by (simp_all add: rd_nat wr_nat o1_def)
  have l1: "length o1 = n" "take base o1 = take base (lz_out st)" using b(1,4) by (simp_all add: o1_def)
  have i: "lz_ip st + 1 - (lz_lit st + 1) = lz_ip st - lz_lit st" "lz_ip st - lz_lit st + lz_lit st = lz_ip st" using b(3) by auto
  have run: "take (lz_lit st + 1) (drop (base + 1) o1) = take (lz_lit st + 1) (drop (lz_ip st + 1 - (lz_lit st + 1)) inp)"
  proof -
    have "drop (base + 1) o1 = (drop (base + 1) (lz_out st))[lz_lit st := inp ! lz_ip st]"
      unfolding o1_def b(1) by (subst drop_update_swap) auto
    then have "take (Suc (lz_lit st)) (drop (base + 1) o1) = take (lz_lit st) (drop (lz_ip st - lz_lit st) inp) @ [inp ! lz_ip st]"
      using take_append_wr [OF b(6)] op b(1,4) by simp
    also have "\<dots> = take (Suc (lz_lit st)) (drop (lz_ip st - lz_lit st) inp)"
      using ip b(3) by (subst take_Suc_conv_app_nth) (simp_all add: i(2))
    finally show ?thesis by simp
  qed
  have d1: "decoded (take base o1) (take (lz_ip st + 1 - (lz_lit st + 1)) inp)" using b(5) l1(2) i(1) by simp
  show ?thesis
  proof (cases "lz_lit st + 1 = MAX_LIT")
    case False
    let ?st = "st\<lparr>lz_ip := lz_ip st + 1, lz_op := lz_op st + 1, lz_lit := lz_lit st + 1, lz_out := o1\<rparr>"
    have "lzf_inv inp n ?st" unfolding lzf_inv_def
      using b False l1(1) d1 run ip op by (intro exI [of _ base]) (auto simp: MAX_LIT_def)
    moreover have "put_literal inp st = Some ?st" using r False by (simp add: put_literal_def)
    ultimately show ?thesis using that [of ?st] by simp
  next
    case True
    then have lit: "lz_lit st + 1 = 32" by (simp add: MAX_LIT_def)
    define o2 where "o2 = o1[base := word_of_int (int (lz_lit st + 1) - 1)]"
    let ?st = "st\<lparr>lz_ip := lz_ip st + 1, lz_op := lz_op st + 2, lz_lit := 0, lz_out := o2\<rparr>"
    have e: "int (lz_op st + 1) - int (lz_lit st + 1) - 1 = int base" using b(1) by simp
    have "stop_run (lz_op st + 1) (lz_lit st + 1) o1 = Some o2"
      unfolding stop_run_def e o2_def using b(1) op l1(1) by (intro wr_nat) simp
    then have "put_literal inp st = Some ?st" using r True by (simp add: put_literal_def)
    moreover have "decoded (take (base + 1 + (lz_lit st + 1)) o2) (take (lz_ip st + 1) inp)"
      unfolding o2_def using b(1-3) lit ip op l1(1) by (intro decoded_run [OF d1 _ _ _ _ _ run]) (auto simp: lit)
    then have "lzf_inv inp n ?st" unfolding lzf_inv_def
      using b(1,3,7) lit l1(1) ip op o2_def by (intro exI [of _ "lz_op st + 1"]) auto
    ultimately show ?thesis using that [of ?st] lit by simp
  qed
qed

text \<open>What an iteration promises.\<close>

definition step_ok :: "byte list \<Rightarrow> nat \<Rightarrow> lzf \<Rightarrow> lzf_next option \<Rightarrow> bool" where
  "step_ok inp n st r \<longleftrightarrow> (case r of
     None \<Rightarrow> False
   | Some (Lzf_Return0 out) \<Rightarrow> length out = n \<and> n \<le> lz_op st + 4
   | Some (Lzf_Break st') \<Rightarrow> lzf_inv inp n st' \<and> length inp \<le> lz_ip st' + 2
   | Some (Lzf_Continue st') \<Rightarrow> lzf_inv inp n st')"

lemma same_decoded:
  assumes "decoded bs (take ip inp)" "0 < ref" "ref < ip" "ip - ref - 1 < 8192" "3 \<le> len" "len \<le> 264" "ip + len \<le> length inp"
    "same inp ref ip len"
  shows "decoded (bs @ enc_ref (ip - ref - 1) (len - 2)) (take (ip + len) inp)"
proof -
  let ?ys = "take len (drop ip inp)"
  have l: "length (take ip inp) = ip" "length ?ys = len" using assms(7) by auto
  have t: "take ip inp @ ?ys = take (ip + len) inp" by (simp add: take_add)
  have "\<forall>i < length ?ys. (take ip inp @ ?ys) ! (length (take ip inp) + i) = (take ip inp @ ?ys) ! (length (take ip inp) - (ip - ref - 1) - 1 + i)"
    unfolding t l using assms(3,7,8) by (auto simp: same_def)
  then show ?thesis using decoded_ref [OF assms(1,4), of ?ys] assms(3,5,6) unfolding l t by simp
qed

lemma lzf_inv_hash [simp]: "lzf_inv inp n (st\<lparr>lz_hval := h, lz_htab := t\<rparr>) = lzf_inv inp n st"
  by (simp add: lzf_inv_def)

lemma FRST_ok: "p + 1 < length inp \<Longrightarrow> \<exists>h. FRST inp p = Some h"
  by (simp add: FRST_def rd_def nat_add_distrib)

lemma NEXT_ok: "p + 2 < length inp \<Longrightarrow> \<exists>h. NEXT v inp p = Some h"
  by (simp add: NEXT_def rd_def nat_add_distrib)

lemma compress_match_spec:
  assumes inv: "lzf_inv inp n st" and ip: "lz_ip st + 2 < length inp"
    and m: "0 < ref" "ref < lz_ip st" "lzf_off (lz_ip st) ref = lz_ip st - ref - 1" "lzf_off (lz_ip st) ref < 8192"
      "same inp ref (lz_ip st) 3"
  shows "step_ok inp n st (compress_match inp ref st)"
proof -
  define undo :: nat where "undo = (if lz_lit st = 0 then 1 else 0)"
  have n: "length (lz_out st) = n" "0 < lz_op st" using inv by (auto simp: lzf_inv_def)
  have un: "(if lz_lit st = 0 then 1 else 0) = int undo" "undo \<le> lz_op st" using n(2) by (auto simp: undo_def)
  show ?thesis
  proof (cases "lz_op st + 3 + 1 \<ge> n \<and> int (lz_op st) - int undo + 3 + 1 \<ge> int n")
    case True
    then show ?thesis using n(1) un by (simp add: compress_match_def step_ok_def Let_def)
  next
    case False
    then have room: "lz_op st - undo + 4 < n" using un(2) by auto
    have opn: "lz_op st \<le> n" using room by (simp add: undo_def split: if_splits)
    obtain o1 where o1: "stop_run (lz_op st) (lz_lit st) (lz_out st) = Some o1" "length o1 = n"
      "decoded (take (lz_op st - undo) o1) (take (lz_ip st) inp)"
      using flush [OF inv opn] unfolding undo_def by blast
    obtain len where len: "match_len inp ref (lz_ip st) = Some len" "3 \<le> len" "len \<le> 264" "lz_ip st + len \<le> length inp"
      "same inp ref (lz_ip st) len"
      using match_len_spec [OF m(2) ip m(5)] by blast
    define off where "off = lz_ip st - ref - 1"
    define k where "k = length (enc_ref off (len - 2))"
    obtain o2 where o2: "put_ref off (len - 2) (lz_op st - undo) o1 = Some (lz_op st - undo + k, o2)" "length o2 = length o1"
      "take (lz_op st - undo + k) o2 = take (lz_op st - undo) o1 @ enc_ref off (len - 2)"
      using put_ref_spec [of "lz_op st - undo" o1 off "len - 2"] room o1(2) unfolding k_def by auto
    define st' where "st' = st\<lparr>lz_ip := lz_ip st + len, lz_op := lz_op st - undo + k + 1, lz_lit := 0, lz_out := o2\<rparr>"
    have "decoded (take (lz_op st - undo + k) o2) (take (lz_ip st + len) inp)"
      unfolding o2(3) off_def using m(3,4) by (intro same_decoded [OF o1(3) m(1,2) _ len(2-5)]) simp
    moreover have "32 * (lz_op st - undo + k) \<le> 33 * (lz_ip st + len)"
    proof -
      obtain base where b: "lz_op st = base + 1 + lz_lit st" "lz_lit st \<le> lz_ip st" "32 * base \<le> 33 * (lz_ip st - lz_lit st)"
        using inv by (auto simp: lzf_inv_def)
      have k: "k \<le> 3" "len < 9 \<Longrightarrow> k = 2" by (auto simp: k_def enc_ref_def)
      show ?thesis using b k len(2) by (cases "len < 9"; cases "lz_lit st = 0") (auto simp: undo_def)
    qed
    ultimately have inv': "lzf_inv inp n st'" unfolding lzf_inv_def
      using len(4) room o2(2) o1(2) k_def by (intro exI [of _ "lz_op st - undo + k"]) (auto simp: st'_def enc_ref_def)
    have rm: "\<not> int n \<le> 4 + int (lz_op st - undo)" using room by linarith
    have ip': "Suc (Suc (lz_ip st + (len - 2))) = lz_ip st + len" using len(2) by simp
    have eq: "compress_match inp ref st =
        (if lz_ip st + len + 2 \<ge> length inp then Some (Lzf_Break st')
         else do {
           hval \<leftarrow> FRST inp (lz_ip st + len - 2);
           hval \<leftarrow> NEXT hval inp (lz_ip st + len - 2);
           let htab = (lz_htab st')(IDX hval := of_nat (lz_ip st + len - 2));
           hval \<leftarrow> NEXT hval inp (lz_ip st + len - 1);
           let htab = htab(IDX hval := of_nat (lz_ip st + len - 1));
           Some (Lzf_Continue (st'\<lparr>lz_hval := hval, lz_htab := htab\<rparr>)) })"
      unfolding compress_match_def Let_def using rm n(1) o1(1) len(1) o2(1) m(3)
      by (simp add: un(1) ip' st'_def off_def nat_diff_distrib un(2) flip: of_nat_diff)
    show ?thesis
    proof (cases "lz_ip st + len + 2 \<ge> length inp")
      case True
      then show ?thesis unfolding eq using inv' by (simp add: step_ok_def st'_def)
    next
      case False
      then have bd: "lz_ip st + len - 1 + 2 < length inp" "lz_ip st + len - 2 + 2 < length inp" using len(2) by auto
      obtain h0 where h0: "FRST inp (lz_ip st + len - 2) = Some h0" using FRST_ok [of "lz_ip st + len - 2" inp] bd by auto
      obtain h1 where h1: "NEXT h0 inp (lz_ip st + len - 2) = Some h1" using NEXT_ok [of "lz_ip st + len - 2" inp h0] bd by auto
      obtain h2 where "NEXT h1 inp (lz_ip st + len - 1) = Some h2" using NEXT_ok [OF bd(1), of h1] by auto
      with h0 h1 show ?thesis unfolding eq using False inv' by (simp add: step_ok_def Let_def)
    qed
  qed
qed

lemma compress_step_spec:
  assumes inv: "lzf_inv inp n st" and ip: "lz_ip st + 2 < length inp" and len: "length inp \<le> 2 ^ 32"
  shows "step_ok inp n st (compress_step inp st)"
proof -
  obtain h where h: "NEXT (lz_hval st) inp (lz_ip st) = Some h" using NEXT_ok [OF ip] by blast
  define ref where "ref = unat (lz_htab st (IDX h))"
  define st1 where "st1 = st\<lparr>lz_hval := h, lz_htab := (lz_htab st)(IDX h := of_nat (lz_ip st))\<rparr>"
  have s1: "lzf_inv inp n st1" "lz_ip st1 = lz_ip st" "lz_op st1 = lz_op st" "lz_out st1 = lz_out st" using inv by (simp_all add: st1_def)
  have "ref < 2 ^ 32" using unsigned_less [of "lz_htab st (IDX h)"] by (simp add: ref_def)
  then obtain m where m: "lzf_match inp ref (lz_ip st) = Some m" "m \<longrightarrow> 0 < ref \<and> ref < lz_ip st \<and> lzf_off (lz_ip st) ref = lz_ip st - ref - 1 \<and>
    lzf_off (lz_ip st) ref < 8192 \<and> same inp ref (lz_ip st) 3"
    using lzf_match_spec [OF ip len] by blast
  have eq: "compress_step inp st = (if m then compress_match inp ref st1
      else if lz_op st \<ge> length (lz_out st) then Some (Lzf_Return0 (lz_out st))
      else do { st \<leftarrow> put_literal inp st1; Some (Lzf_Continue st) })"
    using h m(1) s1(2-4) by (simp add: compress_step_def ref_def st1_def Let_def)
  have n: "length (lz_out st) = n" using inv by (auto simp: lzf_inv_def)
  consider "m" | "\<not> m" "lz_op st \<ge> n" | (lit) "\<not> m" "lz_op st < n" by linarith
  then show ?thesis
  proof cases
    case 1
    then have "step_ok inp n st1 (compress_match inp ref st1)" using m(2) s1 ip by (intro compress_match_spec) auto
    then show ?thesis unfolding eq using 1 s1(3) by (auto simp: step_ok_def split: option.splits lzf_next.splits)
  next
    case 2
    then show ?thesis unfolding eq using n by (simp add: step_ok_def)
  next
    case lit
    then obtain st' where "put_literal inp st1 = Some st'" "lzf_inv inp n st'"
      using put_literal_spec [OF s1(1)] s1(2,3) ip by auto
    then show ?thesis unfolding eq using lit n by (simp add: step_ok_def)
  qed
qed

lemma compress_loop_spec:
  assumes "lzf_inv inp n st" "length inp \<le> 2 ^ 32"
  shows "\<exists>r. compress_loop inp st = Some r \<and> (case r of
      Inl out \<Rightarrow> length out = n \<and> 32 * n \<le> 33 * length inp + 160
    | Inr st' \<Rightarrow> lzf_inv inp n st' \<and> length inp \<le> lz_ip st' + 2)"
  using assms(1)
proof (induction "length inp - lz_ip st" arbitrary: st rule: less_induct)
  case less
  show ?case
  proof (cases "lz_ip st + 2 < length inp")
    case False
    then show ?thesis using less.prems by (subst compress_loop.simps) simp
  next
    case True
    have ok: "step_ok inp n st (compress_step inp st)" by (rule compress_step_spec [OF less.prems True assms(2)])
    then obtain r where r: "compress_step inp st = Some r" by (auto simp: step_ok_def split: option.splits)
    show ?thesis
    proof (cases r)
      case (Lzf_Return0 out)
      then have "length out = n" "n \<le> lz_op st + 4" using ok r by (auto simp: step_ok_def)
      then show ?thesis using lzf_inv_op [OF less.prems] True r Lzf_Return0 by (subst compress_loop.simps) simp
    next
      case (Lzf_Break st')
      then show ?thesis using ok r True by (subst compress_loop.simps) (simp add: step_ok_def)
    next
      case (Lzf_Continue st')
      then have "lzf_inv inp n st'" "lz_ip st < lz_ip st'" using ok r compress_step_ip by (auto simp: step_ok_def)
      then show ?thesis using less.hyps [of st'] True r Lzf_Continue by (subst compress_loop.simps) simp
    qed
  qed
qed

lemma compress_tail_spec:
  assumes "lzf_inv inp n st" "length inp \<le> lz_ip st + 2"
    "lz_op st + (length inp - lz_ip st) + (if lz_lit st + (length inp - lz_ip st) \<ge> 32 then 1 else 0) \<le> n"
  shows "\<exists>st'. compress_tail inp st = Some st' \<and> lzf_inv inp n st' \<and> lz_ip st' = length inp \<and> lz_op st' \<le> n"
  using assms
proof (induction "length inp - lz_ip st" arbitrary: st)
  case 0
  have "lz_ip st \<le> length inp" using 0(2) by (auto simp: lzf_inv_def)
  then show ?case using 0 by (subst compress_tail.simps) simp
next
  case (Suc r)
  have ip: "lz_ip st < length inp" "lz_op st < n" using Suc.hyps(2) Suc.prems(3) by (auto split: if_splits)
  obtain st' where p: "put_literal inp st = Some st'" "lzf_inv inp n st'" "lz_ip st' = lz_ip st + 1"
    "lz_lit st' = lz_lit st + 1 \<and> lz_op st' = lz_op st + 1 \<or> lz_lit st' = 0 \<and> lz_lit st = 31 \<and> lz_op st' = lz_op st + 2"
    using put_literal_spec [OF Suc.prems(1) ip] by blast
  have "\<exists>st''. compress_tail inp st' = Some st'' \<and> lzf_inv inp n st'' \<and> lz_ip st'' = length inp \<and> lz_op st'' \<le> n"
    using Suc.hyps(2) Suc.prems(2,3) p(2-4) ip(1) by (intro Suc.hyps(1)) (auto split: if_splits)
  then show ?case using p(1) ip(1) by (subst compress_tail.simps) simp
qed

text \<open>The result: either 0, and then the buffer was short, or the length of compressed data for the input.\<close>

lemma lzf_compress_spec:
  assumes "2 \<le> length inp" "length inp \<le> 2 ^ 32"
  shows "\<exists>n out'. lzf_compress htab inp out = Some (n, out') \<and> length out' = length out \<and> n \<le> length out \<and>
    32 * n \<le> 33 * length inp + 32 \<and> (n = 0 \<longrightarrow> 32 * length out \<le> 33 * length inp + 160) \<and>
    (0 < n \<longrightarrow> decoded (take n out') inp)"
proof (cases "out = []")
  case True
  then show ?thesis by (simp add: lzf_compress_def)
next
  case False
  obtain h where h: "FRST inp 0 = Some h" using FRST_ok [of 0 inp] assms(1) by auto
  define st where "st = \<lparr>lz_ip = 0, lz_op = 1, lz_lit = 0, lz_hval = h, lz_htab = htab, lz_out = out\<rparr>"
  have inv: "lzf_inv inp (length out) st" unfolding lzf_inv_def
    using False decoded_Nil by (intro exI [of _ 0]) (simp add: st_def)
  obtain r where r: "compress_loop inp st = Some r" "case r of
      Inl o' \<Rightarrow> length o' = length out \<and> 32 * length out \<le> 33 * length inp + 160
    | Inr st' \<Rightarrow> lzf_inv inp (length out) st' \<and> length inp \<le> lz_ip st' + 2"
    using compress_loop_spec [OF inv assms(2)] by blast
  have ne: "inp \<noteq> []" using assms(1) by auto
  have eq: "lzf_compress htab inp out = (case r of
      Inl out \<Rightarrow> Some (0, out)
    | Inr st \<Rightarrow>
        (if lz_op st + 3 > length (lz_out st) then Some (0, lz_out st)
         else do {
           st \<leftarrow> compress_tail inp st;
           out \<leftarrow> stop_run (lz_op st) (lz_lit st) (lz_out st);
           Some (lz_op st - (if lz_lit st = 0 then 1 else 0), out) }))"
    using False ne h r(1) by (simp add: lzf_compress_def st_def)
  show ?thesis
  proof (cases r)
    case (Inl o')
    then show ?thesis unfolding eq using r(2) by simp
  next
    case (Inr st1)
    then have s1: "lzf_inv inp (length out) st1" "length inp \<le> lz_ip st1 + 2" using r(2) by auto
    have l1: "length (lz_out st1) = length out" "lz_ip st1 \<le> length inp" using s1(1) by (auto simp: lzf_inv_def)
    show ?thesis
    proof (cases "lz_op st1 + 3 > length out")
      case True
      then show ?thesis unfolding eq using Inr l1 lzf_inv_op [OF s1(1)] by simp
    next
      case False
      then have "lz_op st1 + (length inp - lz_ip st1) + (if lz_lit st1 + (length inp - lz_ip st1) \<ge> 32 then 1 else 0) \<le> length out"
        using s1(2) by auto
      then obtain st2 where s2: "compress_tail inp st1 = Some st2" "lzf_inv inp (length out) st2" "lz_ip st2 = length inp"
        "lz_op st2 \<le> length out"
        using compress_tail_spec [OF s1] by blast
      obtain o2 where o2: "stop_run (lz_op st2) (lz_lit st2) (lz_out st2) = Some o2" "length o2 = length out"
        "decoded (take (lz_op st2 - (if lz_lit st2 = 0 then 1 else 0)) o2) (take (lz_ip st2) inp)"
        using flush [OF s2(2,4)] by blast
      define k where "k = lz_op st2 - (if lz_lit st2 = 0 then 1 else 0)"
      have d: "decoded (take k o2) inp" using o2(3) s2(3) by (simp add: k_def)
      have "0 < k"
      proof (rule ccontr)
        assume "\<not> 0 < k"
        then have "decoded [] inp" using d by simp
        then show False using ne by (cases rule: decoded.cases) (auto simp: enc_ref_def split: if_splits)
      qed
      moreover have "lzf_compress htab inp out = Some (k, o2)" unfolding eq using Inr False l1 s2(1) o2(1) by (simp add: k_def)
      moreover have "32 * k \<le> 33 * length inp + 32" "k \<le> length out" using lzf_inv_op [OF s2(2)] s2(3,4) by (auto simp: k_def)
      ultimately show ?thesis using o2(2) d by simp
    qed
  qed
qed

text \<open>An input of one byte is read past its end: \<open>FRST\<close> comes before the test of the length.\<close>

lemma lzf_compress_one: "out \<noteq> [] \<Longrightarrow> lzf_compress htab [b] out = None"
  by (simp add: lzf_compress_def FRST_def rd_def)

section \<open>Properties\<close>

text \<open>
  C1. Compression is lossless: on any input of two bytes to 2^32 - 1, for any output buffer and any
  contents of the uninitialized hash table, \<open>lzf_compress\<close> returns without an access outside the buffers;
  it returns 0 only when the buffer is shorter than about 33/32 of the input, and a result is never
  longer than that; and \<open>lzf_decompress\<close> of the result into any buffer large enough for the input
  returns the length of the input and the input.
\<close>

theorem lzf_roundtrip:
  assumes "2 \<le> length inp" "length inp < 2 ^ 32"
  shows "\<exists>n out'. lzf_compress htab inp out = Some (n, out') \<and> length out' = length out \<and> n \<le> length out \<and>
    32 * n \<le> 33 * length inp + 32 \<and> (n = 0 \<longrightarrow> 32 * length out \<le> 33 * length inp + 160) \<and>
    (0 < n \<longrightarrow> (\<forall>buf. length inp \<le> length buf \<longrightarrow>
       (\<exists>buf'. lzf_decompress (take n out') buf = Some (Inr (length inp), buf') \<and> take (length inp) buf' = inp)))"
proof -
  obtain n out' where r: "lzf_compress htab inp out = Some (n, out')" "length out' = length out" "n \<le> length out"
    "32 * n \<le> 33 * length inp + 32" "n = 0 \<longrightarrow> 32 * length out \<le> 33 * length inp + 160" "0 < n \<longrightarrow> decoded (take n out') inp"
    using lzf_compress_spec [of inp htab out] assms by auto
  then show ?thesis using decoded_decompress [of "take n out'" inp] by blast
qed

theorem lzf_roundtrip_witness:
  "\<exists>n out' buf'. lzf_compress (\<lambda>_. 7) [1, 1, 1, 1, 1, 2] (replicate 12 0) = Some (n, out') \<and> 0 < n \<and>
    lzf_decompress (take n out') (replicate 6 0) = Some (Inr 6, buf') \<and> take 6 buf' = [1, 1, 1, 1, 1, 2]"
proof -
  have l: "2 \<le> length [1, 1, 1, 1, 1, 2 :: byte]" "length [1, 1, 1, 1, 1, 2 :: byte] < 2 ^ 32" by simp_all
  obtain n out' where r: "lzf_compress (\<lambda>_. 7) [1, 1, 1, 1, 1, 2] (replicate 12 0) = Some (n, out')"
    "n = 0 \<longrightarrow> 32 * length (replicate 12 (0 :: byte)) \<le> 33 * length [1, 1, 1, 1, 1, 2 :: byte] + 160"
    "0 < n \<longrightarrow> (\<forall>buf. length [1, 1, 1, 1, 1, 2 :: byte] \<le> length buf \<longrightarrow>
       (\<exists>buf'. lzf_decompress (take n out') buf = Some (Inr (length [1, 1, 1, 1, 1, 2 :: byte]), buf') \<and>
          take (length [1, 1, 1, 1, 1, 2 :: byte]) buf' = [1, 1, 1, 1, 1, 2]))"
    using lzf_roundtrip [OF l, of "\<lambda>_. 7" "replicate 12 0"] by blast
  have "0 < n" using r(2) by (cases "n = 0") simp_all
  moreover have l6: "length [1, 1, 1, 1, 1, 2 :: byte] = 6" "6 \<le> length (replicate 6 (0 :: byte))" by simp_all
  ultimately show ?thesis using r(1) r(3) [unfolded l6(1)] l6(2) by blast
qed

text \<open>
  C22. \<open>lzf_decompress\<close> never reads or writes outside its buffers and returns, whatever the bytes of its
  input: a corrupted dump gives an error or wrong data, never a memory fault.
\<close>

theorem lzf_decompress_safe:
  "\<exists>r out'. lzf_decompress inp out = Some (r, out') \<and> length out' = length out \<and>
    (case r of Inl err \<Rightarrow> True | Inr n \<Rightarrow> n \<le> length out)"
  unfolding lzf_decompress_def using decompress_loop_safe [of 0 out inp 0] by (force split: sum.splits)

end
