(* ===== verification/Spec2Isabelle.thy ===== *)
theory Spec2Isabelle
  imports T_set_ops Adlist Bitop Sds_Text Lzf
begin

text \<open>
  A verification library for the data structures and algorithms of the Redis 6.2.6 server, whose
  sources are vendored under \<^verbatim>\<open>src/redis-stable/src\<close>. File names below are relative to that directory.

  \<^bold>\<open>The program.\<close> The server keeps a database of values in memory and answers commands. Strings of
  bytes (\<^verbatim>\<open>sds.c\<close>) are keys, elements and buffers. Hash tables with incremental rehashing (\<^verbatim>\<open>dict.c\<close>), keyed by
  SipHash (\<^verbatim>\<open>siphash.c\<close>) with the callbacks of \<^verbatim>\<open>server.c\<close>, hold the database itself and the larger sets
  and hashes. Small sets of integers are sorted arrays (\<^verbatim>\<open>intset.c\<close>); a set object (\<^verbatim>\<open>t_set.c\<close>) starts as
  one and becomes a hash table when it grows or gets an element that is not the decimal
  representation of an integer (\<^verbatim>\<open>util.c\<close>). The commands on sets combine such objects. Bitmaps
  (\<^verbatim>\<open>bitops.c\<close>) are strings read bit by bit, linked lists (\<^verbatim>\<open>adlist.c\<close>) carry the bookkeeping of clients,
  and LZF (\<^verbatim>\<open>lzf_c.c\<close>, \<^verbatim>\<open>lzf_d.c\<close>) compresses strings in dumps and in the nodes of long lists.

  \<^bold>\<open>Conventions.\<close> Every C function is a HOL function of the same name (a leading underscore is the suffix
  \<open>_u\<close>), a struct is a record, an enumeration a datatype, a loop a recursive function named after the
  function it is in. State is passed and returned. The option monad stands for undefined behaviour: an
  access outside an object, a failed assertion and a loop that does not end are \<open>None\<close>, so that every
  theorem of the form "returns \<open>Some\<close>" includes memory safety, absence of assertion failures and
  termination. Bytes and hash values are words; C integers that may wrap are words or have the
  wrap-around written out; counters of memory objects are natural numbers. Indeterminate memory,
  random numbers, clocks, addresses and the allocator are arguments, and theorems hold for all of
  their values that the statement does not restrict.

  \<^bold>\<open>Theories.\<close>
  \<^item> \<open>Redis_Prelude\<close>: C integer types, a checked byte memory, little-endian encodings, shared list facts.
  \<^item> \<open>Set_Interface\<close>: the contract of a set representation as the locale \<open>set_impl\<close>, and the loop of \<open>SADD\<close>
    proved against it. Its instances are integer sets (\<open>intset_impl\<close>), hash tables of strings (\<open>dict_set\<close>)
    and set objects (\<open>setobj_impl\<close>).
  \<^item> \<open>Intset\<close>: \<^verbatim>\<open>intset.c\<close>, all of it, on the byte array behind the header. Search, insertion with the
    in-place change of the element width, removal and the validation of payloads read from a dump;
    insertion and removal refine those of a sorted set, validation accepts exactly the well-formed
    payloads and never reads outside of one; the 32-bit byte count of the tail move wraps at 2^29
    eight-byte elements.
  \<^item> \<open>Dict\<close>, \<open>Dict_Rev\<close>, \<open>Dict_Scan\<close>, \<open>Dict_Iter\<close>: \<^verbatim>\<open>dict.c\<close> and \<^verbatim>\<open>dict.h\<close>. The two tables, resizing, incremental
    rehashing, insertion, lookup, replacement, deletion and clearing; the bit reversal; the stateless
    scan; iterators with their fingerprint, and random sampling. The locale \<open>dict_type\<close> states the laws of
    the callbacks; under them every operation keeps the invariant \<open>dict_inv\<close> and acts on \<open>dict_map\<close> as the
    operation on a finite map.
  \<^item> \<open>Siphash\<close>, \<open>Util_Num\<close>, \<open>Dict_Types\<close>: \<^verbatim>\<open>siphash.c\<close>, the integer conversions of \<^verbatim>\<open>util.c\<close>, and the dictionary
    types, the resize policy and the memory guard of \<^verbatim>\<open>server.c\<close> and \<^verbatim>\<open>evict.c\<close>. \<open>dict_type\<close> is interpreted for
    the types of sets, sorted sets, databases, expires, hashes and objects; the type of the command
    table violates its laws on names with a null byte, which is a property of its own.
  \<^item> \<open>Dict_Props\<close>: the properties of the hash tables, among them that every reachable dictionary is
    well-formed, that rehashing ends, that a scan returns every element that is present throughout,
    whatever resizes happen between its calls, and that it terminates.
  \<^item> \<open>Adlist\<close>: \<^verbatim>\<open>adlist.c\<close>, all of it, on an explicit heap of nodes; every operation refines one on lists, and
    duplication releases everything it allocated when a callback fails.
  \<^item> \<open>Bitops\<close>, \<open>Bitop\<close>: of \<^verbatim>\<open>bitops.c\<close> the bit fields, the search for a bit and the overflow policies; the
    computation of \<open>BITOP\<close>, whose paths over words and over bytes agree with one definition by bits, and
    the parallel bit count.
  \<^item> \<open>Sds\<close>, \<open>Sds_Num\<close>, \<open>Sds_Text\<close>: \<^verbatim>\<open>sds.c\<close> and \<^verbatim>\<open>sds.h\<close> over an allocator that may fail: the five header types,
    growth, appending and in-place changes refine operations on byte lists; quoting and parsing of
    arguments, and splitting and joining, are inverse to each other.
  \<^item> \<open>T_set\<close>, \<open>T_set_iter\<close>, \<open>T_set_ops\<close>: the set objects of \<^verbatim>\<open>t_set.c\<close> over the three components above, their
    iterators, and the algorithms of \<open>SINTER\<close>, \<open>SUNION\<close> and \<open>SDIFF\<close> on a heap of set objects, in which the same
    object may be given several times.
  \<^item> \<open>Lzf\<close>: \<^verbatim>\<open>lzf_c.c\<close> and \<^verbatim>\<open>lzf_d.c\<close>; compression is lossless for every contents of its uninitialized hash
    table, and decompression of any bytes stays inside its buffers.

  \<^bold>\<open>Bounds.\<close> No fuel is used: loops are total functions with a termination proof, or partial functions of
  the option monad whose results are proved to exist. The bounds in hypotheses are those of the code.
  Dictionaries have fewer than 2^60 entries, so that sizes and their doubling fit 64 bits. Integer sets
  have fewer than 2^29 elements, below which the 32-bit byte counts do not wrap. \<open>enough\<close> says that
  the allocator grants requests up to a bound, which is what the callers of \<^verbatim>\<open>sds.c\<close> assume when they
  do not test for a null pointer. LZF inputs have at least two bytes, because the compressor reads
  two bytes before it looks at the length, and fewer than 2^32.

  \<^bold>\<open>Not modelled.\<close> The event loop, sockets, threads, persistence, replication, cluster and sentinel are
  input and output or distributed protocols. Command dispatch, key lookup with expiry, eviction and
  replies depend on the state of the whole server and on clocks; for that reason the set commands
  are modelled from the point where their keys have been looked up to the point where the result is
  stored. Sorted sets, HyperLogLog and geographic indexes compute in floating point. The packed
  lists, radix trees and streams are further data structures of the size of those modelled here.
  Memory is not tracked after it is freed, except in \<open>Adlist\<close>. Lua, jemalloc and the other bundled
  libraries, the command line tools and the JavaScript application of the repository are not part
  of the server.
\<close>

end
